(* ===== verification/RF_Prelude.thy ===== *)
theory RF_Prelude
  imports Complex_Main "HOL-Library.Word" "HOL-Library.Multiset" "HOL-Library.Sublist"
begin

text \<open>
  Shared vocabulary of the development: the Go integer types the program relies on
  (\<open>int32\<close>, \<open>int64\<close> and \<open>time.Duration\<close>), wall-clock time, the collections
  of facts the component proofs use, and generic lemmas on maps and lists.

  A \<open>time.Duration\<close> is an \<open>int64\<close> count of nanoseconds and a \<open>time.Time\<close> is
  read as its Unix nanosecond count; both are \<open>int\<close> here, and every operation of the
  program that can leave the \<open>int64\<close> range goes through \<open>wrap64\<close> or saturates, as the
  Go operation does.
\<close>

named_theorems go_int "facts about Go machine integers and durations"
named_theorems step_defs "definitions unfolded when a component takes a step"
named_theorems inv_rules "preservation lemmas of component invariants"

type_synonym duration = int
type_synonym gotime = int

section \<open>Machine integers\<close>

definition wrap64 :: "int \<Rightarrow> int" where
  "wrap64 x = sint (word_of_int x :: 64 word)"

definition wrap32 :: "int \<Rightarrow> int" where
  "wrap32 x = sint (word_of_int x :: 32 word)"

definition int64_min :: int where "int64_min = - (2 ^ 63)"
definition int64_max :: int where "int64_max = 2 ^ 63 - 1"

definition is_int64 :: "int \<Rightarrow> bool" where
  "is_int64 x \<longleftrightarrow> int64_min \<le> x \<and> x \<le> int64_max"

lemma sint_word_of_int_take:
  "sint (word_of_int x :: 'a::len word) = signed_take_bit (LENGTH('a) - Suc 0) x"
  by transfer simp

lemma wrap64_id [go_int]: "is_int64 x \<Longrightarrow> wrap64 x = x"
  by (simp add: wrap64_def is_int64_def int64_min_def int64_max_def sint_word_of_int_take
      signed_take_bit_int_eq_self)

lemma is_int64_wrap64 [go_int, simp]: "is_int64 (wrap64 x)"
  using sint_lt [of "word_of_int x :: 64 word"] sint_ge [of "word_of_int x :: 64 word"]
  by (simp add: wrap64_def is_int64_def int64_min_def int64_max_def)

lemma wrap64_wrap64 [simp]: "wrap64 (wrap64 x) = wrap64 x"
  by (rule wrap64_id) simp

lemma wrap32_id [go_int]: "- (2 ^ 31) \<le> x \<Longrightarrow> x < 2 ^ 31 \<Longrightarrow> wrap32 x = x"
  by (simp add: wrap32_def sint_word_of_int_take signed_take_bit_int_eq_self)

lemma wrap32_bounds [go_int]: "- (2 ^ 31) \<le> wrap32 x" "wrap32 x < 2 ^ 31"
  using sint_lt [of "word_of_int x :: 32 word"] sint_ge [of "word_of_int x :: 32 word"]
  by (simp_all add: wrap32_def)

text \<open>Go's \<open>/\<close> on integers truncates towards zero.\<close>

definition godiv :: "int \<Rightarrow> int \<Rightarrow> int" where
  "godiv a b = sgn a * sgn b * (\<bar>a\<bar> div \<bar>b\<bar>)"

lemma godiv_nonneg: "0 \<le> a \<Longrightarrow> 0 < b \<Longrightarrow> godiv a b = a div b"
  by (cases "a = 0") (simp_all add: godiv_def sgn_if)

section \<open>Durations and instants\<close>

definition Millisecond :: duration where "Millisecond = 1000000"
definition Second :: duration where "Second = 1000 * Millisecond"
definition Minute :: duration where "Minute = 60 * Second"

text \<open>\<open>Duration.Milliseconds()\<close>: whole milliseconds, truncated.\<close>

definition milliseconds :: "duration \<Rightarrow> int" where
  "milliseconds d = godiv d Millisecond"

text \<open>\<open>t.UnixNano()\<close> is an \<open>int64\<close>; the clock of a running server is in range.\<close>

definition unix_nano :: "gotime \<Rightarrow> int" where
  "unix_nano t = wrap64 t"

lemma unix_nano_id [go_int]: "is_int64 t \<Longrightarrow> unix_nano t = t"
  by (simp add: unix_nano_def wrap64_id)

text \<open>\<open>t.Sub(u)\<close> saturates at the ends of the \<open>int64\<close> range.\<close>

definition time_sub :: "gotime \<Rightarrow> gotime \<Rightarrow> duration" where
  "time_sub t u = max int64_min (min int64_max (t - u))"

lemma is_int64_time_sub [go_int, simp]: "is_int64 (time_sub t u)"
  by (simp add: time_sub_def is_int64_def int64_min_def int64_max_def)

lemma time_sub_exact [go_int]: "is_int64 (t - u) \<Longrightarrow> time_sub t u = t - u"
  by (simp add: time_sub_def is_int64_def)

lemma time_sub_self [simp]: "time_sub t t = 0"
  by (simp add: time_sub_def int64_min_def int64_max_def)

lemma time_sub_mono: "t \<le> t' \<Longrightarrow> time_sub t u \<le> time_sub t' u"
  by (simp add: time_sub_def min_def max_def)

lemma time_sub_nonneg: "u \<le> t \<Longrightarrow> 0 \<le> time_sub t u"
  by (simp add: time_sub_def int64_min_def int64_max_def)

section \<open>Lists and maps\<close>

lemma distinct_map_filterI: "distinct (map f xs) \<Longrightarrow> distinct (map f (filter P xs))"
  by (induction xs) auto

lemma map_upd_None_iff [simp]: "(m(k \<mapsto> v)) j = None \<longleftrightarrow> j \<noteq> k \<and> m j = None"
  by simp

lemma filter_last_appended:
  "P x \<Longrightarrow> filter P (xs @ [x]) \<noteq> [] \<and> last (filter P (xs @ [x])) = x"
  by simp

end
