(* ===== verification/RF_Float64.thy ===== *)
theory RF_Float64
  imports RF_Prelude
begin

text \<open>
  IEEE-754 binary64 arithmetic as Go's \<open>float64\<close> uses it: a float is the real number it
  denotes, and every operation rounds the exact result to the nearest representable number, ties
  to the even significand. The 53-bit significand and the subnormal range (least quantum
  \<open>2 powi -1074\<close>) are modelled; infinities and NaN are not, since no value of the program
  comes near \<open>max_float64\<close>.
\<close>

section \<open>Rounding\<close>

text \<open>Round half to even.\<close>

definition rne :: "real \<Rightarrow> int" where
  "rne x = (let n = \<lfloor>x\<rfloor>; f = x - of_int n in
     if f < 1 / 2 then n else if f > 1 / 2 then n + 1 else if even n then n else n + 1)"

text \<open>The exponent of the last significand bit of a number of this size.\<close>

definition quantum :: "real \<Rightarrow> int" where
  "quantum x = max (\<lfloor>log 2 \<bar>x\<bar>\<rfloor> - 52) (-1074)"

definition fl :: "real \<Rightarrow> real" where
  "fl x = (if x = 0 then 0
     else of_int (rne (x / 2 powi quantum x)) * 2 powi quantum x)"

definition f64_add :: "real \<Rightarrow> real \<Rightarrow> real" where "f64_add x y = fl (x + y)"
definition f64_sub :: "real \<Rightarrow> real \<Rightarrow> real" where "f64_sub x y = fl (x - y)"
definition f64_mul :: "real \<Rightarrow> real \<Rightarrow> real" where "f64_mul x y = fl (x * y)"
definition f64_div :: "real \<Rightarrow> real \<Rightarrow> real" where "f64_div x y = fl (x / y)"
definition f64_of_int :: "int \<Rightarrow> real" where "f64_of_int n = fl (of_int n)"

text \<open>\<open>math.MaxFloat64\<close>.\<close>

definition max_float64 :: real where
  "max_float64 = (2 - 2 powi (-52)) * 2 powi 1023"

lemmas f64_defs = f64_add_def f64_sub_def f64_mul_def f64_div_def f64_of_int_def

section \<open>Rounding to an integer\<close>

lemma rne_bounds: "\<lfloor>x\<rfloor> \<le> rne x" "rne x \<le> \<lfloor>x\<rfloor> + 1"
  by (simp_all add: rne_def Let_def)

lemma rne_of_int [simp]: "rne (of_int n) = n"
  by (simp add: rne_def)

lemma rne_error: "\<bar>of_int (rne x) - x\<bar> \<le> 1 / 2"
proof -
  define n f where "n = \<lfloor>x\<rfloor>" and "f = x - of_int n"
  have "0 \<le> f" "f < 1" "x = of_int n + f"
    unfolding n_def f_def by linarith+
  then show ?thesis
    unfolding rne_def Let_def n_def [symmetric] f_def [symmetric]
    by (auto simp: abs_if)
qed

lemma rne_unique: "\<bar>x - of_int n\<bar> < 1 / 2 \<Longrightarrow> rne x = n"
proof -
  assume "\<bar>x - of_int n\<bar> < 1 / 2"
  then have "\<bar>of_int (rne x) - of_int n :: real\<bar> < 1"
    using rne_error [of x] by linarith
  then have "\<bar>rne x - n\<bar> < 1"
    by (metis of_int_1_less_iff of_int_abs of_int_diff linorder_not_less of_int_1 of_int_le_iff)
  then show ?thesis by linarith
qed

lemma rne_mono: assumes "x \<le> y" shows "rne x \<le> rne y"
proof (cases "\<lfloor>x\<rfloor> = \<lfloor>y\<rfloor>")
  case True
  with assms show ?thesis by (auto simp: rne_def Let_def)
next
  case False
  with assms have "\<lfloor>x\<rfloor> + 1 \<le> \<lfloor>y\<rfloor>"
    using floor_mono [OF assms] by linarith
  then show ?thesis
    using rne_bounds [of x] rne_bounds [of y] by linarith
qed

lemma rne_nonneg: "0 \<le> x \<Longrightarrow> 0 \<le> rne x"
  using rne_mono [of 0 x] rne_of_int [of 0] by simp

lemma rne_ge_int: "of_int n \<le> x \<Longrightarrow> n \<le> rne x"
  using rne_mono [of "of_int n" x] by simp

lemma rne_le_int: "x \<le> of_int n \<Longrightarrow> rne x \<le> n"
  using rne_mono [of x "of_int n"] by simp

section \<open>The exponent of a number\<close>

lemma powi_split: "(2::real) powi a / 2 powi b = 2 powi (a - b)"
  by (simp add: power_int_diff)

lemma powi_mono2: "a \<le> b \<Longrightarrow> (2::real) powi a \<le> 2 powi b"
  by (rule power_int_increasing) simp_all

lemma powi_nonneg_int: "0 \<le> k \<Longrightarrow> (2::real) powi k = of_int (2 ^ nat k)"
  by (simp add: power_int_def)

lemma powi_shift: "a \<le> b \<Longrightarrow> 2 ^ nat (b - a) * 2 powi a = (2::real) powi b"
  using powi_nonneg_int [of "b - a"] by (simp add: power_int_diff field_simps)

lemma exponent_bounds:
  assumes "x \<noteq> 0"
  shows "2 powi \<lfloor>log 2 \<bar>x\<bar>\<rfloor> \<le> \<bar>x\<bar>" and "\<bar>x\<bar> < 2 powi (\<lfloor>log 2 \<bar>x\<bar>\<rfloor> + 1)"
proof -
  let ?e = "\<lfloor>log 2 \<bar>x\<bar>\<rfloor>"
  have "2 powr of_int ?e \<le> 2 powr (log 2 \<bar>x\<bar>)"
    by (rule powr_mono) simp_all
  then show "2 powi ?e \<le> \<bar>x\<bar>"
    using assms by (simp add: powr_real_of_int')
  have "2 powr (log 2 \<bar>x\<bar>) < 2 powr of_int (?e + 1)"
    by (rule powr_less_mono) (linarith, simp)
  then show "\<bar>x\<bar> < 2 powi (?e + 1)"
    using assms by (simp add: powr_real_of_int' del: of_int_add)
qed

lemma exponent_le:
  assumes "x \<noteq> 0" and "\<bar>x\<bar> < 2 powi (k + 1)"
  shows "\<lfloor>log 2 \<bar>x\<bar>\<rfloor> \<le> k"
proof (rule ccontr)
  assume "\<not> ?thesis"
  then have "k + 1 \<le> \<lfloor>log 2 \<bar>x\<bar>\<rfloor>" by simp
  then have "2 powi (k + 1) \<le> (2::real) powi \<lfloor>log 2 \<bar>x\<bar>\<rfloor>" by (rule powi_mono2)
  with exponent_bounds(1) [OF assms(1)] assms(2) show False by linarith
qed

lemma quantum_mono:
  assumes "0 < x" "x \<le> y" shows "quantum x \<le> quantum y"
proof -
  have "log 2 \<bar>x\<bar> \<le> log 2 \<bar>y\<bar>" using assms by simp
  then have "\<lfloor>log 2 \<bar>x\<bar>\<rfloor> \<le> \<lfloor>log 2 \<bar>y\<bar>\<rfloor>" by (rule floor_mono)
  then show ?thesis by (simp add: quantum_def)
qed

section \<open>Rounding to binary64\<close>

lemma fl_0 [simp]: "fl 0 = 0"
  by (simp add: fl_def)

lemma fl_nonneg: "0 \<le> x \<Longrightarrow> 0 \<le> fl x"
  by (simp add: fl_def rne_nonneg)

lemma fl_error: "\<bar>fl x - x\<bar> \<le> 2 powi (-53) * \<bar>x\<bar> + 2 powi (-1075)"
proof (cases "x = 0")
  case False
  let ?q = "quantum x" and ?e = "\<lfloor>log 2 \<bar>x\<bar>\<rfloor>"
  have "\<bar>fl x - x\<bar> = \<bar>of_int (rne (x / 2 powi ?q)) - x / 2 powi ?q\<bar> * 2 powi ?q"
    using False by (simp add: fl_def flip: abs_mult_pos) (simp add: field_simps)
  also have "\<dots> \<le> 1 / 2 * 2 powi ?q"
    by (intro mult_right_mono rne_error) simp
  also have "\<dots> = 2 powi (?q - 1)"
    by (simp add: power_int_diff)
  also have "\<dots> \<le> 2 powi (?e - 53) + 2 powi (-1075)"
    by (cases "?e - 52 \<le> -1074") (simp_all add: quantum_def max_def)
  also have "2 powi (?e - 53) = 2 powi (-53) * (2 powi ?e :: real)"
    by (simp add: power_int_diff)
  finally show ?thesis
    using exponent_bounds(1) [OF False] by (smt (verit) mult_left_mono zero_less_power_int)
qed simp

text \<open>Numbers with a 53-bit significand are not changed.\<close>

lemma fl_exact:
  assumes "\<bar>m\<bar> < 2 ^ 53" and "-1074 \<le> k"
  shows "fl (of_int m * 2 powi k) = of_int m * 2 powi k"
proof (cases "m = 0")
  case False
  let ?x = "of_int m * 2 powi k :: real"
  have "\<bar>of_int m :: real\<bar> < 2 powi 53"
    using assms(1) by (simp flip: of_int_abs)
  then have "\<bar>?x\<bar> < 2 powi 53 * 2 powi k"
    by (simp add: abs_mult mult_strict_right_mono)
  also have "2 powi 53 * 2 powi k = (2::real) powi (52 + k + 1)"
    by (simp add: power_int_add)
  finally have "\<bar>?x\<bar> < 2 powi (52 + k + 1)" .
  then have "\<lfloor>log 2 \<bar>?x\<bar>\<rfloor> \<le> 52 + k"
    using False by (intro exponent_le) simp_all
  with assms(2) have q: "quantum ?x \<le> k" by (simp add: quantum_def)
  have "?x / 2 powi quantum ?x = of_int m * (2 powi k / 2 powi quantum ?x)"
    by simp
  also have "\<dots> = of_int (m * 2 ^ nat (k - quantum ?x))"
    using q unfolding powi_split by (simp add: powi_nonneg_int)
  finally have "rne (?x / 2 powi quantum ?x) = m * 2 ^ nat (k - quantum ?x)"
    by (simp only: rne_of_int)
  then show ?thesis
    using False q by (simp add: fl_def powi_shift mult.assoc)
qed simp

lemma fl_of_small_int: "\<bar>m\<bar> < 2 ^ 53 \<Longrightarrow> fl (of_int m) = of_int m"
  using fl_exact [of m 0] by simp

text \<open>Rounding is monotone: within a binade by \<open>rne_mono\<close>, across binades because a
  power of two is itself representable.\<close>

lemma fl_mono:
  assumes "0 \<le> x" and "x \<le> y"
  shows "fl x \<le> fl y"
proof (cases "x = 0")
  case True
  with assms show ?thesis by (simp add: fl_nonneg)
next
  case False
  with assms have pos: "0 < x" "0 < y" by auto
  let ?qx = "quantum x" and ?qy = "quantum y" and ?ey = "\<lfloor>log 2 \<bar>y\<bar>\<rfloor>"
  have fx: "fl x = of_int (rne (x / 2 powi ?qx)) * 2 powi ?qx"
    and fy: "fl y = of_int (rne (y / 2 powi ?qy)) * 2 powi ?qy"
    using pos by (simp_all add: fl_def)
  show ?thesis
  proof (cases "?qx = ?qy")
    case True
    with assms show ?thesis
      unfolding fx fy by (simp add: rne_mono divide_right_mono mult_right_mono)
  next
    case neq: False
    with quantum_mono [OF pos(1) assms(2)] have "?qx < ?qy" by simp
    then have ey: "?qy = ?ey - 52" and qx: "?qx \<le> ?ey" and lt: "\<lfloor>log 2 \<bar>x\<bar>\<rfloor> + 1 \<le> ?ey"
      unfolding quantum_def by linarith+
    have "x < 2 powi (\<lfloor>log 2 \<bar>x\<bar>\<rfloor> + 1)"
      using exponent_bounds(2) [of x] pos by simp
    also have "\<dots> \<le> 2 powi ?ey" using lt by (rule powi_mono2)
    finally have "x / 2 powi ?qx \<le> 2 powi ?ey / 2 powi ?qx"
      by (simp add: divide_right_mono)
    also have "\<dots> = of_int (2 ^ nat (?ey - ?qx))"
      using qx unfolding powi_split by (simp add: powi_nonneg_int)
    finally have "rne (x / 2 powi ?qx) \<le> 2 ^ nat (?ey - ?qx)" by (rule rne_le_int)
    then have "fl x \<le> of_int (2 ^ nat (?ey - ?qx)) * 2 powi ?qx"
      unfolding fx by (intro mult_right_mono) (simp_all only: of_int_le_iff, simp)
    also have "\<dots> = 2 powi ?ey"
      using qx by (simp add: powi_shift)
    finally have low: "fl x \<le> 2 powi ?ey" .
    have "2 powi ?ey \<le> y" using exponent_bounds(1) [of y] pos by simp
    then have "2 powi ?ey / 2 powi ?qy \<le> y / 2 powi ?qy"
      by (simp add: divide_right_mono)
    then have "of_int (2 ^ 52) \<le> y / 2 powi ?qy"
      unfolding powi_split by (simp add: ey)
    then have "2 ^ 52 \<le> rne (y / 2 powi ?qy)" by (rule rne_ge_int)
    then have "of_int (2 ^ 52) * 2 powi ?qy \<le> fl y"
      unfolding fy by (intro mult_right_mono) (simp_all only: of_int_le_iff, simp)
    moreover have "of_int (2 ^ 52) * 2 powi ?qy = (2 powi ?ey :: real)"
      unfolding ey by (simp add: power_int_diff)
    ultimately show ?thesis using low by linarith
  qed
qed

end
