(* ===== verification/RF_Domain.thy ===== *)
theory RF_Domain
  imports RF_Float64 "HOL-Library.List_Lexorder" "HOL-Library.Char_ord"
begin

text \<open>
  The value types and sentinel errors of \<open>internal/domain\<close>. Go strings are byte strings and
  \<open>string\<close> is a list of 8-bit characters; the order on strings that \<open>cmp.Compare\<close> uses is
  the bytewise lexicographic order, which \<open>List_Lexorder\<close> and \<open>Char_ord\<close> provide.
\<close>

section \<open>Coverage lines and money\<close>

type_synonym CoverageLine = string

definition CoverageLineAuto :: CoverageLine where "CoverageLineAuto = ''auto''"
definition CoverageLineHomeowners :: CoverageLine where "CoverageLineHomeowners = ''homeowners''"
definition CoverageLineUmbrella :: CoverageLine where "CoverageLineUmbrella = ''umbrella''"

lemmas coverage_line_defs =
  CoverageLineAuto_def CoverageLineHomeowners_def CoverageLineUmbrella_def

record Money =
  Amount :: int
  Currency :: string

section \<open>Requests and results\<close>

record QuoteRequest =
  req_RequestID :: string
  req_ClientID :: string
  req_CoverageLines :: "CoverageLine list"
  req_State :: string
  req_ClassCode :: string
  req_EstimatedPremium :: real
  req_Timeout :: duration

record QuoteResult =
  res_RequestID :: string
  res_CarrierID :: string
  res_Premium :: Money
  res_ExpiresAt :: gotime
  res_CarrierRef :: string
  res_Latency :: duration
  res_IsHedged :: bool

text \<open>A concrete request the witnesses of the development use.\<close>

definition quote_request_example :: QuoteRequest where
  "quote_request_example = \<lparr>req_RequestID = ''r1'', req_ClientID = ''acme'', req_CoverageLines = [''auto''],
     req_State = [], req_ClassCode = [], req_EstimatedPremium = 0, req_Timeout = 0\<rparr>"

section \<open>Carriers\<close>

record RateLimitConfig =
  TokensPerSecond :: real
  Burst :: int

record CarrierConfig =
  cc_TimeoutHint :: duration
  cc_OpenTimeout :: duration
  cc_FailureThreshold :: int
  cc_SuccessThreshold :: int
  cc_HedgeMultiplier :: real
  cc_EMAAlpha :: real
  cc_EMAWindowSize :: int
  cc_EMAWarmupObservations :: int
  cc_RateLimit :: RateLimitConfig
  cc_Priority :: int

record Carrier =
  c_ID :: string
  c_Code :: string
  c_Name :: string
  c_IsActive :: bool
  c_Capabilities :: "CoverageLine list"
  c_Config :: CarrierConfig

text \<open>Go's zero value of the configuration struct.\<close>

definition zero_config :: CarrierConfig where
  "zero_config = \<lparr>cc_TimeoutHint = 0, cc_OpenTimeout = 0, cc_FailureThreshold = 0,
     cc_SuccessThreshold = 0, cc_HedgeMultiplier = 0, cc_EMAAlpha = 0, cc_EMAWindowSize = 0,
     cc_EMAWarmupObservations = 0, cc_RateLimit = \<lparr>TokensPerSecond = 0, Burst = 0\<rparr>,
     cc_Priority = 0\<rparr>"

section \<open>Errors\<close>

text \<open>
  The sentinel errors, the two context errors, any other error value (\<open>OtherError\<close> with its
  message) and wrapping by \<open>fmt.Errorf("...: %w", err)\<close>. \<open>errors.Is\<close> walks the chain
  of wrapped errors.
\<close>

datatype go_error =
    ErrCircuitOpen
  | ErrRateLimitExceeded
  | ErrNoEligibleCarriers
  | ErrCarrierTimeout
  | ErrCarrierUnavailable
  | ErrInvalidRequest
  | ContextCanceled
  | ContextDeadlineExceeded
  | OtherError string
  | Wrapped string go_error

fun errors_is :: "go_error \<Rightarrow> go_error \<Rightarrow> bool" where
  "errors_is (Wrapped m e) t = (Wrapped m e = t \<or> errors_is e t)"
| "errors_is e t = (e = t)"

lemma errors_is_refl [simp]: "errors_is e e"
  by (cases e) simp_all

lemma errors_is_Wrapped: "errors_is e t \<Longrightarrow> errors_is (Wrapped m e) t"
  by simp

text \<open>An error matches at most one of the sentinels (a chain has one end).\<close>

fun root_error :: "go_error \<Rightarrow> go_error" where
  "root_error (Wrapped m e) = root_error e"
| "root_error e = e"

lemma errors_is_root:
  "(\<And>m e'. t \<noteq> Wrapped m e') \<Longrightarrow> errors_is e t \<longleftrightarrow> root_error e = t"
  by (induction e) auto

end
