(* ===== verification/RF_Ports.thy ===== *)
theory RF_Ports
  imports RF_Domain
begin

text \<open>
  The ports of \<open>internal/ports\<close> that more than one component uses: the circuit-breaker state
  numbers, and the metrics recorder. Recording a metric is a side effect, so the model keeps the
  calls a component makes, in order, in the world it runs in (\<open>w_metrics\<close>), beside the clock
  its \<open>time.Now()\<close> reads (\<open>w_now\<close>).
\<close>

section \<open>Circuit-breaker states\<close>

type_synonym CBState = "32 word"

definition CBStateClosed :: CBState where "CBStateClosed = 0"
definition CBStateOpen :: CBState where "CBStateOpen = 1"
definition CBStateHalfOpen :: CBState where "CBStateHalfOpen = 2"

lemmas cb_state_defs = CBStateClosed_def CBStateOpen_def CBStateHalfOpen_def

lemma cb_states_distinct [simp]:
  "CBStateClosed \<noteq> CBStateOpen" "CBStateOpen \<noteq> CBStateClosed"
  "CBStateClosed \<noteq> CBStateHalfOpen" "CBStateHalfOpen \<noteq> CBStateClosed"
  "CBStateOpen \<noteq> CBStateHalfOpen" "CBStateHalfOpen \<noteq> CBStateOpen"
  by (simp_all add: cb_state_defs)

definition is_cb_state :: "CBState \<Rightarrow> bool" where
  "is_cb_state s \<longleftrightarrow> s = CBStateClosed \<or> s = CBStateOpen \<or> s = CBStateHalfOpen"

section \<open>The metrics recorder\<close>

datatype metric_event =
    RecordQuote string duration string
  | RecordHedge string string
  | RecordCBTransition string CBState CBState
  | RecordRateLimitRejection string
  | RecordFanOutDuration duration
  | SetCBState string CBState
  | SetP95Latency string real

record world =
  w_now :: gotime
  w_metrics :: "metric_event list"

definition emit :: "metric_event \<Rightarrow> 'a world_scheme \<Rightarrow> 'a world_scheme" where
  "emit e w = w\<lparr>w_metrics := w_metrics w @ [e]\<rparr>"

lemma emit_simps [simp]:
  "w_now (emit e w) = w_now w"
  "w_metrics (emit e w) = w_metrics w @ [e]"
  "world.more (emit e w) = world.more w"
  by (simp_all add: emit_def)

text \<open>The gauge a dashboard shows for a carrier is the last value set for it.\<close>

fun cb_gauge :: "string \<Rightarrow> metric_event list \<Rightarrow> CBState option" where
  "cb_gauge c [] = None"
| "cb_gauge c (SetCBState c' s # es) =
     (case cb_gauge c es of None \<Rightarrow> (if c' = c then Some s else None) | Some s' \<Rightarrow> Some s')"
| "cb_gauge c (e # es) = cb_gauge c es"

lemma cb_gauge_append [simp]:
  "cb_gauge c (es @ fs) = (case cb_gauge c fs of None \<Rightarrow> cb_gauge c es | Some s \<Rightarrow> Some s)"
proof (induction es)
  case Nil
  show ?case by (simp split: option.splits)
next
  case (Cons e es)
  then show ?case by (cases e) (simp_all split: option.splits)
qed

text \<open>The transitions recorded for a carrier, oldest first.\<close>

fun cb_transitions :: "string \<Rightarrow> metric_event list \<Rightarrow> (CBState \<times> CBState) list" where
  "cb_transitions c [] = []"
| "cb_transitions c (RecordCBTransition c' s t # es) =
     (if c' = c then (s, t) # cb_transitions c es else cb_transitions c es)"
| "cb_transitions c (e # es) = cb_transitions c es"

lemma cb_transitions_append [simp]:
  "cb_transitions c (es @ fs) = cb_transitions c es @ cb_transitions c fs"
proof (induction es)
  case (Cons e es)
  then show ?case by (cases e) simp_all
qed simp

end
