(* ===== verification/RF_Breaker.thy ===== *)
theory RF_Breaker
  imports RF_Ports
begin

text \<open>
  The circuit breaker of \<open>internal/circuitbreaker/breaker.go\<close>, one call of \<open>Execute\<close> at a
  time: the atomics are fields of a record, the protected function is a function on the world, and
  a call returns its error, the breaker and the world after it. The interleaved version, one
  atomic operation per step, is in \<open>RF_Breaker_Concurrent\<close>; it uses the same record.
\<close>

section \<open>State and operations\<close>

definition defaultFailureThreshold :: int where "defaultFailureThreshold = 5"
definition defaultOpenTimeout :: duration where "defaultOpenTimeout = 30 * Second"

record cb_config =
  FailureThreshold :: int
  SuccessThreshold :: int
  OpenTimeout :: duration

record breaker =
  b_carrierID :: string
  b_cfg :: cb_config
  b_state :: "32 word"
  b_failures :: "32 word"
  b_successes :: "32 word"
  b_halfOpenInFlight :: "32 word"
  b_openedAt :: int

definition cb_defaults :: "cb_config \<Rightarrow> cb_config" where
  "cb_defaults cfg = cfg
     \<lparr>FailureThreshold := if FailureThreshold cfg \<le> 0 then defaultFailureThreshold
        else FailureThreshold cfg,
      SuccessThreshold := if SuccessThreshold cfg \<le> 0 then 1 else SuccessThreshold cfg,
      OpenTimeout := if OpenTimeout cfg \<le> 0 then defaultOpenTimeout else OpenTimeout cfg\<rparr>"

definition New_breaker ::
  "string \<Rightarrow> cb_config \<Rightarrow> 'a world_scheme \<Rightarrow> breaker \<times> 'a world_scheme" where
  "New_breaker carrierID cfg w =
     (\<lparr>b_carrierID = carrierID, b_cfg = cb_defaults cfg, b_state = CBStateClosed, b_failures = 0,
       b_successes = 0, b_halfOpenInFlight = 0, b_openedAt = 0\<rparr>,
      emit (SetCBState carrierID CBStateClosed) w)"

definition State :: "breaker \<Rightarrow> CBState" where
  "State b = b_state b"

text \<open>\<open>n >= int32(threshold)\<close>: a signed comparison after a conversion that keeps 32 bits.\<close>

definition reached :: "32 word \<Rightarrow> int \<Rightarrow> bool" where
  "reached n threshold \<longleftrightarrow> sint (word_of_int threshold :: 32 word) \<le> sint n"

text \<open>The two metrics calls that follow every successful state change.\<close>

definition emit_transition ::
  "string \<Rightarrow> CBState \<Rightarrow> CBState \<Rightarrow> 'a world_scheme \<Rightarrow> 'a world_scheme" where
  "emit_transition c from to w = emit (SetCBState c to) (emit (RecordCBTransition c from to) w)"

type_synonym 'a protected = "'a world_scheme \<Rightarrow> go_error option \<times> 'a world_scheme"

definition executeClosed ::
  "breaker \<Rightarrow> 'a protected \<Rightarrow> 'a world_scheme \<Rightarrow> go_error option \<times> breaker \<times> 'a world_scheme" where
  "executeClosed b fn w =
     (case fn w of
        (Some err, w1) \<Rightarrow>
          (let newFailures = b_failures b + 1; b1 = b\<lparr>b_failures := newFailures\<rparr> in
           if reached newFailures (FailureThreshold (b_cfg b)) \<and> b_state b1 = CBStateClosed
           then (Some err, b1\<lparr>b_state := CBStateOpen, b_openedAt := unix_nano (w_now w1)\<rparr>,
                 emit_transition (b_carrierID b) CBStateClosed CBStateOpen w1)
           else (Some err, b1, w1))
      | (None, w1) \<Rightarrow> (None, b\<lparr>b_failures := 0\<rparr>, w1))"

definition executeHalfOpen ::
  "breaker \<Rightarrow> 'a protected \<Rightarrow> 'a world_scheme \<Rightarrow> go_error option \<times> breaker \<times> 'a world_scheme" where
  "executeHalfOpen b fn w =
     (if b_halfOpenInFlight b \<noteq> 0 then (Some ErrCircuitOpen, b, w)
      else let b0 = b\<lparr>b_halfOpenInFlight := 1\<rparr> in
        (case fn w of
           (Some err, w1) \<Rightarrow>
             (if b_state b0 = CBStateHalfOpen
              then (Some err,
                    b0\<lparr>b_state := CBStateOpen, b_openedAt := unix_nano (w_now w1), b_successes := 0,
                       b_halfOpenInFlight := 0\<rparr>,
                    emit_transition (b_carrierID b) CBStateHalfOpen CBStateOpen w1)
              else (Some err, b0\<lparr>b_halfOpenInFlight := 0\<rparr>, w1))
         | (None, w1) \<Rightarrow>
             (let newSuccesses = b_successes b0 + 1; b1 = b0\<lparr>b_successes := newSuccesses\<rparr> in
              if reached newSuccesses (SuccessThreshold (b_cfg b)) \<and> b_state b1 = CBStateHalfOpen
              then (None,
                    b1\<lparr>b_state := CBStateClosed, b_failures := 0, b_successes := 0,
                       b_halfOpenInFlight := 0\<rparr>,
                    emit_transition (b_carrierID b) CBStateHalfOpen CBStateClosed w1)
              else (None, b1\<lparr>b_halfOpenInFlight := 0\<rparr>, w1))))"

text \<open>\<open>time.Since(time.Unix(0, openedAt)) < OpenTimeout\<close>\<close>

definition still_open :: "breaker \<Rightarrow> gotime \<Rightarrow> bool" where
  "still_open b t \<longleftrightarrow> time_sub t (b_openedAt b) < OpenTimeout (b_cfg b)"

definition Execute ::
  "breaker \<Rightarrow> 'a protected \<Rightarrow> 'a world_scheme \<Rightarrow> go_error option \<times> breaker \<times> 'a world_scheme" where
  "Execute b fn w =
     (if b_state b = CBStateOpen then
        (if still_open b (w_now w) then (Some ErrCircuitOpen, b, w)
         else executeHalfOpen (b\<lparr>b_state := CBStateHalfOpen\<rparr>) fn
                (emit_transition (b_carrierID b) CBStateOpen CBStateHalfOpen w))
      else if b_state b = CBStateHalfOpen then executeHalfOpen b fn w
      else executeClosed b fn w)"

lemmas breaker_ops [step_defs] =
  Execute_def executeHalfOpen_def executeClosed_def Let_def

section \<open>The invariant of a breaker between calls\<close>

definition cfg_ok :: "cb_config \<Rightarrow> bool" where
  "cfg_ok cfg \<longleftrightarrow> 0 < FailureThreshold cfg \<and> FailureThreshold cfg < 2 ^ 31 \<and>
     0 < SuccessThreshold cfg \<and> SuccessThreshold cfg < 2 ^ 31 \<and> 0 < OpenTimeout cfg"

definition breaker_inv :: "breaker \<Rightarrow> bool" where
  "breaker_inv b \<longleftrightarrow> cfg_ok (b_cfg b) \<and> is_cb_state (b_state b) \<and> b_halfOpenInFlight b = 0 \<and>
     (b_state b = CBStateClosed \<longrightarrow>
        0 \<le> sint (b_failures b) \<and> sint (b_failures b) < FailureThreshold (b_cfg b)) \<and>
     (b_state b = CBStateHalfOpen \<longrightarrow>
        0 \<le> sint (b_successes b) \<and> sint (b_successes b) < SuccessThreshold (b_cfg b)) \<and>
     (b_state b \<noteq> CBStateHalfOpen \<longrightarrow> b_successes b = 0)"

lemma sint_inc:
  fixes n :: "32 word"
  assumes "0 \<le> sint n" and "sint n < 2 ^ 31 - 1"
  shows "sint (n + 1) = sint n + 1"
proof -
  have "sint (n + 1) = signed_take_bit 31 (sint n + 1)"
    by (simp add: sint_word_ariths)
  also have "\<dots> = sint n + 1"
    using assms by (intro signed_take_bit_int_eq_self) simp_all
  finally show ?thesis .
qed

lemma reached_inc:
  fixes n :: "32 word"
  assumes "0 \<le> sint n" "sint n < t" "t < 2 ^ 31"
  shows "reached (n + 1) t \<longleftrightarrow> t \<le> sint n + 1"
  using assms sint_inc [of n]
  by (simp add: reached_def sint_word_of_int_take signed_take_bit_int_eq_self)

lemma cfg_ok_defaults:
  "FailureThreshold cfg < 2 ^ 31 \<Longrightarrow> SuccessThreshold cfg < 2 ^ 31 \<Longrightarrow> cfg_ok (cb_defaults cfg)"
  by (simp add: cfg_ok_def cb_defaults_def defaultFailureThreshold_def defaultOpenTimeout_def
      Second_def Millisecond_def)

lemma breaker_inv_New:
  assumes "FailureThreshold cfg < 2 ^ 31" "SuccessThreshold cfg < 2 ^ 31"
  shows "breaker_inv (fst (New_breaker c cfg w))"
  using cfg_ok_defaults [OF assms]
  by (simp add: breaker_inv_def New_breaker_def is_cb_state_def cfg_ok_def)

section \<open>The abstract circuit breaker\<close>

text \<open>
  What a three-state breaker promises, without words and atomics: \<open>ClosedS n\<close> has seen
  \<open>n\<close> failures in a row, \<open>OpenS t\<close> tripped at \<open>t\<close>, \<open>HalfOpenS k\<close> has
  seen \<open>k\<close> probe successes in a row. A call at time \<open>t0\<close> whose function, if it is
  run, returns at time \<open>t1\<close> gives the next state and whether the function is run.
\<close>

datatype cb_spec = ClosedS int | OpenS gotime | HalfOpenS int

fun spec_call :: "cb_config \<Rightarrow> gotime \<Rightarrow> gotime \<Rightarrow> bool \<Rightarrow> cb_spec \<Rightarrow> bool \<times> cb_spec" where
  "spec_call cfg t0 t1 ok (ClosedS n) =
     (True, if ok then ClosedS 0
            else if FailureThreshold cfg \<le> n + 1 then OpenS (unix_nano t1) else ClosedS (n + 1))"
| "spec_call cfg t0 t1 ok (HalfOpenS k) =
     (True, if \<not> ok then OpenS (unix_nano t1)
            else if SuccessThreshold cfg \<le> k + 1 then ClosedS 0 else HalfOpenS (k + 1))"
| "spec_call cfg t0 t1 ok (OpenS t) =
     (if time_sub t0 t < OpenTimeout cfg then (False, OpenS t)
      else (True, if \<not> ok then OpenS (unix_nano t1)
            else if SuccessThreshold cfg \<le> 1 then ClosedS 0 else HalfOpenS 1))"

definition abs_breaker :: "breaker \<Rightarrow> cb_spec" where
  "abs_breaker b =
     (if b_state b = CBStateOpen then OpenS (b_openedAt b)
      else if b_state b = CBStateHalfOpen then HalfOpenS (sint (b_successes b))
      else ClosedS (sint (b_failures b)))"

text \<open>Whether the function is run, and the world it is run in.\<close>

definition admits :: "breaker \<Rightarrow> 'a world_scheme \<Rightarrow> bool" where
  "admits b w \<longleftrightarrow> \<not> (b_state b = CBStateOpen \<and> still_open b (w_now w)) \<and>
     (b_state b = CBStateClosed \<or> b_halfOpenInFlight b = 0)"

definition call_world :: "breaker \<Rightarrow> 'a world_scheme \<Rightarrow> 'a world_scheme" where
  "call_world b w =
     (if b_state b = CBStateOpen
      then emit_transition (b_carrierID b) CBStateOpen CBStateHalfOpen w else w)"

lemma call_world_simps [simp]:
  "w_now (call_world b w) = w_now w" "world.more (call_world b w) = world.more w"
  by (simp_all add: call_world_def emit_transition_def)

text \<open>\<open>same_but_metrics\<close>: the breaker itself only adds its own two kinds of metrics to what the
  function did.\<close>

fun breaker_event :: "metric_event \<Rightarrow> bool" where
  "breaker_event (RecordCBTransition c s t) = True"
| "breaker_event (SetCBState c s) = True"
| "breaker_event e = False"

definition same_but_metrics :: "'a world_scheme \<Rightarrow> 'a world_scheme \<Rightarrow> bool" where
  "same_but_metrics w w' \<longleftrightarrow> (\<exists>es. w' = w\<lparr>w_metrics := w_metrics w @ es\<rparr> \<and> list_all breaker_event es)"

lemma same_but_metrics_refl [simp]: "same_but_metrics w w"
  unfolding same_but_metrics_def by (rule exI [of _ "[]"]) simp

lemma same_but_metrics_transition [simp]: "same_but_metrics w (emit_transition c s t w)"
  unfolding same_but_metrics_def emit_transition_def emit_def
  by (rule exI [of _ "[RecordCBTransition c s t, SetCBState c t]"]) simp

lemma Execute_rejected:
  assumes "\<not> admits b w" "is_cb_state (b_state b)" "b_halfOpenInFlight b = 0"
  shows "Execute b fn w = (Some ErrCircuitOpen, b, w)"
  using assms by (auto simp: admits_def Execute_def is_cb_state_def)

lemma Execute_closed:
  assumes "breaker_inv b" "b_state b = CBStateClosed" "fn w = (r, w1)"
  obtains b' w' where "Execute b fn w = (r, b', w')" "breaker_inv b'" "b_cfg b' = b_cfg b"
    "b_carrierID b' = b_carrierID b" "same_but_metrics w1 w'"
    "abs_breaker b' = (if r = None then ClosedS 0
       else if FailureThreshold (b_cfg b) \<le> sint (b_failures b) + 1
         then OpenS (unix_nano (w_now w1)) else ClosedS (sint (b_failures b) + 1))"
proof (cases r)
  case None
  with assms that show ?thesis
    by (simp add: step_defs breaker_inv_def cfg_ok_def abs_breaker_def)
next
  case (Some e)
  have "reached (b_failures b + 1) (FailureThreshold (b_cfg b)) \<longleftrightarrow>
      FailureThreshold (b_cfg b) \<le> sint (b_failures b) + 1"
    using assms by (intro reached_inc) (simp_all add: breaker_inv_def cfg_ok_def)
  moreover have "sint (b_failures b + 1) = sint (b_failures b) + 1"
    using assms by (intro sint_inc) (simp_all add: breaker_inv_def cfg_ok_def)
  ultimately show ?thesis
    using assms Some that
    by (cases "FailureThreshold (b_cfg b) \<le> sint (b_failures b) + 1")
      (simp_all add: step_defs breaker_inv_def abs_breaker_def is_cb_state_def)
qed

lemma executeHalfOpen_cases:
  assumes "cfg_ok (b_cfg b)" "b_halfOpenInFlight b = 0" "b_state b = CBStateHalfOpen"
    "0 \<le> sint (b_successes b)" "sint (b_successes b) < SuccessThreshold (b_cfg b)"
    "fn w = (r, w1)"
  obtains b' w' where "executeHalfOpen b fn w = (r, b', w')" "breaker_inv b'" "b_cfg b' = b_cfg b"
    "b_carrierID b' = b_carrierID b" "same_but_metrics w1 w'"
    "abs_breaker b' = (if r \<noteq> None then OpenS (unix_nano (w_now w1))
       else if SuccessThreshold (b_cfg b) \<le> sint (b_successes b) + 1
         then ClosedS 0 else HalfOpenS (sint (b_successes b) + 1))"
proof (cases r)
  case None
  have "reached (b_successes b + 1) (SuccessThreshold (b_cfg b)) \<longleftrightarrow>
      SuccessThreshold (b_cfg b) \<le> sint (b_successes b) + 1"
    using assms by (intro reached_inc) (simp_all add: cfg_ok_def)
  moreover have "sint (b_successes b + 1) = sint (b_successes b) + 1"
    using assms by (intro sint_inc) (simp_all add: cfg_ok_def)
  ultimately show ?thesis
    using assms None that
    by (cases "SuccessThreshold (b_cfg b) \<le> sint (b_successes b) + 1")
      (simp_all add: step_defs breaker_inv_def abs_breaker_def is_cb_state_def cfg_ok_def)
next
  case (Some e)
  with assms that show ?thesis
    by (simp add: step_defs breaker_inv_def abs_breaker_def is_cb_state_def)
qed

text \<open>The detailed breaker implements the abstract one.\<close>

lemma Execute_simulates:
  assumes inv: "breaker_inv b" and fn: "fn (call_world b w) = (r, w1)"
    and spec: "spec_call (b_cfg b) (w_now w) (w_now w1) (r = None) (abs_breaker b) = (run, a')"
  obtains b' w' where "Execute b fn w = (if run then r else Some ErrCircuitOpen, b', w')"
    "breaker_inv b'" "b_cfg b' = b_cfg b" "b_carrierID b' = b_carrierID b" "abs_breaker b' = a'"
    "run = admits b w" "same_but_metrics (if run then w1 else w) w'"
proof -
  from inv have "is_cb_state (b_state b)" by (simp add: breaker_inv_def)
  then consider (c) "b_state b = CBStateClosed" | (o) "b_state b = CBStateOpen"
    | (h) "b_state b = CBStateHalfOpen" by (auto simp: is_cb_state_def)
  then show ?thesis
  proof cases
    case c
    with fn have "fn w = (r, w1)" by (simp add: call_world_def)
    from Execute_closed [of b fn w r w1, OF inv c this] obtain b' w' where "Execute b fn w = (r, b', w')"
      "breaker_inv b'" "b_cfg b' = b_cfg b" "b_carrierID b' = b_carrierID b"
      "same_but_metrics w1 w'" "abs_breaker b' = (if r = None then ClosedS 0
         else if FailureThreshold (b_cfg b) \<le> sint (b_failures b) + 1
           then OpenS (unix_nano (w_now w1)) else ClosedS (sint (b_failures b) + 1))" .
    with c spec show ?thesis
      by (intro that [of b' w']) (auto simp: abs_breaker_def [of b] admits_def)
  next
    case h
    with fn have fw: "fn w = (r, w1)" by (simp add: call_world_def)
    from inv h have "cfg_ok (b_cfg b)" "b_halfOpenInFlight b = 0" "0 \<le> sint (b_successes b)"
      "sint (b_successes b) < SuccessThreshold (b_cfg b)" by (simp_all add: breaker_inv_def)
    from executeHalfOpen_cases [of b fn w r w1, OF this(1,2) h this(3,4) fw] obtain b' w' where
      "executeHalfOpen b fn w = (r, b', w')"
      "breaker_inv b'" "b_cfg b' = b_cfg b" "b_carrierID b' = b_carrierID b"
      "same_but_metrics w1 w'" "abs_breaker b' = (if r \<noteq> None then OpenS (unix_nano (w_now w1))
         else if SuccessThreshold (b_cfg b) \<le> sint (b_successes b) + 1
           then ClosedS 0 else HalfOpenS (sint (b_successes b) + 1))" .
    with h spec inv show ?thesis
      by (intro that [of b' w'])
        (auto simp: abs_breaker_def [of b] admits_def breaker_inv_def Execute_def)
  next
    case o
    show ?thesis
    proof (cases "still_open b (w_now w)")
      case True
      with o spec inv show ?thesis
        by (intro that [of b w])
          (auto simp: Execute_def abs_breaker_def admits_def still_open_def)
    next
      case False
      let ?b = "b\<lparr>b_state := CBStateHalfOpen\<rparr>" and ?w = "call_world b w"
      from inv o have pre: "cfg_ok (b_cfg ?b)" "b_halfOpenInFlight ?b = 0"
        "b_state ?b = CBStateHalfOpen" "0 \<le> sint (b_successes ?b)"
        "sint (b_successes ?b) < SuccessThreshold (b_cfg ?b)" and "b_successes b = 0"
        by (simp_all add: breaker_inv_def cfg_ok_def)
      from executeHalfOpen_cases [of ?b fn ?w r w1, OF pre fn] obtain b' w' where
        "executeHalfOpen ?b fn ?w = (r, b', w')"
        "breaker_inv b'" "b_cfg b' = b_cfg ?b" "b_carrierID b' = b_carrierID ?b"
        "same_but_metrics w1 w'" "abs_breaker b' = (if r \<noteq> None then OpenS (unix_nano (w_now w1))
           else if SuccessThreshold (b_cfg ?b) \<le> sint (b_successes ?b) + 1 then ClosedS 0
           else HalfOpenS (sint (b_successes ?b) + 1))" .
      moreover note \<open>b_successes b = 0\<close>
      ultimately show ?thesis
        using o spec inv False
        by (intro that [of b' w'])
          (auto simp: abs_breaker_def [of b] admits_def breaker_inv_def Execute_def
            call_world_def still_open_def)
    qed
  qed
qed

section \<open>Sequences of calls\<close>

text \<open>
  A call of a scripted run: the idle time before it, what the protected function returns if it is
  run, and how long it takes.
\<close>

type_synonym call = "duration \<times> go_error option \<times> duration"

definition advance :: "duration \<Rightarrow> 'a world_scheme \<Rightarrow> 'a world_scheme" where
  "advance d w = w\<lparr>w_now := w_now w + d\<rparr>"

lemma advance_simps [simp]:
  "w_now (advance d w) = w_now w + d" "w_metrics (advance d w) = w_metrics w"
  by (simp_all add: advance_def)

definition scripted :: "go_error option \<Rightarrow> duration \<Rightarrow> 'a protected" where
  "scripted r d w = (r, advance d w)"

fun run_calls ::
  "breaker \<Rightarrow> call list \<Rightarrow> 'a world_scheme \<Rightarrow> go_error option list \<times> breaker \<times> 'a world_scheme" where
  "run_calls b [] w = ([], b, w)"
| "run_calls b ((idle, r, d) # cs) w =
     (let (e, b1, w1) = Execute b (scripted r d) (advance idle w);
          (es, b2, w2) = run_calls b1 cs w1
      in (e # es, b2, w2))"

fun spec_run ::
  "cb_config \<Rightarrow> cb_spec \<Rightarrow> gotime \<Rightarrow> call list \<Rightarrow> go_error option list \<times> cb_spec \<times> gotime" where
  "spec_run cfg a t [] = ([], a, t)"
| "spec_run cfg a t ((idle, r, d) # cs) =
     (let (run, a1) = spec_call cfg (t + idle) (t + idle + d) (r = None) a;
          (es, a2, t2) = spec_run cfg a1 (if run then t + idle + d else t + idle) cs
      in ((if run then r else Some ErrCircuitOpen) # es, a2, t2))"

lemma same_but_metrics_now: "same_but_metrics w w' \<Longrightarrow> w_now w' = w_now w"
  by (auto simp: same_but_metrics_def)

lemma same_but_metrics_extends:
  "same_but_metrics w w' \<Longrightarrow> \<exists>es. w_metrics w' = w_metrics w @ es"
  by (auto simp: same_but_metrics_def)

lemma run_calls_simulates:
  "breaker_inv b \<Longrightarrow> run_calls b cs w = (es, b', w') \<Longrightarrow>
   breaker_inv b' \<and> b_cfg b' = b_cfg b \<and>
   spec_run (b_cfg b) (abs_breaker b) (w_now w) cs = (es, abs_breaker b', w_now w')"
proof (induction cs arbitrary: b w es)
  case Nil
  then show ?case by simp
next
  case (Cons c cs)
  obtain idle r d where c: "c = (idle, r, d)" by (cases c)
  let ?w = "advance idle w"
  let ?w1 = "advance d (call_world b ?w)"
  obtain run a1 where spec:
    "spec_call (b_cfg b) (w_now w + idle) (w_now w + idle + d) (r = None) (abs_breaker b) = (run, a1)"
    by (cases "spec_call (b_cfg b) (w_now w + idle) (w_now w + idle + d) (r = None) (abs_breaker b)")
  have "scripted r d (call_world b ?w) = (r, ?w1)" by (simp add: scripted_def)
  moreover from spec have "spec_call (b_cfg b) (w_now ?w) (w_now ?w1) (r = None) (abs_breaker b) = (run, a1)"
    by simp
  ultimately obtain b1 w1 where e: "Execute b (scripted r d) ?w = (if run then r else Some ErrCircuitOpen, b1, w1)"
    and b1: "breaker_inv b1" "b_cfg b1 = b_cfg b" "abs_breaker b1 = a1"
    and w1: "same_but_metrics (if run then ?w1 else ?w) w1"
    using Execute_simulates [OF Cons.prems(1), of "scripted r d" ?w r ?w1 run a1] by metis
  from w1 have now: "w_now w1 = (if run then w_now w + idle + d else w_now w + idle)"
    by (auto dest: same_but_metrics_now split: if_splits)
  obtain es1 where run1: "run_calls b1 cs w1 = (es1, b', w')"
    and es: "es = (if run then r else Some ErrCircuitOpen) # es1"
    using Cons.prems(2) e by (auto simp: c split: prod.splits)
  from Cons.IH [OF b1(1) run1] b1 spec es now show ?case
    by (simp add: c)
qed

section \<open>Consecutive failures and recovery of the abstract breaker\<close>

definition outcomes :: "call list \<Rightarrow> go_error option list" where
  "outcomes cs = map (\<lambda>(idle, r, d). r) cs"

definition trailing_failures :: "go_error option list \<Rightarrow> nat" where
  "trailing_failures rs = length (takeWhile (\<lambda>r. r \<noteq> None) (rev rs))"

fun failure_count :: "int \<Rightarrow> go_error option list \<Rightarrow> int" where
  "failure_count n [] = n"
| "failure_count n (r # rs) = failure_count (if r = None then 0 else n + 1) rs"

lemma failure_count_snoc:
  "failure_count n (rs @ [r]) = (if r = None then 0 else failure_count n rs + 1)"
  by (induction n rs rule: failure_count.induct) auto

lemma failure_count_trailing: "failure_count 0 rs = int (trailing_failures rs)"
  by (induction rs rule: rev_induct) (auto simp: failure_count_snoc trailing_failures_def)

lemma spec_run_closed:
  assumes "\<And>p. strict_prefix p (outcomes cs) \<Longrightarrow> failure_count n p < FailureThreshold cfg"
    and "spec_run cfg (ClosedS n) t cs = (es, a, t')" and "n < FailureThreshold cfg"
    and "0 < FailureThreshold cfg"
  shows "es = outcomes cs \<and>
    (if failure_count n (outcomes cs) < FailureThreshold cfg
     then a = ClosedS (failure_count n (outcomes cs)) else \<exists>t0. a = OpenS t0)"
  using assms
proof (induction cs arbitrary: n t es)
  case Nil
  then show ?case by (simp add: outcomes_def)
next
  case (Cons c cs)
  obtain idle r d where c: "c = (idle, r, d)" by (cases c)
  let ?n1 = "if r = None then 0 else n + 1"
  have out: "outcomes (c # cs) = r # outcomes cs" by (simp add: outcomes_def c)
  show ?case
  proof (cases "?n1 < FailureThreshold cfg")
    case True
    with Cons.prems(2) obtain es1 where
      run: "spec_run cfg (ClosedS ?n1) (t + idle + d) cs = (es1, a, t')" and es: "es = r # es1"
      by (auto simp: c split: prod.splits if_splits)
    have "failure_count ?n1 p < FailureThreshold cfg" if "strict_prefix p (outcomes cs)" for p
      using Cons.prems(1) [of "r # p"] that by (simp add: out)
    from Cons.IH [OF this run True Cons.prems(4)] show ?thesis by (simp add: out es)
  next
    case False
    have "cs = []"
    proof (rule ccontr)
      assume "cs \<noteq> []"
      then have "strict_prefix [r] (outcomes (c # cs))"
        unfolding out by (cases cs) (auto simp: outcomes_def strict_prefix_def prefix_def)
      from Cons.prems(1) [OF this] False show False by simp
    qed
    with False Cons.prems(2-4) show ?thesis
      by (auto simp: c outcomes_def split: if_splits)
  qed
qed

lemma spec_run_half_open:
  assumes "\<forall>r\<in>set (outcomes cs). r = None" and "0 \<le> k"
    and "k + int (length cs) = SuccessThreshold cfg" and "cs \<noteq> []"
  shows "\<exists>t'. spec_run cfg (HalfOpenS k) t cs = (outcomes cs, ClosedS 0, t')"
  using assms
proof (induction cs arbitrary: k t)
  case (Cons c cs)
  obtain idle r d where c: "c = (idle, r, d)" by (cases c)
  from Cons.prems have r: "r = None" by (simp add: c outcomes_def)
  show ?case
  proof (cases "cs = []")
    case True
    with Cons.prems r show ?thesis by (simp add: c outcomes_def)
  next
    case False
    then have "1 \<le> int (length cs)" by (cases cs) simp_all
    with Cons.prems(3) have k1: "k + 1 < SuccessThreshold cfg" by simp
    have "\<exists>t'. spec_run cfg (HalfOpenS (k + 1)) (t + idle + d) cs = (outcomes cs, ClosedS 0, t')"
      using Cons.prems False by (intro Cons.IH) (simp_all add: outcomes_def)
    with k1 r show ?thesis by (auto simp: c outcomes_def)
  qed
qed simp

lemma spec_run_recovers:
  assumes "\<forall>r\<in>set (outcomes cs). r = None" and "int (length cs) = SuccessThreshold cfg"
    and "cs = (idle, r, d) # cs'" and "OpenTimeout cfg \<le> time_sub (t + idle) opened"
  shows "\<exists>t'. spec_run cfg (OpenS opened) t cs = (outcomes cs, ClosedS 0, t')"
proof (cases "cs' = []")
  case True
  with assms show ?thesis by (simp add: outcomes_def)
next
  case False
  then have "1 \<le> int (length cs')" by (cases cs') simp_all
  with assms(2,3) have "1 < SuccessThreshold cfg" by simp
  moreover have "\<exists>t'. spec_run cfg (HalfOpenS 1) (t + idle + d) cs' = (outcomes cs', ClosedS 0, t')"
    using assms False by (intro spec_run_half_open) (auto simp: outcomes_def)
  ultimately show ?thesis using assms by (auto simp: outcomes_def)
qed

section \<open>The metrics follow the state\<close>

definition cb_edge :: "CBState \<Rightarrow> CBState \<Rightarrow> bool" where
  "cb_edge s t \<longleftrightarrow> (s, t) \<in> {(CBStateClosed, CBStateOpen), (CBStateOpen, CBStateHalfOpen),
     (CBStateHalfOpen, CBStateClosed), (CBStateHalfOpen, CBStateOpen)}"

fun cb_path :: "CBState \<Rightarrow> (CBState \<times> CBState) list \<Rightarrow> CBState \<Rightarrow> bool" where
  "cb_path s [] t \<longleftrightarrow> s = t"
| "cb_path s ((a, b) # es) t \<longleftrightarrow> a = s \<and> cb_edge a b \<and> cb_path b es t"

lemma cb_path_append: "cb_path s (es @ fs) t \<longleftrightarrow> (\<exists>u. cb_path s es u \<and> cb_path u fs t)"
  by (induction s es t rule: cb_path.induct) auto

definition log_ok :: "breaker \<Rightarrow> 'a world_scheme \<Rightarrow> bool" where
  "log_ok b w \<longleftrightarrow> cb_gauge (b_carrierID b) (w_metrics w) = Some (b_state b) \<and>
     cb_path CBStateClosed (cb_transitions (b_carrierID b) (w_metrics w)) (b_state b)"

text \<open>A protected function that does not itself record breaker metrics of this carrier.\<close>

definition quiet :: "string \<Rightarrow> 'a protected \<Rightarrow> bool" where
  "quiet c fn \<longleftrightarrow> (\<forall>w. cb_gauge c (w_metrics (snd (fn w))) = cb_gauge c (w_metrics w) \<and>
     cb_transitions c (w_metrics (snd (fn w))) = cb_transitions c (w_metrics w))"

lemma quietD:
  assumes "quiet c fn" "fn w = (r, w1)"
  shows "cb_gauge c (w_metrics w1) = cb_gauge c (w_metrics w)"
    and "cb_transitions c (w_metrics w1) = cb_transitions c (w_metrics w)"
  using assms by (auto simp: quiet_def dest: spec [of _ w])

lemma quiet_scripted: "quiet c (scripted r d)"
  by (simp add: quiet_def scripted_def)

lemma log_ok_transition:
  assumes "cb_gauge c (w_metrics w) = Some s" "cb_path CBStateClosed (cb_transitions c (w_metrics w)) s"
    "cb_edge s t"
  shows "cb_gauge c (w_metrics (emit_transition c s t w)) = Some t"
    and "cb_path CBStateClosed (cb_transitions c (w_metrics (emit_transition c s t w))) t"
  using assms by (auto simp: emit_transition_def cb_path_append)

lemma executeHalfOpen_log:
  assumes "log_ok b w" "b_state b = CBStateHalfOpen" "quiet (b_carrierID b) fn"
    "executeHalfOpen b fn w = (r, b', w')"
  shows "log_ok b' w'"
proof -
  obtain r1 w1 where fn: "fn w = (r1, w1)" by fastforce
  note q = quietD [OF assms(3) fn]
  have e: "cb_edge CBStateHalfOpen CBStateOpen" "cb_edge CBStateHalfOpen CBStateClosed"
    by (simp_all add: cb_edge_def)
  from assms fn q show ?thesis
    by (auto simp: executeHalfOpen_def log_ok_def Let_def log_ok_transition e
        split: option.splits if_splits)
qed

lemma Execute_log:
  assumes "breaker_inv b" "log_ok b w" "quiet (b_carrierID b) fn" "Execute b fn w = (r, b', w')"
  shows "log_ok b' w'"
proof -
  obtain r1 w1 where fn: "fn w = (r1, w1)" by fastforce
  note q = quietD [OF assms(3) fn]
  have e: "cb_edge CBStateClosed CBStateOpen" "cb_edge CBStateOpen CBStateHalfOpen"
    by (simp_all add: cb_edge_def)
  from assms(1) consider (c) "b_state b = CBStateClosed" | (o) "b_state b = CBStateOpen"
    | (h) "b_state b = CBStateHalfOpen" by (auto simp: breaker_inv_def is_cb_state_def)
  then show ?thesis
  proof cases
    case c
    with assms fn q show ?thesis
      by (auto simp: Execute_def executeClosed_def log_ok_def Let_def log_ok_transition e
          split: option.splits if_splits)
  next
    case h
    with assms show ?thesis
      by (auto simp: Execute_def intro: executeHalfOpen_log)
  next
    case o
    show ?thesis
    proof (cases "still_open b (w_now w)")
      case True
      with o assms show ?thesis by (simp add: Execute_def)
    next
      case False
      let ?b = "b\<lparr>b_state := CBStateHalfOpen\<rparr>"
        and ?w = "emit_transition (b_carrierID b) CBStateOpen CBStateHalfOpen w"
      have "log_ok ?b ?w"
        using assms(2) o by (simp add: log_ok_def log_ok_transition e)
      moreover have "executeHalfOpen ?b fn ?w = (r, b', w')"
        using o False assms(4) by (simp add: Execute_def)
      ultimately show ?thesis
        using assms(3) executeHalfOpen_log [of ?b ?w fn r b' w'] by simp
    qed
  qed
qed

lemma execute_parts_id:
  "b_carrierID (fst (snd (executeHalfOpen b fn w))) = b_carrierID b"
  "b_carrierID (fst (snd (executeClosed b fn w))) = b_carrierID b"
  by (simp_all add: executeHalfOpen_def executeClosed_def Let_def split: prod.split option.split)

lemma Execute_carrierID: "b_carrierID (fst (snd (Execute b fn w))) = b_carrierID b"
  by (simp add: Execute_def execute_parts_id)

lemma run_calls_log:
  "breaker_inv b \<Longrightarrow> log_ok b w \<Longrightarrow> run_calls b cs w = (es, b', w') \<Longrightarrow> log_ok b' w'"
proof (induction cs arbitrary: b w es)
  case (Cons c cs)
  obtain idle r d where c: "c = (idle, r, d)" by (cases c)
  obtain e b1 w1 where e: "Execute b (scripted r d) (advance idle w) = (e, b1, w1)"
    by (metis prod_cases3)
  have "run_calls b [c] (advance 0 w) = ([e], b1, w1)"
    using e by (simp add: c advance_def)
  then have "breaker_inv b1" using run_calls_simulates [OF Cons.prems(1)] by blast
  moreover have "log_ok b1 w1"
    using Execute_log [OF Cons.prems(1) _ _ e] Cons.prems(2) by (simp add: log_ok_def quiet_scripted)
  ultimately show ?case
    using Cons.IH [of b1 w1] Cons.prems(3) e by (auto simp: c split: prod.splits)
qed simp

lemma run_calls_carrierID: "run_calls b cs w = (es, b', w') \<Longrightarrow> b_carrierID b' = b_carrierID b"
proof (induction cs arbitrary: b w es)
  case (Cons c cs)
  obtain idle r d where c: "c = (idle, r, d)" by (cases c)
  obtain e b1 w1 where e: "Execute b (scripted r d) (advance idle w) = (e, b1, w1)"
    by (metis prod_cases3)
  with Execute_carrierID [of b "scripted r d" "advance idle w"] Cons.IH [of b1 w1] Cons.prems
  show ?case by (auto simp: c split: prod.splits)
qed simp

section \<open>The port the orchestrator uses\<close>

text \<open>
  The interface of the compile-time assertion at the end of \<open>breaker.go\<close>: \<open>Execute\<close> and
  \<open>State\<close>. Its laws: a call either runs the protected function exactly once and hands its
  error back, with nothing but metrics added to the world the function left, or it is refused with
  \<open>ErrCircuitOpen\<close> and changes nothing; a breaker that is not open accepts.
\<close>

locale guarded_call =
  fixes inv :: "'b \<Rightarrow> bool"
    and execute :: "'b \<Rightarrow> ('w world_scheme \<Rightarrow> go_error option \<times> 'w world_scheme) \<Rightarrow>
      'w world_scheme \<Rightarrow> go_error option \<times> 'b \<times> 'w world_scheme"
    and state :: "'b \<Rightarrow> CBState"
    and accepts :: "'b \<Rightarrow> 'w world_scheme \<Rightarrow> bool"
    and enter :: "'b \<Rightarrow> 'w world_scheme \<Rightarrow> 'w world_scheme"
  assumes accepted: "inv b \<Longrightarrow> accepts b w \<Longrightarrow> \<exists>b' w'. execute b fn w = (fst (fn (enter b w)), b', w') \<and>
      inv b' \<and> same_but_metrics (snd (fn (enter b w))) w'"
    and refused: "inv b \<Longrightarrow> \<not> accepts b w \<Longrightarrow> execute b fn w = (Some ErrCircuitOpen, b, w)"
    and not_open: "inv b \<Longrightarrow> state b \<noteq> CBStateOpen \<Longrightarrow> accepts b w"
    and enter_same: "same_but_metrics w (enter b w)"
begin

lemma run_or_refuse:
  assumes "inv b" and "execute b fn w = (r, b', w')"
  shows "accepts b w \<and> r = fst (fn (enter b w)) \<and> inv b' \<and> same_but_metrics (snd (fn (enter b w))) w' \<or>
    \<not> accepts b w \<and> r = Some ErrCircuitOpen \<and> b' = b \<and> w' = w"
  using accepted [of b w fn] refused [of b w fn] assms by (cases "accepts b w") auto

lemma inv_kept: "inv b \<Longrightarrow> execute b fn w = (r, b', w') \<Longrightarrow> inv b'"
  using run_or_refuse [of b fn w r b' w'] by blast

lemma success_means_ran:
  "inv b \<Longrightarrow> execute b fn w = (None, b', w') \<Longrightarrow>
   accepts b w \<and> fst (fn (enter b w)) = None \<and> same_but_metrics (snd (fn (enter b w))) w'"
  using run_or_refuse [of b fn w None b' w'] by auto

lemma other_error_is_the_functions:
  "inv b \<Longrightarrow> execute b fn w = (Some e, b', w') \<Longrightarrow> e \<noteq> ErrCircuitOpen \<Longrightarrow>
   fst (fn (enter b w)) = Some e"
  using run_or_refuse [of b fn w "Some e" b' w'] by auto

lemma closed_never_refuses:
  "inv b \<Longrightarrow> state b \<noteq> CBStateOpen \<Longrightarrow> execute b fn w = (r, b', w') \<Longrightarrow> r = fst (fn (enter b w))"
  using run_or_refuse [of b fn w r b' w'] not_open [of b w] by auto

end

lemma Execute_guarded:
  assumes "breaker_inv b" "admits b w"
  shows "\<exists>b' w'. Execute b fn w = (fst (fn (call_world b w)), b', w') \<and> breaker_inv b' \<and>
    same_but_metrics (snd (fn (call_world b w))) w'"
proof -
  obtain r w1 where fn: "fn (call_world b w) = (r, w1)" by fastforce
  obtain run a' where sp:
    "spec_call (b_cfg b) (w_now w) (w_now w1) (r = None) (abs_breaker b) = (run, a')"
    by fastforce
  obtain b' w' where "Execute b fn w = (if run then r else Some ErrCircuitOpen, b', w')"
    "breaker_inv b'" "b_cfg b' = b_cfg b" "b_carrierID b' = b_carrierID b" "abs_breaker b' = a'"
    "run = admits b w" "same_but_metrics (if run then w1 else w) w'"
    by (rule Execute_simulates [of b fn w r w1 run, OF assms(1) fn sp])
  with assms(2) fn show ?thesis by simp
qed

lemma same_but_metrics_call_world: "same_but_metrics w (call_world b w)"
  by (simp add: call_world_def)

interpretation cb: guarded_call breaker_inv Execute State admits call_world
proof unfold_locales
  fix b and w :: "'a world_scheme" and fn :: "'a protected"
  show "breaker_inv b \<Longrightarrow> admits b w \<Longrightarrow> \<exists>b' w'. Execute b fn w = (fst (fn (call_world b w)), b', w') \<and>
      breaker_inv b' \<and> same_but_metrics (snd (fn (call_world b w))) w'"
    by (rule Execute_guarded)
  show "breaker_inv b \<Longrightarrow> \<not> admits b w \<Longrightarrow> Execute b fn w = (Some ErrCircuitOpen, b, w)"
    by (rule Execute_rejected) (simp_all add: breaker_inv_def)
qed (auto simp: State_def breaker_inv_def admits_def same_but_metrics_call_world)

section \<open>Properties\<close>

definition world0 :: world where
  "world0 = \<lparr>w_now = 0, w_metrics = []\<rparr>"

definition cfg_example :: cb_config where
  "cfg_example = \<lparr>FailureThreshold = 2, SuccessThreshold = 2, OpenTimeout = 100\<rparr>"

definition open_example :: breaker where
  "open_example = \<lparr>b_carrierID = ''alpha'', b_cfg = cfg_example, b_state = CBStateOpen,
     b_failures = 2, b_successes = 0, b_halfOpenInFlight = 0, b_openedAt = 10\<rparr>"

lemmas breaker_example_defs = world0_def cfg_example_def open_example_def

lemma open_example_inv: "breaker_inv open_example"
  by (simp add: breaker_inv_def breaker_example_defs cfg_ok_def is_cb_state_def)

text \<open>C1. The breaker implements the abstract three-state breaker: for any protected function,
  one call of \<open>Execute\<close> runs the function exactly when the abstract breaker says so and then
  returns the function's error, returns \<open>ErrCircuitOpen\<close> and leaves the world alone
  otherwise, reaches the abstract next state, and keeps the invariant (no failure count at or above
  the threshold in Closed, no stale success count, no probe left in flight).\<close>

theorem breaker_implements_spec:
  assumes "breaker_inv b" and "fn (call_world b w) = (r, w1)"
    and "spec_call (b_cfg b) (w_now w) (w_now w1) (r = None) (abs_breaker b) = (run, a')"
  shows "\<exists>b' w'. Execute b fn w = (if run then r else Some ErrCircuitOpen, b', w') \<and>
    breaker_inv b' \<and> abs_breaker b' = a' \<and> same_but_metrics (if run then w1 else w) w'"
  using Execute_simulates [of b fn w r w1 run a', OF assms] by metis

theorem breaker_implements_spec_witness:
  "\<exists>b' w'. Execute open_example (scripted None 7) (advance 200 world0) = (None, b', w') \<and>
     breaker_inv b' \<and> abs_breaker b' = HalfOpenS 1 \<and>
     same_but_metrics (advance 7 (call_world open_example (advance 200 world0))) w'"
  using breaker_implements_spec [of open_example "scripted None 7" "advance 200 world0" None
      "advance 7 (call_world open_example (advance 200 world0))" True "HalfOpenS 1",
      OF open_example_inv]
  by (simp add: scripted_def abs_breaker_def breaker_example_defs time_sub_def int64_min_def
      int64_max_def)

text \<open>C29. Starting from a new breaker, a run in which no shorter prefix of the outcomes ends in
  \<open>FailureThreshold\<close> consecutive failures calls the function every time, and ends Open exactly
  when its last \<open>FailureThreshold\<close> outcomes are failures: a success in between starts the
  count again, and one failure fewer keeps the circuit Closed.\<close>

theorem breaker_trips_exactly_at_threshold:
  assumes "FailureThreshold cfg < 2 ^ 31" and "SuccessThreshold cfg < 2 ^ 31"
    and "New_breaker c cfg w0 = (b, w)" and "run_calls b cs w = (es, b', w')"
    and "\<And>p. strict_prefix p (outcomes cs) \<Longrightarrow>
      int (trailing_failures p) < FailureThreshold (cb_defaults cfg)"
  shows "es = outcomes cs \<and>
    State b' = (if int (trailing_failures (outcomes cs)) < FailureThreshold (cb_defaults cfg)
      then CBStateClosed else CBStateOpen)"
proof -
  have inv: "breaker_inv b"
    using breaker_inv_New [of cfg c w0] assms by simp
  have b: "b_cfg b = cb_defaults cfg" "abs_breaker b = ClosedS 0"
    using assms(3) by (auto simp: New_breaker_def abs_breaker_def)
  have cfg: "0 < FailureThreshold (cb_defaults cfg)"
    using cfg_ok_defaults [OF assms(1,2)] by (simp add: cfg_ok_def)
  from run_calls_simulates [OF inv assms(4)] b
  have "breaker_inv b'" and run: "spec_run (cb_defaults cfg) (ClosedS 0) (w_now w) cs = (es, abs_breaker b', w_now w')"
    by simp_all
  from spec_run_closed [OF _ run cfg cfg] assms(5) show ?thesis
    by (auto simp: failure_count_trailing abs_breaker_def State_def split: if_splits)
      (use \<open>breaker_inv b'\<close> in \<open>auto simp: breaker_inv_def is_cb_state_def\<close>)
qed

lemma strict_prefix_Cons_cases:
  "strict_prefix p (x # xs) \<longleftrightarrow> p = [] \<or> (\<exists>q. p = x # q \<and> strict_prefix q xs)"
  by (cases p) auto

theorem breaker_trips_exactly_at_threshold_witness:
  "\<exists>es b' w'. run_calls (fst (New_breaker ''alpha'' cfg_example world0))
      [(0, Some ErrCarrierUnavailable, 1), (0, None, 1), (0, Some ErrCarrierUnavailable, 1),
       (0, Some ErrCarrierUnavailable, 1)] (snd (New_breaker ''alpha'' cfg_example world0)) =
      (es, b', w') \<and> State b' = CBStateOpen"
proof -
  let ?cs = "[(0, Some ErrCarrierUnavailable, 1), (0, None, 1), (0, Some ErrCarrierUnavailable, 1),
       (0, Some ErrCarrierUnavailable, 1)] :: call list"
  obtain b w where new: "New_breaker ''alpha'' cfg_example world0 = (b, w)" by fastforce
  obtain es b' w' where run: "run_calls b ?cs w = (es, b', w')" by (metis prod_cases3)
  have "int (trailing_failures p) < FailureThreshold (cb_defaults cfg_example)"
    if "strict_prefix p (outcomes ?cs)" for p
    using that
    by (auto simp: outcomes_def strict_prefix_Cons_cases trailing_failures_def cb_defaults_def
        cfg_example_def)
  then have "State b' = CBStateOpen"
    using breaker_trips_exactly_at_threshold [OF _ _ new run]
    by (simp add: cfg_example_def outcomes_def trailing_failures_def cb_defaults_def)
  with new run show ?thesis by auto
qed

text \<open>While an Open breaker has not been open for \<open>OpenTimeout\<close>, no call of a run reaches
  the protected function: every call returns \<open>ErrCircuitOpen\<close>, the breaker keeps all its fields
  and the world changes only by the time that passes.\<close>

theorem open_rejects_until_timeout:
  assumes "State b = CBStateOpen" and "\<forall>c\<in>set cs. 0 \<le> fst c"
    and "time_sub (w_now w + sum_list (map fst cs)) (b_openedAt b) < OpenTimeout (b_cfg b)"
  shows "run_calls b cs w =
    (replicate (length cs) (Some ErrCircuitOpen), b, advance (sum_list (map fst cs)) w)"
  using assms
proof (induction cs arbitrary: w)
  case Nil
  then show ?case by (simp add: advance_def)
next
  case (Cons c cs)
  obtain idle r d where c: "c = (idle, r, d)" by (cases c)
  have nonneg: "0 \<le> sum_list (map fst cs)"
    using Cons.prems(2) by (intro sum_list_nonneg) auto
  have "time_sub (w_now w + idle) (b_openedAt b) \<le>
      time_sub (w_now w + sum_list (map fst (c # cs))) (b_openedAt b)"
    using nonneg by (intro time_sub_mono) (simp add: c)
  with Cons.prems(1,3) have "Execute b (scripted r d) (advance idle w) = (Some ErrCircuitOpen, b, advance idle w)"
    by (simp add: Execute_def State_def still_open_def)
  moreover have "run_calls b cs (advance idle w) =
      (replicate (length cs) (Some ErrCircuitOpen), b, advance (sum_list (map fst cs)) (advance idle w))"
    using Cons.prems by (intro Cons.IH) (simp_all add: c add.assoc)
  ultimately show ?case by (simp add: c advance_def add.assoc)
qed

theorem open_rejects_until_timeout_witness:
  "run_calls open_example [(20, None, 5), (30, Some ErrCarrierUnavailable, 5)] world0 =
    ([Some ErrCircuitOpen, Some ErrCircuitOpen], open_example, advance 50 world0)"
  using open_rejects_until_timeout
    [of open_example "[(20, None, 5), (30, Some ErrCarrierUnavailable, 5)]" world0]
  by (simp add: State_def breaker_example_defs time_sub_def int64_min_def int64_max_def)

text \<open>C30. Recovery: once \<open>OpenTimeout\<close> has passed, \<open>SuccessThreshold\<close> successful calls in a
  row are all let through and close the circuit with its failure count back at zero.\<close>

theorem breaker_recovers:
  assumes "breaker_inv b" and "State b = CBStateOpen"
    and "OpenTimeout (b_cfg b) \<le> time_sub (w_now w + idle) (b_openedAt b)"
    and "\<forall>r\<in>set (outcomes ((idle, None, d) # cs)). r = None"
    and "int (Suc (length cs)) = SuccessThreshold (b_cfg b)"
    and "run_calls b ((idle, None, d) # cs) w = (es, b', w')"
  shows "State b' = CBStateClosed \<and> sint (b_failures b') = 0 \<and> es = replicate (Suc (length cs)) None"
proof -
  let ?cs = "(idle, None, d) # cs"
  have "abs_breaker b = OpenS (b_openedAt b)"
    using assms(2) by (simp add: abs_breaker_def State_def)
  with run_calls_simulates [OF assms(1,6)] have inv': "breaker_inv b'"
    and run: "spec_run (b_cfg b) (OpenS (b_openedAt b)) (w_now w) ?cs = (es, abs_breaker b', w_now w')"
    by simp_all
  with spec_run_recovers [of ?cs "b_cfg b" idle None d cs "w_now w" "b_openedAt b"] assms(3-5)
  have "es = outcomes ?cs" "abs_breaker b' = ClosedS 0" by auto
  moreover have "outcomes ?cs = replicate (Suc (length cs)) None"
    using assms(4) by (intro replicate_eqI) (auto simp: outcomes_def)
  ultimately show ?thesis
    using inv' by (auto simp: abs_breaker_def State_def breaker_inv_def is_cb_state_def split: if_splits)
qed

theorem breaker_recovers_witness:
  "\<exists>es b' w'. run_calls open_example [(110, None, 3), (0, None, 3)] world0 = (es, b', w') \<and>
     State b' = CBStateClosed \<and> es = [None, None]"
proof -
  obtain es b' w' where run: "run_calls open_example [(110, None, 3), (0, None, 3)] world0 = (es, b', w')"
    by (metis prod_cases3)
  have "State b' = CBStateClosed \<and> es = replicate (Suc (length [(0 :: int, None :: go_error option, 3 :: int)])) None"
    using breaker_recovers [OF open_example_inv _ _ _ _ run]
    by (simp add: State_def breaker_example_defs outcomes_def time_sub_def int64_min_def int64_max_def)
  with run show ?thesis by simp
qed

text \<open>The metrics tell the truth about a breaker used by one caller at a time: after any run of
  calls from a new breaker, the gauge of its carrier shows its state, and the recorded transitions
  form a path from Closed to that state along the four legal edges Closed-Open, Open-HalfOpen,
  HalfOpen-Closed and HalfOpen-Open.\<close>

theorem breaker_metrics_agree:
  assumes "FailureThreshold cfg < 2 ^ 31" and "SuccessThreshold cfg < 2 ^ 31"
    and "cb_transitions c (w_metrics w0) = []"
    and "New_breaker c cfg w0 = (b, w)" and "run_calls b cs w = (es, b', w')"
  shows "cb_gauge c (w_metrics w') = Some (State b') \<and>
    cb_path CBStateClosed (cb_transitions c (w_metrics w')) (State b')"
proof -
  have inv: "breaker_inv b"
    using breaker_inv_New [of cfg c w0] assms by simp
  have "log_ok b w"
    using assms(3,4) by (auto simp: New_breaker_def log_ok_def)
  from run_calls_log [OF inv this assms(5)] have "log_ok b' w'" .
  moreover have "b_carrierID b' = c"
    using run_calls_carrierID [OF assms(5)] assms(4) by (auto simp: New_breaker_def)
  ultimately show ?thesis by (simp add: log_ok_def State_def)
qed

theorem breaker_metrics_agree_witness:
  "\<exists>es b' w'. run_calls (fst (New_breaker ''alpha'' cfg_example world0))
      [(0, Some ErrCarrierUnavailable, 1), (0, Some ErrCarrierUnavailable, 1), (100, None, 1)]
      (snd (New_breaker ''alpha'' cfg_example world0)) = (es, b', w') \<and>
     cb_gauge ''alpha'' (w_metrics w') = Some (State b') \<and>
     cb_path CBStateClosed (cb_transitions ''alpha'' (w_metrics w')) (State b')"
proof -
  let ?cs = "[(0, Some ErrCarrierUnavailable, 1), (0, Some ErrCarrierUnavailable, 1), (100, None, 1)] :: call list"
  obtain b w where new: "New_breaker ''alpha'' cfg_example world0 = (b, w)" by fastforce
  obtain es b' w' where run: "run_calls b ?cs w = (es, b', w')" by (metis prod_cases3)
  from breaker_metrics_agree [OF _ _ _ new run] new run show ?thesis
    by (simp add: cfg_example_def world0_def)
qed

end
