(* ===== verification/RF_Breaker_Concurrent.thy ===== *)
theory RF_Breaker_Concurrent
  imports RF_Breaker
begin

text \<open>
  The circuit breaker under concurrent callers. Every goroutine inside \<open>Execute\<close> has a program
  counter; a step is one atomic load, store, add or compare-and-swap of \<open>breaker.go\<close>, one
  metrics call, or the run of the protected function (whose outcome the environment chooses), and
  goroutines interleave freely. The clock moves on its own. \<open>s_hist\<close> is a ghost: the state
  changes in the order in which the compare-and-swaps happened, with the time of each.
\<close>

section \<open>One goroutine\<close>

datatype pc =
    Idle
  | LoadOpenedAt
  | CheckSince int
  | TryHalfOpen
  | EnterHalfOpen
  | RunProbe
  | ReopenCAS go_error
  | ReopenStoreTime go_error
  | ReopenResetSuccesses go_error
  | CountSuccess
  | CloseCAS
  | CloseResetFailures
  | CloseResetSuccesses
  | Release "go_error option"
  | RunClosed
  | CountFailure go_error
  | TripCAS go_error
  | TripStoreTime go_error
  | ResetFailures
  | RecordTransition CBState CBState pc
  | SetGauge CBState pc
  | Returned "go_error option"

text \<open>\<open>switch current\<close> on the loaded state.\<close>

definition dispatch :: "CBState \<Rightarrow> pc" where
  "dispatch current =
     (if current = CBStateOpen then LoadOpenedAt
      else if current = CBStateHalfOpen then EnterHalfOpen else RunClosed)"

text \<open>
  One step of a goroutine at time \<open>t\<close>; \<open>r\<close> is what the protected function returns, used
  only by the two steps that run it. A goroutine that has returned may call again.
\<close>

fun thread_step ::
  "go_error option \<Rightarrow> gotime \<Rightarrow> breaker \<Rightarrow> pc \<Rightarrow> breaker \<times> pc \<times> metric_event list" where
  "thread_step r t b Idle = (b, dispatch (b_state b), [])"
| "thread_step r t b (Returned r') = (b, dispatch (b_state b), [])"
| "thread_step r t b LoadOpenedAt = (b, CheckSince (b_openedAt b), [])"
| "thread_step r t b (CheckSince opened) =
     (b, if time_sub t opened < OpenTimeout (b_cfg b) then Returned (Some ErrCircuitOpen)
         else TryHalfOpen, [])"
| "thread_step r t b TryHalfOpen =
     (if b_state b = CBStateOpen
      then (b\<lparr>b_state := CBStateHalfOpen\<rparr>,
            RecordTransition CBStateOpen CBStateHalfOpen (SetGauge CBStateHalfOpen EnterHalfOpen), [])
      else (b, EnterHalfOpen, []))"
| "thread_step r t b EnterHalfOpen =
     (if b_halfOpenInFlight b = 0 then (b\<lparr>b_halfOpenInFlight := 1\<rparr>, RunProbe, [])
      else (b, Returned (Some ErrCircuitOpen), []))"
| "thread_step r t b RunProbe =
     (b, case r of Some e \<Rightarrow> ReopenCAS e | None \<Rightarrow> CountSuccess, [])"
| "thread_step r t b (ReopenCAS e) =
     (if b_state b = CBStateHalfOpen then (b\<lparr>b_state := CBStateOpen\<rparr>, ReopenStoreTime e, [])
      else (b, Release (Some e), []))"
| "thread_step r t b (ReopenStoreTime e) =
     (b\<lparr>b_openedAt := unix_nano t\<rparr>, ReopenResetSuccesses e, [])"
| "thread_step r t b (ReopenResetSuccesses e) =
     (b\<lparr>b_successes := 0\<rparr>,
      RecordTransition CBStateHalfOpen CBStateOpen (SetGauge CBStateOpen (Release (Some e))), [])"
| "thread_step r t b CountSuccess =
     (let n = b_successes b + 1 in
      (b\<lparr>b_successes := n\<rparr>,
       if reached n (SuccessThreshold (b_cfg b)) then CloseCAS else Release None, []))"
| "thread_step r t b CloseCAS =
     (if b_state b = CBStateHalfOpen then (b\<lparr>b_state := CBStateClosed\<rparr>, CloseResetFailures, [])
      else (b, Release None, []))"
| "thread_step r t b CloseResetFailures = (b\<lparr>b_failures := 0\<rparr>, CloseResetSuccesses, [])"
| "thread_step r t b CloseResetSuccesses =
     (b\<lparr>b_successes := 0\<rparr>,
      RecordTransition CBStateHalfOpen CBStateClosed (SetGauge CBStateClosed (Release None)), [])"
| "thread_step r t b (Release r') = (b\<lparr>b_halfOpenInFlight := 0\<rparr>, Returned r', [])"
| "thread_step r t b RunClosed =
     (b, case r of Some e \<Rightarrow> CountFailure e | None \<Rightarrow> ResetFailures, [])"
| "thread_step r t b (CountFailure e) =
     (let n = b_failures b + 1 in
      (b\<lparr>b_failures := n\<rparr>,
       if reached n (FailureThreshold (b_cfg b)) then TripCAS e else Returned (Some e), []))"
| "thread_step r t b (TripCAS e) =
     (if b_state b = CBStateClosed then (b\<lparr>b_state := CBStateOpen\<rparr>, TripStoreTime e, [])
      else (b, Returned (Some e), []))"
| "thread_step r t b (TripStoreTime e) =
     (b\<lparr>b_openedAt := unix_nano t\<rparr>,
      RecordTransition CBStateClosed CBStateOpen (SetGauge CBStateOpen (Returned (Some e))), [])"
| "thread_step r t b ResetFailures = (b\<lparr>b_failures := 0\<rparr>, Returned None, [])"
| "thread_step r t b (RecordTransition from to k) =
     (b, k, [RecordCBTransition (b_carrierID b) from to])"
| "thread_step r t b (SetGauge s k) = (b, k, [SetCBState (b_carrierID b) s])"

section \<open>All goroutines\<close>

record cb_sys =
  s_b :: breaker
  s_pc :: "nat \<Rightarrow> pc"
  s_now :: gotime
  s_log :: "metric_event list"
  s_hist :: "(gotime \<times> CBState \<times> CBState) list"

definition cas_event :: "gotime \<Rightarrow> breaker \<Rightarrow> breaker \<Rightarrow> (gotime \<times> CBState \<times> CBState) list" where
  "cas_event t b b' = (if b_state b' = b_state b then [] else [(t, b_state b, b_state b')])"

definition move :: "nat \<Rightarrow> go_error option \<Rightarrow> cb_sys \<Rightarrow> cb_sys" where
  "move i r s =
     (case thread_step r (s_now s) (s_b s) (s_pc s i) of
        (b', k, es) \<Rightarrow> s\<lparr>s_b := b', s_pc := (s_pc s)(i := k), s_log := s_log s @ es,
          s_hist := s_hist s @ cas_event (s_now s) (s_b s) b'\<rparr>)"

inductive cb_step :: "cb_sys \<Rightarrow> cb_sys \<Rightarrow> bool" where
  goroutine: "cb_step s (move i r s)"
| clock: "0 \<le> d \<Longrightarrow> cb_step s (s\<lparr>s_now := s_now s + d\<rparr>)"

inductive_cases cb_stepE: "cb_step s s'"

definition cb_init :: "string \<Rightarrow> cb_config \<Rightarrow> gotime \<Rightarrow> cb_sys" where
  "cb_init c cfg t =
     \<lparr>s_b = fst (New_breaker c cfg world0), s_pc = (\<lambda>_. Idle), s_now = t,
      s_log = w_metrics (snd (New_breaker c cfg world0)), s_hist = []\<rparr>"

inductive cb_reachable :: "string \<Rightarrow> cb_config \<Rightarrow> gotime \<Rightarrow> cb_sys \<Rightarrow> bool" for c cfg t where
  start: "cb_reachable c cfg t (cb_init c cfg t)"
| step: "cb_reachable c cfg t s \<Longrightarrow> cb_step s s' \<Longrightarrow> cb_reachable c cfg t s'"

text \<open>Schedules, to build runs: which goroutine moves next, or how much time passes.\<close>

datatype sched = Run nat "go_error option" | Wait nat

fun run_sched :: "sched list \<Rightarrow> cb_sys \<Rightarrow> cb_sys" where
  "run_sched [] s = s"
| "run_sched (Run i r # xs) s = run_sched xs (move i r s)"
| "run_sched (Wait d # xs) s = run_sched xs (s\<lparr>s_now := s_now s + int d\<rparr>)"

lemma run_sched_reachable: "cb_reachable c cfg t s \<Longrightarrow> cb_reachable c cfg t (run_sched xs s)"
proof (induction xs s rule: run_sched.induct)
  case (2 i r xs s)
  then show ?case by (auto intro: cb_reachable.step cb_step.goroutine)
next
  case (3 d xs s)
  have "cb_step s (s\<lparr>s_now := s_now s + int d\<rparr>)" by (rule cb_step.clock) simp
  with "3" show ?case by (auto intro: cb_reachable.step)
qed simp

section \<open>At most one probe\<close>

text \<open>A goroutine between its successful compare-and-swap of \<open>halfOpenInFlight\<close> and the
  deferred reset owns the probe slot.\<close>

fun holds_probe :: "pc \<Rightarrow> bool" where
  "holds_probe RunProbe = True"
| "holds_probe (ReopenCAS e) = True"
| "holds_probe (ReopenStoreTime e) = True"
| "holds_probe (ReopenResetSuccesses e) = True"
| "holds_probe CountSuccess = True"
| "holds_probe CloseCAS = True"
| "holds_probe CloseResetFailures = True"
| "holds_probe CloseResetSuccesses = True"
| "holds_probe (Release r) = True"
| "holds_probe (RecordTransition s t k) = holds_probe k"
| "holds_probe (SetGauge s k) = holds_probe k"
| "holds_probe _ = False"

definition probe_inv :: "cb_sys \<Rightarrow> bool" where
  "probe_inv s \<longleftrightarrow>
     (b_halfOpenInFlight (s_b s) = 0 \<and> (\<forall>i. \<not> holds_probe (s_pc s i))) \<or>
     (b_halfOpenInFlight (s_b s) = 1 \<and> (\<exists>i. \<forall>j. holds_probe (s_pc s j) \<longleftrightarrow> j = i))"

lemma dispatch_simps [simp]: "\<not> holds_probe (dispatch s)"
  by (simp add: dispatch_def)

text \<open>What one step does to the slot, seen from the goroutine that moves.\<close>

lemma thread_step_probe:
  assumes "thread_step r t b k = (b', k', es)"
  shows "(holds_probe k \<and> holds_probe k' \<and> b_halfOpenInFlight b' = b_halfOpenInFlight b) \<or>
    (\<not> holds_probe k \<and> \<not> holds_probe k' \<and> b_halfOpenInFlight b' = b_halfOpenInFlight b) \<or>
    (\<not> holds_probe k \<and> holds_probe k' \<and> b_halfOpenInFlight b = 0 \<and> b_halfOpenInFlight b' = 1) \<or>
    (holds_probe k \<and> \<not> holds_probe k' \<and> b_halfOpenInFlight b' = 0)"
  using assms
  by (cases k) (auto simp: Let_def split: if_splits option.splits)

lemma move_inv [inv_rules]:
  assumes "probe_inv s" shows "probe_inv (move i r s)"
proof -
  obtain b' k' es where step: "thread_step r (s_now s) (s_b s) (s_pc s i) = (b', k', es)"
    by (metis prod_cases3)
  let ?s = "move i r s"
  have pc: "holds_probe (s_pc ?s j) = (if j = i then holds_probe k' else holds_probe (s_pc s j))"
    and fl: "b_halfOpenInFlight (s_b ?s) = b_halfOpenInFlight b'" for j
    by (simp_all add: move_def step)
  from thread_step_probe [OF step] show ?thesis
  proof (elim disjE conjE)
    assume "holds_probe (s_pc s i)" "holds_probe k'"
      "b_halfOpenInFlight b' = b_halfOpenInFlight (s_b s)"
    then show ?thesis using assms unfolding probe_inv_def pc fl by metis
  next
    assume "\<not> holds_probe (s_pc s i)" "\<not> holds_probe k'"
      "b_halfOpenInFlight b' = b_halfOpenInFlight (s_b s)"
    then show ?thesis using assms unfolding probe_inv_def pc fl by metis
  next
    assume "\<not> holds_probe (s_pc s i)" "holds_probe k'"
      "b_halfOpenInFlight (s_b s) = 0" "b_halfOpenInFlight b' = 1"
    then show ?thesis using assms unfolding probe_inv_def pc fl by (metis zero_neq_one)
  next
    assume "holds_probe (s_pc s i)" "\<not> holds_probe k'" "b_halfOpenInFlight b' = 0"
    then show ?thesis using assms unfolding probe_inv_def pc fl by metis
  qed
qed

lemma probe_inv_init: "probe_inv (cb_init c cfg t)"
  by (simp add: probe_inv_def cb_init_def New_breaker_def)

lemma cb_step_probe_inv: "cb_step s s' \<Longrightarrow> probe_inv s \<Longrightarrow> probe_inv s'"
  by (erule cb_stepE) (simp_all add: inv_rules, simp add: probe_inv_def)

lemma reachable_probe_inv: "cb_reachable c cfg t s \<Longrightarrow> probe_inv s"
  by (induction rule: cb_reachable.induct) (auto intro: probe_inv_init cb_step_probe_inv)

section \<open>State changes\<close>

lemma thread_step_edge:
  "thread_step r t b k = (b', k', es) \<Longrightarrow> b_state b' \<noteq> b_state b \<Longrightarrow> cb_edge (b_state b) (b_state b')"
  by (cases k) (auto simp: Let_def cb_edge_def split: if_splits option.splits)

definition hist_ok :: "cb_sys \<Rightarrow> bool" where
  "hist_ok s \<longleftrightarrow> cb_path CBStateClosed (map snd (s_hist s)) (b_state (s_b s))"

lemma move_hist [inv_rules]:
  assumes "hist_ok s" shows "hist_ok (move i r s)"
proof -
  obtain b' k' es where step: "thread_step r (s_now s) (s_b s) (s_pc s i) = (b', k', es)"
    by (metis prod_cases3)
  from thread_step_edge [OF step] assms show ?thesis
    by (auto simp: hist_ok_def move_def step cas_event_def cb_path_append)
qed

lemma reachable_hist_ok: "cb_reachable c cfg t s \<Longrightarrow> hist_ok s"
proof (induction rule: cb_reachable.induct)
  case start
  show ?case by (simp add: hist_ok_def cb_init_def New_breaker_def)
next
  case (step s s')
  from step.hyps(2) step.IH show ?case
    by (cases rule: cb_step.cases) (simp_all add: inv_rules, simp add: hist_ok_def)
qed

section \<open>Every call finishes in its own steps\<close>

fun steps_left :: "pc \<Rightarrow> nat" where
  "steps_left Idle = 0"
| "steps_left (Returned r) = 0"
| "steps_left (Release r) = 1"
| "steps_left (RecordTransition s t k) = Suc (steps_left k)"
| "steps_left (SetGauge s k) = Suc (steps_left k)"
| "steps_left (ReopenResetSuccesses e) = 4"
| "steps_left (ReopenStoreTime e) = 5"
| "steps_left (ReopenCAS e) = 6"
| "steps_left CloseResetSuccesses = 4"
| "steps_left CloseResetFailures = 5"
| "steps_left CloseCAS = 6"
| "steps_left CountSuccess = 7"
| "steps_left RunProbe = 8"
| "steps_left EnterHalfOpen = 9"
| "steps_left TryHalfOpen = 12"
| "steps_left (CheckSince u) = 13"
| "steps_left LoadOpenedAt = 14"
| "steps_left ResetFailures = 1"
| "steps_left (TripStoreTime e) = 3"
| "steps_left (TripCAS e) = 4"
| "steps_left (CountFailure e) = 5"
| "steps_left RunClosed = 6"

fun in_call :: "pc \<Rightarrow> bool" where
  "in_call Idle = False"
| "in_call (Returned r) = False"
| "in_call _ = True"

lemma thread_step_progress:
  "in_call k \<Longrightarrow> thread_step r t b k = (b', k', es) \<Longrightarrow> steps_left k' < steps_left k"
  by (cases k) (auto simp: Let_def split: if_splits option.splits)

lemma in_call_steps_left: "in_call k \<longleftrightarrow> 0 < steps_left k"
  by (cases k) auto

definition own_steps :: "nat \<Rightarrow> sched list \<Rightarrow> nat" where
  "own_steps i xs = length (filter (\<lambda>x. case x of Run j r \<Rightarrow> j = i | Wait d \<Rightarrow> False) xs)"

lemma move_other: "j \<noteq> i \<Longrightarrow> s_pc (move i r s) j = s_pc s j"
  by (simp add: move_def split: prod.splits)

lemma move_self: "in_call (s_pc s i) \<Longrightarrow> steps_left (s_pc (move i r s) i) < steps_left (s_pc s i)"
  using thread_step_progress [of "s_pc s i" r "s_now s" "s_b s"]
  by (auto simp: move_def split: prod.splits)

lemma call_finishes:
  "steps_left (s_pc s i) \<le> own_steps i xs \<Longrightarrow>
   \<exists>ys zs. xs = ys @ zs \<and> \<not> in_call (s_pc (run_sched ys s) i)"
proof (induction xs arbitrary: s)
  case Nil
  then have "\<not> in_call (s_pc s i)" by (simp add: own_steps_def in_call_steps_left)
  then show ?case by simp
next
  case (Cons x xs)
  show ?case
  proof (cases "in_call (s_pc s i)")
    case False
    then show ?thesis by - (rule exI [of _ "[]"], simp)
  next
    case True
    have "\<exists>ys zs. xs = ys @ zs \<and> \<not> in_call (s_pc (run_sched ys (run_sched [x] s)) i)"
    proof (cases x)
      case (Run j r)
      show ?thesis
      proof (cases "j = i")
        case True
        with Run Cons.prems move_self [OF \<open>in_call (s_pc s i)\<close>, of r]
        show ?thesis by (intro Cons.IH) (simp add: own_steps_def)
      next
        case False
        with Run Cons.prems show ?thesis by (intro Cons.IH) (simp add: own_steps_def move_other)
      qed
    next
      case (Wait d)
      with Cons.prems show ?thesis by (intro Cons.IH) (simp add: own_steps_def)
    qed
    then obtain ys zs where "xs = ys @ zs" "\<not> in_call (s_pc (run_sched ys (run_sched [x] s)) i)"
      by blast
    moreover have "run_sched (x # ys) s = run_sched ys (run_sched [x] s)" by (cases x) simp_all
    ultimately show ?thesis by (intro exI [of _ "x # ys"] exI [of _ zs]) simp
  qed
qed

section \<open>One goroutine alone is the sequential breaker\<close>

fun runs_fn :: "pc \<Rightarrow> bool" where
  "runs_fn RunProbe = True"
| "runs_fn RunClosed = True"
| "runs_fn _ = False"

fun solo ::
  "nat \<Rightarrow> go_error option \<Rightarrow> duration \<Rightarrow> breaker \<Rightarrow> pc \<Rightarrow> 'a world_scheme \<Rightarrow>
   (go_error option \<times> breaker \<times> 'a world_scheme) option" where
  "solo 0 r d b k w = None"
| "solo (Suc n) r d b (Returned e) w = Some (e, b, w)"
| "solo (Suc n) r d b k w =
     (let w1 = (if runs_fn k then advance d w else w);
          (b', k', es) = thread_step r (w_now w1) b k
      in solo n r d b' k' (w1\<lparr>w_metrics := w_metrics w1 @ es\<rparr>))"

lemma solo_is_Execute: "solo 16 r d b Idle w = Some (Execute b (scripted r d) w)"
  by (cases r)
    (auto simp: eval_nat_numeral Let_def dispatch_def step_defs scripted_def still_open_def
      emit_transition_def emit_def advance_def reached_def)

section \<open>Schedules of interest\<close>

definition fails :: "nat \<Rightarrow> nat \<Rightarrow> sched list" where
  "fails n i = replicate n (Run i (Some ErrCarrierUnavailable))"

definition succeeds :: "nat \<Rightarrow> nat \<Rightarrow> sched list" where
  "succeeds n i = replicate n (Run i None)"

abbreviation sys0 :: cb_sys where
  "sys0 \<equiv> cb_init ''alpha'' cfg_example 1000"

lemmas sched_eval = move_def cb_init_def New_breaker_def cb_defaults_def cfg_example_def world0_def
  dispatch_def cb_state_defs reached_def time_sub_def int64_min_def int64_max_def
  unix_nano_def wrap64_def cas_event_def fails_def succeeds_def eval_nat_numeral emit_def

lemma sched_reachable: "cb_reachable ''alpha'' cfg_example 1000 (run_sched xs sys0)"
  by (rule run_sched_reachable [OF cb_reachable.start])

text \<open>
  Goroutine 0 has tripped the circuit but not yet stored \<open>openedAt\<close>; goroutine 1 loads the old
  value, finds the timeout long past and starts a probe at the very instant of the trip.
\<close>

lemma half_open_without_waiting:
  "\<exists>s. cb_reachable ''alpha'' cfg_example 1000 s \<and> s_pc s 1 = RunProbe \<and>
     s_hist s = [(1000, CBStateClosed, CBStateOpen), (1000, CBStateOpen, CBStateHalfOpen)]"
proof (intro exI conjI)
  show "cb_reachable ''alpha'' cfg_example 1000 (run_sched (fails 7 0 @ succeeds 7 1) sys0)"
    by (rule sched_reachable)
qed (simp_all add: sched_eval)

text \<open>
  Goroutine 1 decides that the timeout is over, goroutine 2 closes the circuit with two successful
  probes, then goroutine 1 runs its own probe in a closed circuit: its success stays counted. The
  breaker is at rest, yet the next recovery takes one success instead of \<open>SuccessThreshold = 2\<close>.
\<close>

definition leftover_run :: "sched list" where
  "leftover_run = fails 10 0 @ [Wait 100] @ succeeds 3 1 @ succeeds 20 2 @ succeeds 5 1"

lemma leftover_success:
  "\<exists>s. cb_reachable ''alpha'' cfg_example 1000 s \<and> (\<forall>i. \<not> in_call (s_pc s i)) \<and>
     State (s_b s) = CBStateClosed \<and> b_successes (s_b s) = 1 \<and>
     State (fst (snd (run_calls (s_b s)
       [(0, Some ErrCarrierUnavailable, 0), (0, Some ErrCarrierUnavailable, 0), (100, None, 0)]
       (world0\<lparr>w_now := s_now s\<rparr>)))) = CBStateClosed"
proof -
  let ?s = "run_sched leftover_run sys0"
  have b: "s_b ?s = \<lparr>b_carrierID = ''alpha'', b_cfg = cfg_example, b_state = CBStateClosed,
      b_failures = 0, b_successes = 1, b_halfOpenInFlight = 0, b_openedAt = 1000\<rparr>"
    and now: "s_now ?s = 1100"
    and pcs: "s_pc ?s = (\<lambda>_. Idle)(0 := Returned (Some ErrCarrierUnavailable), 1 := Returned None, 2 := Returned None)"
    by (simp_all add: leftover_run_def sched_eval fun_upd_twist fun_eq_iff)
  have "State (fst (snd (run_calls (s_b ?s)
       [(0, Some ErrCarrierUnavailable, 0), (0, Some ErrCarrierUnavailable, 0), (100, None, 0)]
       (world0\<lparr>w_now := s_now ?s\<rparr>)))) = CBStateClosed"
    unfolding b now
    by (simp add: step_defs scripted_def advance_def world0_def cfg_example_def cb_state_defs reached_def
        still_open_def time_sub_def int64_min_def int64_max_def unix_nano_def wrap64_def
        emit_transition_def emit_def State_def)
  moreover have "\<forall>i. \<not> in_call (s_pc ?s i)" unfolding pcs by simp
  ultimately show ?thesis
    using sched_reachable [of leftover_run] b by (intro exI [of _ ?s]) (simp add: State_def)
qed

text \<open>
  Goroutine 0 has tripped the circuit but not yet recorded it when goroutine 1, after the timeout,
  makes a successful probe. At rest the breaker is half-open and its gauge says open.
\<close>

definition late_gauge_run :: "sched list" where
  "late_gauge_run = fails 8 0 @ [Wait 100] @ succeeds 10 1 @ fails 2 0"

lemma gauge_can_be_stale:
  "\<exists>s. cb_reachable ''alpha'' cfg_example 1000 s \<and> (\<forall>i. \<not> in_call (s_pc s i)) \<and>
     State (s_b s) = CBStateHalfOpen \<and> cb_gauge ''alpha'' (s_log s) = Some CBStateOpen"
proof -
  let ?s = "run_sched late_gauge_run sys0"
  have "s_pc ?s = (\<lambda>_. Idle)(0 := Returned (Some ErrCarrierUnavailable), 1 := Returned None)"
    "State (s_b ?s) = CBStateHalfOpen" "cb_gauge ''alpha'' (s_log ?s) = Some CBStateOpen"
    by (simp_all add: late_gauge_run_def sched_eval fun_eq_iff State_def)
  then show ?thesis
    using sched_reachable [of late_gauge_run] by (intro exI [of _ ?s]) simp
qed

section \<open>Properties\<close>



text \<open>C31. However calls interleave, the circuit only ever changes state along the four legal
  edges: the compare-and-swaps that succeeded, in order, form a path from Closed to the present
  state (the circuit never goes from Closed to HalfOpen or from Open straight to Closed).\<close>

theorem concurrent_transitions_legal:
  assumes "cb_reachable c cfg t s"
  shows "cb_path CBStateClosed (map snd (s_hist s)) (State (s_b s))"
  using reachable_hist_ok [OF assms] by (simp add: hist_ok_def State_def)

theorem concurrent_transitions_legal_witness:
  "\<exists>s :: cb_sys. length (s_hist s) = 2 \<and> cb_path CBStateClosed (map snd (s_hist s)) (State (s_b s))"
proof -
  let ?s = "run_sched (fails 7 0 @ succeeds 7 1) sys0"
  have "length (s_hist ?s) = 2" by (simp add: sched_eval)
  with concurrent_transitions_legal [OF sched_reachable, of "fails 7 0 @ succeeds 7 1"]
  show ?thesis by blast
qed

text \<open>C32. \<open>Execute\<close> is wait-free: a goroutine that has just loaded the state finishes its call
  within fourteen steps of its own, whatever the others do in between and whatever the function
  returns; no call ever waits for another.\<close>

theorem execute_wait_free:
  assumes "s_pc s i = dispatch current" and "14 \<le> own_steps i xs"
  shows "\<exists>ys zs. xs = ys @ zs \<and> \<not> in_call (s_pc (run_sched ys s) i)"
proof (rule call_finishes)
  have "steps_left (s_pc s i) \<le> 14" by (simp add: assms(1) dispatch_def)
  with assms(2) show "steps_left (s_pc s i) \<le> own_steps i xs" by simp
qed

theorem execute_wait_free_witness:
  "\<exists>ys zs. succeeds 14 0 = ys @ zs \<and> \<not> in_call (s_pc (run_sched ys (move 0 None sys0)) 0)"
  by (rule execute_wait_free [of _ _ CBStateClosed])
    (simp_all add: own_steps_def succeeds_def cb_init_def move_def New_breaker_def)


end
