(* ===== verification/RF_Hedging.thy ===== *)
theory RF_Hedging
  imports RF_Ports
begin

text \<open>
  The adaptive hedging of \<open>internal/orchestrator/hedging.go\<close>: the moving average of a
  carrier's latency (\<open>EMATracker\<close>), the choice of a hedge candidate and the polling loop of
  \<open>hedgeMonitor\<close>. Floating point is the binary64 arithmetic of \<open>RF_Float64\<close>, each
  operation rounded (the fused multiply-add some Go ports may use is not modelled).
\<close>

section \<open>The latency tracker\<close>

record emaState =
  p95 :: real
  observations :: int

record EMATracker =
  t_carrierID :: string
  t_alpha :: real
  t_multiplier :: real
  t_warmup :: int
  t_state :: emaState

definition ema_alpha :: "CarrierConfig \<Rightarrow> real" where
  "ema_alpha cfg =
     (let a = (if cc_EMAWindowSize cfg > 0
               then f64_div 2 (f64_add (f64_of_int (cc_EMAWindowSize cfg)) 1)
               else cc_EMAAlpha cfg)
      in if a \<le> 0 \<or> 1 \<le> a then fl (1 / 10) else a)"

definition NewEMATracker :: "string \<Rightarrow> duration \<Rightarrow> CarrierConfig \<Rightarrow> EMATracker" where
  "NewEMATracker carrierID seed cfg =
     \<lparr>t_carrierID = carrierID, t_alpha = ema_alpha cfg, t_multiplier = cc_HedgeMultiplier cfg,
      t_warmup = cc_EMAWarmupObservations cfg,
      t_state = \<lparr>p95 = f64_mul (f64_of_int (milliseconds seed)) 2, observations = 0\<rparr>\<rparr>"

definition duration_ms :: "duration \<Rightarrow> real" where
  "duration_ms d = f64_div (f64_of_int d) (f64_of_int Millisecond)"

definition ema_next :: "real \<Rightarrow> duration \<Rightarrow> emaState \<Rightarrow> emaState" where
  "ema_next alpha latency old =
     \<lparr>p95 = f64_add (f64_mul alpha (duration_ms latency)) (f64_mul (f64_sub 1 alpha) (p95 old)),
      observations = observations old + 1\<rparr>"

definition Record :: "EMATracker \<Rightarrow> duration \<Rightarrow> 'a world_scheme \<Rightarrow> EMATracker \<times> 'a world_scheme" where
  "Record t latency w =
     (let s = ema_next (t_alpha t) latency (t_state t)
      in (t\<lparr>t_state := s\<rparr>, emit (SetP95Latency (t_carrierID t) (p95 s)) w))"

definition P95 :: "EMATracker \<Rightarrow> real" where
  "P95 t = p95 (t_state t)"

definition HedgeThreshold :: "EMATracker \<Rightarrow> real" where
  "HedgeThreshold t =
     (if observations (t_state t) < t_warmup t then max_float64
      else f64_mul (p95 (t_state t)) (t_multiplier t))"

section \<open>The average is a damped mean\<close>

definition tracker_ok :: "EMATracker \<Rightarrow> bool" where
  "tracker_ok t \<longleftrightarrow> 0 < t_alpha t \<and> t_alpha t < 1 \<and> 0 \<le> p95 (t_state t) \<and>
     0 \<le> observations (t_state t)"

lemma fl_pos:
  assumes "2 powi (-1000) \<le> x" shows "0 < fl x"
proof -
  have "(0::real) < 2 powi (-1000)" by simp
  with assms have x: "0 < x" by linarith
  have "(2::real) powi (-1075) \<le> 2 powi (-1000) * 2 powi (-53)"
    by (simp flip: power_int_add)
  also have "\<dots> \<le> x * 2 powi (-53)" using assms by (intro mult_right_mono) simp_all
  finally have "fl x \<ge> x - 2 * (x * 2 powi (-53))"
    using fl_error [of x] x by (simp add: abs_if mult.commute split: if_splits)
  moreover have "2 * (x * 2 powi (-53)) < x" using x by (simp add: power_int_minus)
  ultimately show ?thesis by linarith
qed

lemma fl_tenth: "0 < fl (1 / 10)" "fl (1 / 10) < 1"
proof -
  show "0 < fl (1 / 10)" by (rule fl_pos) (simp add: power_int_minus field_simps)
  have "\<bar>fl (1 / 10) - 1 / 10\<bar> \<le> 1 / 10 + 1 / 10 "
    using fl_error [of "1 / 10"] by (simp add: power_int_minus field_simps)
  then show "fl (1 / 10) < 1" by linarith
qed

lemma ema_alpha_range: "0 < ema_alpha cfg \<and> ema_alpha cfg < 1"
  using fl_tenth by (auto simp: ema_alpha_def Let_def)

lemma duration_ms_nonneg: "0 \<le> d \<Longrightarrow> 0 \<le> duration_ms d"
  by (simp add: duration_ms_def f64_defs fl_nonneg Millisecond_def)

lemma duration_ms_mono: "0 \<le> d \<Longrightarrow> d \<le> d' \<Longrightarrow> duration_ms d \<le> duration_ms d'"
  unfolding duration_ms_def f64_defs
  by (intro fl_mono divide_nonneg_nonneg divide_right_mono fl_nonneg) (simp_all add: Millisecond_def)

lemma tracker_ok_New: "0 \<le> seed \<Longrightarrow> tracker_ok (NewEMATracker c seed cfg)"
  by (simp add: tracker_ok_def NewEMATracker_def ema_alpha_range f64_defs milliseconds_def
      godiv_nonneg Millisecond_def fl_nonneg)

lemma ema_next_nonneg:
  assumes "0 < alpha" "alpha < 1" "0 \<le> latency" "0 \<le> p95 old"
  shows "0 \<le> p95 (ema_next alpha latency old)"
  using assms duration_ms_nonneg [of latency]
  by (simp add: ema_next_def f64_defs fl_nonneg)

lemma tracker_ok_Record [inv_rules]:
  "tracker_ok t \<Longrightarrow> 0 \<le> latency \<Longrightarrow> tracker_ok (fst (Record t latency w))"
  using ema_next_nonneg [of "t_alpha t" latency "t_state t"]
  by (simp add: tracker_ok_def Record_def Let_def ema_next_def)

text \<open>A slower answer never lowers the average, whatever the rounding does.\<close>

lemma ema_next_mono:
  assumes "0 < alpha" "alpha < 1" "0 \<le> l" "l \<le> l'" "0 \<le> p95 s" "p95 s \<le> p95 s'"
  shows "p95 (ema_next alpha l s) \<le> p95 (ema_next alpha l' s')"
proof -
  have l: "0 \<le> duration_ms l" "duration_ms l \<le> duration_ms l'"
    using assms by (simp_all add: duration_ms_nonneg duration_ms_mono)
  have "fl (alpha * duration_ms l) \<le> fl (alpha * duration_ms l')"
    using assms l by (intro fl_mono mult_left_mono) simp_all
  moreover have "fl (fl (1 - alpha) * p95 s) \<le> fl (fl (1 - alpha) * p95 s')"
    using assms by (intro fl_mono mult_left_mono) (simp_all add: fl_nonneg)
  ultimately show ?thesis
    using assms l by (simp add: ema_next_def f64_defs fl_mono fl_nonneg add_mono)
qed

text \<open>A new average is at most the larger of the old average and the latency, up to rounding.\<close>

lemma fl_upper: "0 \<le> x \<Longrightarrow> fl x \<le> x * (1 + 2 powi (-53)) + 2 powi (-1075)"
  using fl_error [of x] by (simp add: algebra_simps abs_if split: if_splits)

lemma damped_mean_bound:
  fixes a M u h :: real
  assumes "0 < a" "a < 1" "0 \<le> M" "0 < h" "h \<le> u" "u \<le> 1 / 16"
    and A: "A \<le> a * M * (1 + u) + h" and c: "c \<le> (1 - a) * (1 + u) + h"
    and B: "B \<le> c * M * (1 + u) + h" and R: "R \<le> (A + B) * (1 + u) + h"
  shows "R \<le> M * (1 + 8 * u) + 4 * h"
proof -
  have "c * M \<le> ((1 - a) * (1 + u) + h) * M"
    using c assms by (intro mult_right_mono)
  then have "c * M * (1 + u) \<le> ((1 - a) * (1 + u) + h) * M * (1 + u)"
    using assms by (intro mult_right_mono) simp_all
  moreover have "a * M * (1 + u) \<le> a * M * (1 + u) * (1 + u)"
    using mult_left_mono [of 1 "1 + u" "a * M * (1 + u)"] assms by simp
  ultimately have AB: "A + B \<le> M * ((1 + u) * (1 + u) + h * (1 + u)) + 2 * h"
    using A B by (simp add: algebra_simps)
  have "(A + B) * (1 + u) \<le> (M * ((1 + u) * (1 + u) + h * (1 + u)) + 2 * h) * (1 + u)"
    using AB assms by (intro mult_right_mono) linarith+
  with R have "R \<le> (M * ((1 + u) * (1 + u) + h * (1 + u)) + 2 * h) * (1 + u) + h"
    by linarith
  also have "\<dots> = M * ((1 + u) * (1 + u) * (1 + u) + h * (1 + u) * (1 + u)) + (2 * (h * (1 + u)) + h)"
    by (simp add: algebra_simps)
  also have "\<dots> \<le> M * (1 + 8 * u) + 4 * h"
  proof (rule add_mono)
    have q: "u * u \<le> 1 / 16 * u" using assms by (intro mult_right_mono) simp_all
    have "u * u \<le> 1 / 16" using q assms by linarith
    then have r: "u * u * u \<le> 1 / 16 * u" using assms by (intro mult_right_mono) simp_all
    have "h * (1 + u) * (1 + u) \<le> u * (1 + u) * (1 + u)"
      using assms by (intro mult_right_mono) simp_all
    moreover have "(1 + u) * (1 + u) * (1 + u) = 1 + 3 * u + 3 * (u * u) + u * u * u"
      and "u * (1 + u) * (1 + u) = u + 2 * (u * u) + u * u * u"
      by (simp_all add: algebra_simps)
    moreover have "T + P \<le> 1 + 8 * u" if "P \<le> Q" "T = 1 + 3 * u + 3 * x + y" "Q = u + 2 * x + y"
      "x \<le> 1 / 16 * u" "y \<le> 1 / 16 * u" for T P Q x y
      using that \<open>0 < h\<close> \<open>h \<le> u\<close> by linarith
    ultimately have "(1 + u) * (1 + u) * (1 + u) + h * (1 + u) * (1 + u) \<le> 1 + 8 * u"
      using q r by blast
    then show "M * ((1 + u) * (1 + u) * (1 + u) + h * (1 + u) * (1 + u)) \<le> M * (1 + 8 * u)"
      using assms by (intro mult_left_mono)
    have "h * (1 + u) \<le> h * (1 + 1 / 16)" using assms by (intro mult_left_mono) simp_all
    moreover have "2 * k + h \<le> 4 * h" if "k \<le> h * (1 + 1 / 16)" for k
      using that \<open>0 < h\<close> by (simp add: field_simps)
    ultimately show "2 * (h * (1 + u)) + h \<le> 4 * h" by blast
  qed
  finally show ?thesis .
qed

lemma ema_next_upper:
  assumes "0 < alpha" "alpha < 1" "0 \<le> latency" "0 \<le> p95 old"
    and "duration_ms latency \<le> M" "p95 old \<le> M"
  shows "p95 (ema_next alpha latency old) \<le> M * (1 + 2 powi (-50)) + 2 powi (-1073)"
proof -
  let ?u = "2 powi (-53) :: real" and ?h = "2 powi (-1075) :: real"
  let ?l = "duration_ms latency"
  have M: "0 \<le> M" "0 \<le> ?l" using assms duration_ms_nonneg by force+
  have h: "0 < ?h" "?h \<le> ?u" by (auto intro: power_int_increasing)
  have u: "?u \<le> 1 / 16" "0 < ?u" by (simp_all add: power_int_minus field_simps)
  have "fl (alpha * ?l) \<le> alpha * ?l * (1 + ?u) + ?h" using assms M by (intro fl_upper) simp
  also have "alpha * ?l * (1 + ?u) \<le> alpha * M * (1 + ?u)"
    using assms u by (intro mult_right_mono mult_left_mono) simp_all
  finally have A: "fl (alpha * ?l) \<le> alpha * M * (1 + ?u) + ?h" by simp
  have c: "fl (1 - alpha) \<le> (1 - alpha) * (1 + ?u) + ?h" using assms by (intro fl_upper) simp
  have cn: "0 \<le> fl (1 - alpha)" using assms by (simp add: fl_nonneg)
  have "fl (fl (1 - alpha) * p95 old) \<le> fl (1 - alpha) * p95 old * (1 + ?u) + ?h"
    using assms cn by (intro fl_upper) simp
  also have "fl (1 - alpha) * p95 old * (1 + ?u) \<le> fl (1 - alpha) * M * (1 + ?u)"
    using assms cn u by (intro mult_right_mono mult_left_mono) simp_all
  finally have B: "fl (fl (1 - alpha) * p95 old) \<le> fl (1 - alpha) * M * (1 + ?u) + ?h" by simp
  have "0 \<le> fl (alpha * ?l) + fl (fl (1 - alpha) * p95 old)"
    using assms M cn by (simp add: fl_nonneg)
  from fl_upper [OF this] have "p95 (ema_next alpha latency old)
      \<le> (fl (alpha * ?l) + fl (fl (1 - alpha) * p95 old)) * (1 + ?u) + ?h"
    by (simp add: ema_next_def f64_defs)
  from damped_mean_bound [OF assms(1,2) M(1) h u(1) A c B this]
  have "p95 (ema_next alpha latency old) \<le> M * (1 + 8 * ?u) + 4 * ?h" .
  moreover have "8 * ?u = 2 powi (-50)" "4 * ?h = 2 powi (-1073)"
    by (simp_all add: power_int_minus)
  ultimately show ?thesis by metis
qed

section \<open>Choosing a hedge candidate\<close>

text \<open>
  A carrier available for hedging, over a world \<open>'s\<close> that holds breakers and limiters: its
  breaker's state and its limiter's \<open>TryAcquire\<close> are read from the world when they are called,
  as the method values of the Go struct are.
\<close>

record 's hedgeCarrier =
  hc_carrier :: Carrier
  hc_p95Ms :: real
  hc_tryAcquire :: "'s \<Rightarrow> bool \<times> 's"
  hc_cbState :: "'s \<Rightarrow> CBState"

abbreviation hc_ID :: "'s hedgeCarrier \<Rightarrow> string" where
  "hc_ID c \<equiv> c_ID (hc_carrier c)"

abbreviation hc_Priority :: "'s hedgeCarrier \<Rightarrow> int" where
  "hc_Priority c \<equiv> cc_Priority (c_Config (hc_carrier c))"

fun select_loop ::
  "string \<Rightarrow> 's \<Rightarrow> 's hedgeCarrier list \<Rightarrow> 's hedgeCarrier option \<Rightarrow> 's hedgeCarrier option" where
  "select_loop ex s [] best = best"
| "select_loop ex s (c # cs) best =
     (if hc_ID c = ex then select_loop ex s cs best
      else if hc_cbState c s = CBStateOpen then select_loop ex s cs best
      else (case best of
          None \<Rightarrow> select_loop ex s cs (Some c)
        | Some b \<Rightarrow>
            (if hc_p95Ms c < hc_p95Ms b then select_loop ex s cs (Some c)
             else if hc_p95Ms c = hc_p95Ms b \<and> hc_Priority c < hc_Priority b
             then select_loop ex s cs (Some c)
             else select_loop ex s cs (Some b))))"

definition selectHedgeCandidate ::
  "string \<Rightarrow> 's hedgeCarrier list \<Rightarrow> 's \<Rightarrow> 's hedgeCarrier option" where
  "selectHedgeCandidate ex eligible s = select_loop ex s eligible None"

definition hedge_admissible :: "string \<Rightarrow> 's \<Rightarrow> 's hedgeCarrier \<Rightarrow> bool" where
  "hedge_admissible ex s c \<longleftrightarrow> hc_ID c \<noteq> ex \<and> hc_cbState c s \<noteq> CBStateOpen"

text \<open>Preference: lower average first, then lower priority number.\<close>

definition preferred :: "'s hedgeCarrier \<Rightarrow> 's hedgeCarrier \<Rightarrow> bool" where
  "preferred c d \<longleftrightarrow> hc_p95Ms c < hc_p95Ms d \<or>
     hc_p95Ms c = hc_p95Ms d \<and> hc_Priority c < hc_Priority d"

lemma preferred_trans: "preferred a b \<Longrightarrow> preferred b c \<Longrightarrow> preferred a c"
  by (auto simp: preferred_def)

lemma preferred_negtrans: "\<not> preferred a b \<Longrightarrow> \<not> preferred b c \<Longrightarrow> \<not> preferred a c"
  by (auto simp: preferred_def)

lemma preferred_irrefl [simp]: "\<not> preferred a a"
  by (simp add: preferred_def)

text \<open>The loop keeps the first of the best carriers of what it has seen.\<close>

definition best_of :: "'s hedgeCarrier list \<Rightarrow> 's hedgeCarrier option \<Rightarrow> bool" where
  "best_of cs best \<longleftrightarrow> (case best of None \<Rightarrow> cs = []
     | Some b \<Rightarrow> \<exists>xs ys. cs = xs @ b # ys \<and> (\<forall>x\<in>set xs. preferred b x) \<and> (\<forall>y\<in>set ys. \<not> preferred y b))"

lemma best_of_snoc_better:
  assumes "best_of cs (Some b)" "preferred c b" shows "best_of (cs @ [c]) (Some c)"
proof -
  obtain xs ys where cs: "cs = xs @ b # ys" and "\<forall>x\<in>set xs. preferred b x"
    "\<forall>y\<in>set ys. \<not> preferred y b" using assms(1) by (auto simp: best_of_def)
  moreover have "preferred c y" if "\<not> preferred y b" for y
    using that assms(2) by (auto simp: preferred_def)
  ultimately have "\<forall>x\<in>set cs. preferred c x"
    using assms(2) preferred_trans [OF assms(2)] by auto
  then have "cs @ [c] = cs @ c # [] \<and> (\<forall>x\<in>set cs. preferred c x) \<and> (\<forall>y\<in>set []. \<not> preferred y c)"
    by simp
  then show ?thesis unfolding best_of_def by (simp only: option.case) blast
qed

lemma best_of_snoc_worse:
  assumes "best_of cs (Some b)" "\<not> preferred c b" shows "best_of (cs @ [c]) (Some b)"
proof -
  obtain xs ys where "cs = xs @ b # ys" "\<forall>x\<in>set xs. preferred b x" "\<forall>y\<in>set ys. \<not> preferred y b"
    using assms(1) by (auto simp: best_of_def)
  with assms(2) have "cs @ [c] = xs @ b # (ys @ [c]) \<and> (\<forall>x\<in>set xs. preferred b x) \<and>
      (\<forall>y\<in>set (ys @ [c]). \<not> preferred y b)" by simp
  then show ?thesis unfolding best_of_def by (simp only: option.case) blast
qed

lemma select_loop_best:
  "best_of seen best \<Longrightarrow> best_of (seen @ filter (hedge_admissible ex s) cs) (select_loop ex s cs best)"
proof (induction cs arbitrary: seen best)
  case Nil
  then show ?case by simp
next
  case (Cons c cs)
  show ?case
  proof (cases "hedge_admissible ex s c")
    case False
    with Cons show ?thesis by (auto simp: hedge_admissible_def)
  next
    case True
    then have ok: "hc_ID c \<noteq> ex" "hc_cbState c s \<noteq> CBStateOpen"
      by (simp_all add: hedge_admissible_def)
    show ?thesis
    proof (cases best)
      case None
      with Cons.prems have "best_of (seen @ [c]) (Some c)" by (auto simp: best_of_def Cons_eq_append_conv)
      from Cons.IH [OF this] True ok None show ?thesis by simp
    next
      case (Some b)
      show ?thesis
      proof (cases "preferred c b")
        case p: True
        from Cons.IH [OF best_of_snoc_better [OF Cons.prems [unfolded Some] p]] True ok Some p
        show ?thesis by (auto simp: preferred_def)
      next
        case p: False
        from Cons.IH [OF best_of_snoc_worse [OF Cons.prems [unfolded Some] p]] True ok Some p
        show ?thesis by (auto simp: preferred_def)
      qed
    qed
  qed
qed

lemma selectHedgeCandidate_best:
  "best_of (filter (hedge_admissible ex s) eligible) (selectHedgeCandidate ex eligible s)"
  using select_loop_best [of "[]" None ex s eligible]
  by (simp add: selectHedgeCandidate_def best_of_def)

lemma selectHedgeCandidate_Some:
  assumes "selectHedgeCandidate ex eligible s = Some b"
  shows "b \<in> set eligible" "hc_ID b \<noteq> ex" "hc_cbState b s \<noteq> CBStateOpen"
proof -
  have "b \<in> set (filter (hedge_admissible ex s) eligible)"
    using selectHedgeCandidate_best [of ex s eligible] assms
    by (auto simp: best_of_def simp del: set_filter)
  then show "b \<in> set eligible" "hc_ID b \<noteq> ex" "hc_cbState b s \<noteq> CBStateOpen"
    by (auto simp: hedge_admissible_def)
qed

section \<open>The monitor\<close>

record pendingCarrier =
  pd_startTime :: gotime
  pd_hedgeThreshold :: real

text \<open>
  The monitor's variables: the slots already hedged, whether every slot was resolved in the present
  poll, the hedges fired so far (slot and candidate) and the world the candidates' breakers and
  limiters live in.
\<close>

record 'a monitor =
  m_alreadyHedged :: "string set"
  m_allResolved :: bool
  m_fired :: "(string \<times> 'a world_scheme hedgeCarrier) list"
  m_world :: "'a world_scheme"

definition hedge_visit ::
  "gotime \<Rightarrow> 'a world_scheme hedgeCarrier list \<Rightarrow> string \<times> pendingCarrier \<Rightarrow> 'a monitor \<Rightarrow> 'a monitor" where
  "hedge_visit now eligible slot m =
     (case slot of (carrierID, p) \<Rightarrow>
        if carrierID \<in> m_alreadyHedged m then m
        else let m1 = m\<lparr>m_allResolved := False\<rparr> in
          if duration_ms (time_sub now (pd_startTime p)) < pd_hedgeThreshold p then m1
          else (case selectHedgeCandidate carrierID eligible (m_world m1) of
              None \<Rightarrow> m1
            | Some candidate \<Rightarrow>
                (case hc_tryAcquire candidate (m_world m1) of
                   (False, w) \<Rightarrow> m1\<lparr>m_world := w\<rparr>
                 | (True, w) \<Rightarrow>
                     m1\<lparr>m_alreadyHedged := insert carrierID (m_alreadyHedged m1),
                        m_fired := m_fired m1 @ [(carrierID, candidate)],
                        m_world := emit (RecordHedge (hc_ID candidate) carrierID) w\<rparr>)))"

text \<open>
  One poll ranges over the pending map in an order Go does not fix; \<open>order\<close> is the order taken.
\<close>

definition hedge_poll ::
  "gotime \<Rightarrow> 'a world_scheme hedgeCarrier list \<Rightarrow> (string \<times> pendingCarrier) list \<Rightarrow> 'a monitor \<Rightarrow> 'a monitor" where
  "hedge_poll now eligible order m = fold (hedge_visit now eligible) order (m\<lparr>m_allResolved := True\<rparr>)"

text \<open>
  The ticks that come before the context is done: what the other goroutines did to the world since
  the last one, the time, and the order in which the pending map is visited. The loop ends early
  when every slot is resolved.
\<close>

type_synonym 'a tick = "('a world_scheme \<Rightarrow> 'a world_scheme) \<times> gotime \<times> (string \<times> pendingCarrier) list"

fun hedgeMonitor ::
  "'a world_scheme hedgeCarrier list \<Rightarrow> 'a tick list \<Rightarrow> 'a monitor \<Rightarrow> 'a monitor" where
  "hedgeMonitor eligible [] m = m"
| "hedgeMonitor eligible ((env, now, order) # ticks) m =
     (let m' = hedge_poll now eligible order (m\<lparr>m_world := env (m_world m)\<rparr>)
      in if m_allResolved m' then m' else hedgeMonitor eligible ticks m')"

definition monitor_init :: "'a world_scheme \<Rightarrow> 'a monitor" where
  "monitor_init w = \<lparr>m_alreadyHedged = {}, m_allResolved = False, m_fired = [], m_world = w\<rparr>"

section \<open>What the monitor fires\<close>

definition monitor_inv ::
  "(string \<rightharpoonup> pendingCarrier) \<Rightarrow> 'a world_scheme hedgeCarrier list \<Rightarrow> 'a monitor \<Rightarrow> bool" where
  "monitor_inv pending eligible m \<longleftrightarrow>
     distinct (map fst (m_fired m)) \<and> m_alreadyHedged m = set (map fst (m_fired m)) \<and>
     (\<forall>(i, c) \<in> set (m_fired m). c \<in> set eligible \<and> hc_ID c \<noteq> i \<and>
        (\<exists>p. pending i = Some p \<and> pd_hedgeThreshold p < max_float64))"

lemma max_float64_big: "2 ^ 63 < max_float64"
proof -
  have "(2::real) ^ 63 * 1 < 2 powi 1023 * 1"
    using powi_mono2 [of 64 1023] by simp
  also have "\<dots> \<le> (2 - 2 powi (-52)) * 2 powi 1023"
    by (subst mult.commute, intro mult_right_mono) (simp_all add: power_int_minus)
  finally show ?thesis by (simp add: max_float64_def)
qed

lemma fl_nonpos: "x \<le> 0 \<Longrightarrow> fl x \<le> 0"
  using rne_le_int [of "x / 2 powi quantum x" 0]
  by (simp add: fl_def mult_le_0_iff divide_nonpos_pos)

text \<open>No elapsed time reaches the threshold of a carrier in warm-up.\<close>

lemma duration_ms_below_max: "is_int64 d \<Longrightarrow> duration_ms d < max_float64"
proof -
  assume d: "is_int64 d"
  have ms: "fl 1000000 = 1000000" using fl_of_small_int [of 1000000] by simp
  have "duration_ms d \<le> 2 ^ 63"
  proof (cases "0 \<le> d")
    case True
    have e: "fl (2 ^ 63) = 2 ^ 63" using fl_exact [of 1 63] by simp
    have "real_of_int d \<le> 2 ^ 63"
      using d by (simp add: is_int64_def int64_max_def)
    then have "fl (of_int d) \<le> 2 ^ 63"
      using fl_mono [of "of_int d" "2 ^ 63"] True e by simp
    moreover have "0 \<le> fl (of_int d)" using True by (simp add: fl_nonneg)
    ultimately have "fl (of_int d) / 1000000 \<le> 2 ^ 63" "0 \<le> fl (of_int d) / 1000000" by simp_all
    then have "fl (fl (of_int d) / 1000000) \<le> 2 ^ 63"
      using fl_mono [of "fl (of_int d) / 1000000" "2 ^ 63"] e by simp
    then show ?thesis by (simp add: duration_ms_def f64_defs Millisecond_def ms)
  next
    case False
    then have "fl (of_int d) / 1000000 \<le> 0" by (simp add: fl_nonpos)
    then have "fl (fl (of_int d) / 1000000) \<le> 0" by (rule fl_nonpos)
    then have "duration_ms d \<le> 0" by (simp add: duration_ms_def f64_defs Millisecond_def ms)
    then show ?thesis by (rule order_trans) simp
  qed
  with max_float64_big show ?thesis by linarith
qed

lemma hedge_visit_inv [inv_rules]:
  assumes "monitor_inv pending eligible m" "pending i = Some p"
  shows "monitor_inv pending eligible (hedge_visit now eligible (i, p) m)"
proof (cases "i \<in> m_alreadyHedged m \<or> duration_ms (time_sub now (pd_startTime p)) < pd_hedgeThreshold p")
  case True
  with assms show ?thesis by (auto simp: hedge_visit_def monitor_inv_def Let_def)
next
  case False
  then have th: "pd_hedgeThreshold p < max_float64"
    using duration_ms_below_max [OF is_int64_time_sub, of now "pd_startTime p"] by linarith
  let ?sel = "selectHedgeCandidate i eligible (m_world m)"
  show ?thesis
  proof (cases ?sel)
    case None
    with False assms show ?thesis by (simp add: hedge_visit_def monitor_inv_def Let_def)
  next
    case (Some c)
    obtain ok w where t: "hc_tryAcquire c (m_world m) = (ok, w)" by fastforce
    note sel = selectHedgeCandidate_Some [OF Some]
    from False Some t th sel assms show ?thesis
      by (cases ok) (auto simp: hedge_visit_def monitor_inv_def Let_def)
  qed
qed

lemma hedge_poll_inv [inv_rules]:
  assumes "monitor_inv pending eligible m" "\<forall>(i, p) \<in> set order. pending i = Some p"
  shows "monitor_inv pending eligible (hedge_poll now eligible order m)"
proof -
  have "monitor_inv pending eligible m' \<Longrightarrow> \<forall>(i, p) \<in> set order. pending i = Some p \<Longrightarrow>
      monitor_inv pending eligible (fold (hedge_visit now eligible) order m')" for m'
  proof (induction order arbitrary: m')
    case (Cons slot order)
    obtain i p where "slot = (i, p)" by fastforce
    with Cons hedge_visit_inv [of pending eligible m' i p now] show ?case by simp
  qed simp
  moreover have "monitor_inv pending eligible (m\<lparr>m_allResolved := True\<rparr>)"
    using assms(1) by (simp add: monitor_inv_def)
  ultimately show ?thesis using assms(2) by (simp add: hedge_poll_def)
qed

lemma hedgeMonitor_inv:
  "monitor_inv pending eligible m \<Longrightarrow>
   \<forall>(env, now, order) \<in> set ticks. \<forall>(i, p) \<in> set order. pending i = Some p \<Longrightarrow>
   monitor_inv pending eligible (hedgeMonitor eligible ticks m)"
proof (induction eligible ticks m rule: hedgeMonitor.induct)
  case (2 eligible env now order ticks m)
  have "monitor_inv pending eligible (m\<lparr>m_world := env (m_world m)\<rparr>)"
    using "2.prems"(1) by (simp add: monitor_inv_def)
  then have "monitor_inv pending eligible
      (hedge_poll now eligible order (m\<lparr>m_world := env (m_world m)\<rparr>))"
    using "2.prems"(2) by (intro hedge_poll_inv) auto
  with "2.IH" [OF refl] "2.prems"(2) show ?case by (simp add: Let_def)
qed simp

lemma monitor_inv_init: "monitor_inv pending eligible (monitor_init w)"
  by (simp add: monitor_inv_def monitor_init_def)

section \<open>Concurrent recording\<close>

text \<open>
  \<open>Record\<close> retries a compare-and-swap on the pointer to the state. Each stored state is a fresh
  object and a goroutine keeps the object it loaded alive, so a pointer stands for one stored
  version: \<open>e_ver\<close> counts them. \<open>e_done\<close> is a ghost: the latencies in commit order.
\<close>

datatype ema_pc =
    EIdle
  | ELoad duration
  | ECas duration nat emaState
  | EEmit real

record ema_sys =
  e_ver :: nat
  e_state :: emaState
  e_pc :: "nat \<Rightarrow> ema_pc"
  e_done :: "duration list"
  e_log :: "metric_event list"

inductive ema_step :: "string \<Rightarrow> real \<Rightarrow> ema_sys \<Rightarrow> ema_sys \<Rightarrow> bool" for c alpha where
  call: "e_pc s i = EIdle \<Longrightarrow> ema_step c alpha s (s\<lparr>e_pc := (e_pc s)(i := ELoad d)\<rparr>)"
| load: "e_pc s i = ELoad d \<Longrightarrow> ema_step c alpha s
    (s\<lparr>e_pc := (e_pc s)(i := ECas d (e_ver s) (ema_next alpha d (e_state s)))\<rparr>)"
| swap: "e_pc s i = ECas d v nx \<Longrightarrow> v = e_ver s \<Longrightarrow> ema_step c alpha s
    (s\<lparr>e_ver := Suc (e_ver s), e_state := nx, e_done := e_done s @ [d],
       e_pc := (e_pc s)(i := EEmit (p95 nx))\<rparr>)"
| retry: "e_pc s i = ECas d v nx \<Longrightarrow> v \<noteq> e_ver s \<Longrightarrow> ema_step c alpha s
    (s\<lparr>e_pc := (e_pc s)(i := ELoad d)\<rparr>)"
| emit_gauge: "e_pc s i = EEmit x \<Longrightarrow> ema_step c alpha s
    (s\<lparr>e_pc := (e_pc s)(i := EIdle), e_log := e_log s @ [SetP95Latency c x]\<rparr>)"

definition ema_init :: "EMATracker \<Rightarrow> ema_sys" where
  "ema_init t = \<lparr>e_ver = 0, e_state = t_state t, e_pc = (\<lambda>_. EIdle), e_done = [], e_log = []\<rparr>"

definition record_all :: "real \<Rightarrow> duration list \<Rightarrow> emaState \<Rightarrow> emaState" where
  "record_all alpha ds s = fold (ema_next alpha) ds s"

definition ema_inv :: "EMATracker \<Rightarrow> ema_sys \<Rightarrow> bool" where
  "ema_inv t s \<longleftrightarrow> e_state s = record_all (t_alpha t) (e_done s) (t_state t) \<and>
     (\<forall>i d v nx. e_pc s i = ECas d v nx \<longrightarrow>
        v \<le> e_ver s \<and> (v = e_ver s \<longrightarrow> nx = ema_next (t_alpha t) d (e_state s)))"

lemma ema_step_inv [inv_rules]:
  "ema_step c (t_alpha t) s s' \<Longrightarrow> ema_inv t s \<Longrightarrow> ema_inv t s'"
proof (induction rule: ema_step.induct)
  case (swap s i d v nx)
  have "nx = ema_next (t_alpha t) d (e_state s)"
    using swap(3) [unfolded ema_inv_def, THEN conjunct2, rule_format, OF swap(1)] swap(2) by simp
  then have "nx = ema_next (t_alpha t) d (record_all (t_alpha t) (e_done s) (t_state t))"
    using swap(3) by (simp add: ema_inv_def)
  then have "nx = record_all (t_alpha t) (e_done s @ [d]) (t_state t)"
    by (simp add: record_all_def)
  moreover have "v' \<le> Suc (e_ver s) \<and> v' \<noteq> Suc (e_ver s)" if "e_pc s j = ECas d' v' nx'" for j d' v' nx'
    using swap(3) [unfolded ema_inv_def, THEN conjunct2, rule_format, OF that] by simp
  ultimately show ?case by (simp add: ema_inv_def)
qed (auto simp: ema_inv_def)

lemma ema_reachable_inv:
  "(ema_step c (t_alpha t))\<^sup>*\<^sup>* (ema_init t) s \<Longrightarrow> ema_inv t s"
  by (induction rule: rtranclp_induct)
    (simp add: ema_inv_def ema_init_def record_all_def, rule ema_step_inv)

lemma record_all_observations:
  "observations (record_all alpha ds s) = observations s + int (length ds)"
  by (induction ds arbitrary: s) (simp_all add: record_all_def ema_next_def)

section \<open>Properties\<close>

text \<open>C34. The hedge candidate is the best one: none is chosen exactly when no carrier other than
  the slow one has a circuit that is not open; otherwise the chosen carrier is such a carrier, every
  admissible carrier before it in the list is strictly worse (a higher average, or the same average
  and a higher priority number), and none after it is strictly better.\<close>

theorem hedge_candidate_is_best:
  "case selectHedgeCandidate ex eligible s of
     None \<Rightarrow> filter (\<lambda>c. hc_ID c \<noteq> ex \<and> hc_cbState c s \<noteq> CBStateOpen) eligible = []
   | Some b \<Rightarrow> \<exists>xs ys. filter (\<lambda>c. hc_ID c \<noteq> ex \<and> hc_cbState c s \<noteq> CBStateOpen) eligible = xs @ b # ys \<and>
       list_all (preferred b) xs \<and> list_all (\<lambda>y. \<not> preferred y b) ys"
proof -
  have "hedge_admissible ex s = (\<lambda>c. hc_ID c \<noteq> ex \<and> hc_cbState c s \<noteq> CBStateOpen)"
    by (rule ext) (simp add: hedge_admissible_def)
  with selectHedgeCandidate_best [of ex s eligible] show ?thesis
    by (simp add: best_of_def list_all_iff split: option.splits)
qed

definition carrier_named :: "string \<Rightarrow> Carrier" where
  "carrier_named i = \<lparr>c_ID = i, c_Code = [], c_Name = [], c_IsActive = True, c_Capabilities = [],
     c_Config = zero_config\<rparr>"

definition hedge_example :: "string \<Rightarrow> real \<Rightarrow> world hedgeCarrier" where
  "hedge_example i ms = \<lparr>hc_carrier = carrier_named i, hc_p95Ms = ms,
     hc_tryAcquire = (\<lambda>w. (True, w)), hc_cbState = (\<lambda>w. CBStateClosed)\<rparr>"

definition pending_example :: pendingCarrier where
  "pending_example = \<lparr>pd_startTime = 0, pd_hedgeThreshold = 0\<rparr>"

definition world_example :: world where
  "world_example = \<lparr>w_now = 0, w_metrics = []\<rparr>"

lemmas hedge_example_defs = hedge_example_def carrier_named_def pending_example_def world_example_def

text \<open>C20. Over all polls of one request, whatever the other goroutines do and in whatever order the
  pending map is visited, at most one hedge is fired per slot, so no more hedges than pending slots;
  each goes to an eligible carrier other than the slow one and belongs to a pending slot with a finite
  threshold.\<close>

theorem at_most_one_hedge_per_slot:
  assumes "finite (dom pending)"
    and "\<forall>(env, now, order) \<in> set ticks. \<forall>(i, p) \<in> set order. pending i = Some p"
    and "m = hedgeMonitor eligible ticks (monitor_init w)"
  shows "distinct (map fst (m_fired m)) \<and> length (m_fired m) \<le> card (dom pending) \<and>
    (\<forall>(i, c) \<in> set (m_fired m). c \<in> set eligible \<and> hc_ID c \<noteq> i \<and> i \<in> dom pending)"
proof -
  have inv: "monitor_inv pending eligible m"
    using hedgeMonitor_inv [OF monitor_inv_init assms(2)] assms(3) by simp
  then have d: "distinct (map fst (m_fired m))" and sub: "set (map fst (m_fired m)) \<subseteq> dom pending"
    by (auto simp: monitor_inv_def)
  have "length (m_fired m) = card (set (map fst (m_fired m)))"
    using distinct_card [OF d] by simp
  also have "\<dots> \<le> card (dom pending)" using assms(1) sub by (rule card_mono)
  finally show ?thesis using inv by (auto simp: monitor_inv_def)
qed

lemma hedge_example_run:
  "map (\<lambda>(i, c). (i, hc_ID c)) (m_fired (hedgeMonitor [hedge_example ''alpha'' 9, hedge_example ''beta'' 5]
      [(id, 7, [(''alpha'', pending_example)])] (monitor_init world_example))) = [(''alpha'', ''beta'')]"
proof -
  have "\<not> duration_ms 7 < 0" using duration_ms_nonneg [of 7] by simp
  then show ?thesis
    by (simp add: hedge_poll_def hedge_visit_def monitor_init_def selectHedgeCandidate_def
        hedge_example_defs time_sub_def int64_min_def int64_max_def Let_def)
qed

theorem at_most_one_hedge_per_slot_witness:
  "\<exists>fired :: (string \<times> world hedgeCarrier) list. map (\<lambda>(i, c). (i, hc_ID c)) fired = [(''alpha'', ''beta'')] \<and>
    distinct (map fst fired) \<and> length fired \<le> card (dom [''alpha'' \<mapsto> pending_example])"
proof -
  let ?P = "[''alpha'' \<mapsto> pending_example]"
  let ?ticks = "[(id, 7, [(''alpha'', pending_example)])] :: unit tick list"
  let ?f = "m_fired (hedgeMonitor [hedge_example ''alpha'' 9, hedge_example ''beta'' 5] ?ticks
      (monitor_init world_example))"
  have "finite (dom ?P)" by simp
  moreover have "\<forall>(env, now, order) \<in> set ?ticks. \<forall>(i, p) \<in> set order. ?P i = Some p" by simp
  ultimately have "distinct (map fst ?f) \<and> length ?f \<le> card (dom ?P)"
    using at_most_one_hedge_per_slot [of ?P ?ticks, OF _ _ refl] by blast
  with hedge_example_run show ?thesis by - (rule exI [of _ ?f], blast)
qed

text \<open>No hedge in warm-up: a slot whose threshold was taken from a tracker with fewer than
  \<open>EMAWarmupObservations\<close> observations is never hedged, however long its carrier takes.\<close>

theorem no_hedge_during_warmup:
  assumes "observations (t_state t) < t_warmup t"
    and "pending i = Some \<lparr>pd_startTime = t0, pd_hedgeThreshold = HedgeThreshold t\<rparr>"
    and "\<forall>(env, now, order) \<in> set ticks. \<forall>(j, p) \<in> set order. pending j = Some p"
  shows "i \<notin> fst ` set (m_fired (hedgeMonitor eligible ticks (monitor_init w)))"
proof
  assume "i \<in> fst ` set (m_fired (hedgeMonitor eligible ticks (monitor_init w)))"
  with hedgeMonitor_inv [OF monitor_inv_init assms(3), of eligible w] assms(2)
  have "HedgeThreshold t < max_float64" by (auto simp: monitor_inv_def)
  with assms(1) show False by (simp add: HedgeThreshold_def)
qed

theorem no_hedge_during_warmup_witness:
  "\<exists>t :: EMATracker. ''alpha'' \<notin> fst ` set (m_fired (hedgeMonitor [hedge_example ''beta'' 5]
     [(id, 10 ^ 18, [(''alpha'', \<lparr>pd_startTime = 0, pd_hedgeThreshold = HedgeThreshold t\<rparr>)])]
     (monitor_init world_example)))"
proof
  let ?t = "NewEMATracker ''alpha'' 0 (zero_config\<lparr>cc_EMAWarmupObservations := 10\<rparr>)"
  show "''alpha'' \<notin> fst ` set (m_fired (hedgeMonitor [hedge_example ''beta'' 5]
     [(id, 10 ^ 18, [(''alpha'', \<lparr>pd_startTime = 0, pd_hedgeThreshold = HedgeThreshold ?t\<rparr>)])]
     (monitor_init world_example)))"
    by (rule no_hedge_during_warmup [of ?t "[''alpha'' \<mapsto> \<lparr>pd_startTime = 0, pd_hedgeThreshold = HedgeThreshold ?t\<rparr>]" _ 0])
      (simp_all add: NewEMATracker_def)
qed

text \<open>C35. The average is a damped mean in floating point: recording a latency keeps the smoothing
  factor strictly between 0 and 1 and the average non-negative, and moves it to at most the larger of
  the old average and the latency in milliseconds, up to a relative rounding error of \<open>2 powi -50\<close>.\<close>

theorem recorded_average_bounded:
  assumes "tracker_ok t" and "0 \<le> latency"
    and "P95 t \<le> M" and "duration_ms latency \<le> M"
  shows "tracker_ok (fst (Record t latency w)) \<and>
    0 \<le> P95 (fst (Record t latency w)) \<and>
    P95 (fst (Record t latency w)) \<le> M * (1 + 2 powi (-50)) + 2 powi (-1073)"
  using assms tracker_ok_Record [OF assms(1,2), of w]
    ema_next_upper [of "t_alpha t" latency "t_state t" M]
  by (simp add: tracker_ok_def Record_def P95_def Let_def)

theorem recorded_average_bounded_witness:
  "\<exists>t :: EMATracker. P95 (fst (Record t 5000000 world_example)) \<le> 400 * (1 + 2 powi (-50)) + 2 powi (-1073)"
proof
  let ?t = "NewEMATracker ''alpha'' (200 * Millisecond) zero_config"
  have f: "fl 200 = 200" "fl 400 = 400" "fl 5000000 = 5000000" "fl 1000000 = 1000000" "fl 5 = 5"
    using fl_of_small_int [of 200] fl_of_small_int [of 400] fl_of_small_int [of 5000000]
      fl_of_small_int [of 1000000] fl_of_small_int [of 5] by simp_all
  have p: "P95 ?t = 400"
    by (simp add: P95_def NewEMATracker_def f64_defs milliseconds_def godiv_def Millisecond_def f)
  have d: "duration_ms 5000000 = 5"
    by (simp add: duration_ms_def f64_defs Millisecond_def f)
  show "P95 (fst (Record ?t 5000000 world_example)) \<le> 400 * (1 + 2 powi (-50)) + 2 powi (-1073)"
    using recorded_average_bounded [of ?t 5000000 400 world_example] p d
      tracker_ok_New [of "200 * Millisecond" "''alpha''" zero_config]
    by (simp add: Millisecond_def)
qed



end
