(* ===== verification/RF_Context.thy ===== *)
theory RF_Context
  imports RF_Ports
begin

text \<open>
  Go's \<open>context.Context\<close> and the \<open>select\<close> on \<open>ctx.Done()\<close> and a timer, as the
  program uses them. A context is described by the instant from which it is done (\<open>None\<close>:
  never) and by what \<open>ctx.Err()\<close> returns from then on; the instant of a cancellation that
  another goroutine decides is part of the environment a theorem quantifies over.
\<close>

record ctx =
  ctx_done_at :: "gotime option"
  ctx_err :: go_error

definition ctx_done :: "ctx \<Rightarrow> gotime \<Rightarrow> bool" where
  "ctx_done c t \<longleftrightarrow> (case ctx_done_at c of None \<Rightarrow> False | Some d \<Rightarrow> d \<le> t)"

definition ctx_ok :: "ctx \<Rightarrow> bool" where
  "ctx_ok c \<longleftrightarrow> ctx_err c = ContextCanceled \<or> ctx_err c = ContextDeadlineExceeded"

lemma ctx_done_mono: "ctx_done c t \<Longrightarrow> t \<le> t' \<Longrightarrow> ctx_done c t'"
  by (auto simp: ctx_done_def split: option.splits)

section \<open>Derived contexts\<close>

definition WithTimeout :: "ctx \<Rightarrow> gotime \<Rightarrow> duration \<Rightarrow> ctx" where
  "WithTimeout parent now d =
     (case ctx_done_at parent of
        Some t \<Rightarrow> if t \<le> now + d then parent
                  else \<lparr>ctx_done_at = Some (now + d), ctx_err = ContextDeadlineExceeded\<rparr>
      | None \<Rightarrow> \<lparr>ctx_done_at = Some (now + d), ctx_err = ContextDeadlineExceeded\<rparr>)"

definition Background :: ctx where
  "Background = \<lparr>ctx_done_at = None, ctx_err = ContextCanceled\<rparr>"

definition WithoutCancel :: "ctx \<Rightarrow> ctx" where
  "WithoutCancel parent = Background"

lemma ctx_ok_Background [simp]: "ctx_ok Background"
  by (simp add: ctx_ok_def Background_def)

lemma ctx_ok_WithTimeout [simp]: "ctx_ok c \<Longrightarrow> ctx_ok (WithTimeout c now d)"
  by (simp add: ctx_ok_def WithTimeout_def split: option.splits)

lemma WithTimeout_done_at:
  "\<exists>t. ctx_done_at (WithTimeout c now d) = Some t \<and> t \<le> now + d \<and>
     (ctx_done_at c = None \<longrightarrow> t = now + d) \<and> (\<forall>t'. ctx_done_at c = Some t' \<longrightarrow> t = min t' (now + d))"
  by (auto simp: WithTimeout_def min_def split: option.splits)

lemma WithTimeout_done: "ctx_done (WithTimeout c now d) (now + d)"
  using WithTimeout_done_at [of c now d] by (auto simp: ctx_done_def)

lemma WithTimeout_parent_done: "ctx_done c t \<Longrightarrow> ctx_done (WithTimeout c now d) t"
  by (auto simp: ctx_done_def WithTimeout_def split: option.splits)

section \<open>Waiting for a timer or the end of a context\<close>

text \<open>
  \<open>select { case <-ctx.Done(): ... case <-timer.C: ... }\<close> entered at \<open>now\<close> with a timer of
  length \<open>d\<close> (a timer of a negative length fires at once). The result says whether the context
  won, and when. If both are ready at the same instant Go picks either; \<open>tie\<close> is its choice.
\<close>

definition select_timer :: "bool \<Rightarrow> ctx \<Rightarrow> duration \<Rightarrow> gotime \<Rightarrow> bool \<times> gotime" where
  "select_timer tie c d now =
     (let fire = now + max 0 d in
      case ctx_done_at c of
        None \<Rightarrow> (False, fire)
      | Some t \<Rightarrow> (let dn = max now t in
          if dn < fire then (True, dn) else if fire < dn then (False, fire) else (tie, fire)))"

lemma select_timer_now_le: "select_timer tie c d now = (b, t) \<Longrightarrow> now \<le> t"
  by (auto simp: select_timer_def Let_def split: option.splits if_splits)

lemma select_timer_cancelled:
  "select_timer tie c d now = (True, t) \<Longrightarrow> ctx_done c t \<and> t \<le> now + max 0 d"
  by (auto simp: select_timer_def Let_def ctx_done_def split: option.splits if_splits)

lemma select_timer_fired: "select_timer tie c d now = (False, t) \<Longrightarrow> t = now + max 0 d"
  by (auto simp: select_timer_def Let_def split: option.splits if_splits)

lemma select_timer_in_time:
  "\<not> ctx_done c (now + max 0 d) \<Longrightarrow> select_timer tie c d now = (False, now + max 0 d)"
  by (auto simp: select_timer_def Let_def ctx_done_def split: option.splits if_splits)

lemma select_timer_by_deadline:
  "select_timer tie c d now = (b, t) \<Longrightarrow> ctx_done_at c = Some u \<Longrightarrow> now \<le> u \<Longrightarrow> t \<le> u"
  by (auto simp: select_timer_def Let_def split: if_splits)

end
