(* ===== verification/RF_Rate_Limiter.thy ===== *)
theory RF_Rate_Limiter
  imports RF_Context
begin

text \<open>
  The per-carrier limiter of \<open>internal/ratelimiter/limiter.go\<close>. The token bucket itself is
  \<open>golang.org/x/time/rate\<close>, which is not part of the repository: its state type \<open>'l\<close> and
  its operations \<open>Wait\<close> and \<open>Allow\<close> are parameters. \<open>Wait\<close> lets some time pass
  (the second component of its result) and returns an error when the context ends first; \<open>Allow\<close> takes a token if one is there.
\<close>

record 'l limiter =
  l_inner :: 'l
  l_carrierID :: string

type_synonym 'l rate_wait = "ctx \<Rightarrow> gotime \<Rightarrow> 'l \<Rightarrow> go_error option \<times> nat \<times> 'l"
type_synonym 'l rate_allow = "gotime \<Rightarrow> 'l \<Rightarrow> bool \<times> 'l"

definition New_limiter :: "(real \<Rightarrow> int \<Rightarrow> 'l) \<Rightarrow> string \<Rightarrow> RateLimitConfig \<Rightarrow> 'l limiter" where
  "New_limiter newLimiter carrierID cfg =
     \<lparr>l_inner = newLimiter (TokensPerSecond cfg) (Burst cfg), l_carrierID = carrierID\<rparr>"

definition Wait_limiter ::
  "'l rate_wait \<Rightarrow> ctx \<Rightarrow> 'l limiter \<Rightarrow> 'a world_scheme \<Rightarrow> go_error option \<times> 'l limiter \<times> 'a world_scheme" where
  "Wait_limiter rwait c l w =
     (case rwait c (w_now w) (l_inner l) of
        (None, t, inner) \<Rightarrow> (None, l\<lparr>l_inner := inner\<rparr>, w\<lparr>w_now := w_now w + int t\<rparr>)
      | (Some err, t, inner) \<Rightarrow>
          (if errors_is err ContextCanceled \<or> errors_is err ContextDeadlineExceeded
           then (Some ErrRateLimitExceeded, l\<lparr>l_inner := inner\<rparr>,
                 emit (RecordRateLimitRejection (l_carrierID l)) (w\<lparr>w_now := w_now w + int t\<rparr>))
           else (Some err, l\<lparr>l_inner := inner\<rparr>, w\<lparr>w_now := w_now w + int t\<rparr>)))"

definition TryAcquire ::
  "'l rate_allow \<Rightarrow> gotime \<Rightarrow> 'l limiter \<Rightarrow> bool \<times> 'l limiter" where
  "TryAcquire allow t l = (case allow t (l_inner l) of (ok, inner) \<Rightarrow> (ok, l\<lparr>l_inner := inner\<rparr>))"

section \<open>What the two operations do\<close>

fun rejections :: "string \<Rightarrow> metric_event list \<Rightarrow> nat" where
  "rejections c [] = 0"
| "rejections c (RecordRateLimitRejection c' # es) = (if c' = c then 1 else 0) + rejections c es"
| "rejections c (e # es) = rejections c es"

lemma rejections_append [simp]: "rejections c (es @ fs) = rejections c es + rejections c fs"
proof (induction es)
  case (Cons e es)
  then show ?case by (cases e) simp_all
qed simp

lemma Wait_limiter_cases:
  assumes "Wait_limiter rwait c l w = (r, l', w')"
  obtains (token) t inner where "rwait c (w_now w) (l_inner l) = (None, t, inner)" "r = None"
      "w' = w\<lparr>w_now := w_now w + int t\<rparr>" "l' = l\<lparr>l_inner := inner\<rparr>"
  | (context_error) e t inner where "rwait c (w_now w) (l_inner l) = (Some e, t, inner)"
      "errors_is e ContextCanceled \<or> errors_is e ContextDeadlineExceeded"
      "r = Some ErrRateLimitExceeded" "l' = l\<lparr>l_inner := inner\<rparr>"
      "w' = emit (RecordRateLimitRejection (l_carrierID l)) (w\<lparr>w_now := w_now w + int t\<rparr>)"
  | (other_error) e t inner where "rwait c (w_now w) (l_inner l) = (Some e, t, inner)"
      "\<not> errors_is e ContextCanceled" "\<not> errors_is e ContextDeadlineExceeded"
      "r = Some e" "l' = l\<lparr>l_inner := inner\<rparr>" "w' = w\<lparr>w_now := w_now w + int t\<rparr>"
proof -
  obtain e t inner where i: "rwait c (w_now w) (l_inner l) = (e, t, inner)" by (metis prod_cases3)
  show ?thesis
  proof (cases e)
    case None
    with i assms show ?thesis by (intro token [of t inner]) (simp_all add: Wait_limiter_def)
  next
    case (Some x)
    with i assms show ?thesis
      by (cases "errors_is x ContextCanceled \<or> errors_is x ContextDeadlineExceeded")
        (auto simp: Wait_limiter_def intro: context_error [of x t inner] other_error [of x t inner])
  qed
qed

lemma Wait_limiter_carrierID: "Wait_limiter rwait c l w = (r, l', w') \<Longrightarrow> l_carrierID l' = l_carrierID l"
  by (erule Wait_limiter_cases) simp_all

end
