(* ===== verification/RF_Adapters.thy ===== *)
theory RF_Adapters
  imports RF_Context
begin

text \<open>
  The carrier adapters of \<open>internal/adapter\<close>: the type-erased pipeline and the registry
  (\<open>adapter.go\<close>), the simulated carriers (\<open>mock_carrier.go\<close>), the HTTP client with
  retries (\<open>http_carrier.go\<close>) and the adapter for Delta Insurance (\<open>delta_carrier.go\<close>).
  The network, JSON coding and the random draws are parameters. What the orchestrator relies on is
  the locale \<open>carrier_adapter\<close>, interpreted for both kinds of carrier, and its extension \<open>timely_adapter\<close>.
\<close>

section \<open>The type-erased pipeline and the registry\<close>

type_synonym ('x, 'a) fallible = "'a world_scheme \<Rightarrow> (go_error + 'x) \<times> 'a world_scheme"
type_synonym 'a AdapterFunc = "ctx \<Rightarrow> QuoteRequest \<Rightarrow> (QuoteResult, 'a) fallible"

record ('req, 'resp, 'a) Adapter =
  ToCarrierRequest :: "ctx \<Rightarrow> QuoteRequest \<Rightarrow> ('req, 'a) fallible"
  FromCarrierResponse :: "ctx \<Rightarrow> 'resp \<Rightarrow> string \<Rightarrow> (QuoteResult, 'a) fallible"

definition Register ::
  "('req, 'resp, 'a) Adapter \<Rightarrow> (ctx \<Rightarrow> 'req \<Rightarrow> ('resp, 'a) fallible) \<Rightarrow> string \<Rightarrow> 'a AdapterFunc" where
  "Register a call carrierID c req w =
     (case ToCarrierRequest a c req w of
        (Inl err, w1) \<Rightarrow> (Inl err, w1)
      | (Inr nativeReq, w1) \<Rightarrow>
          (case call c nativeReq w1 of
             (Inl err, w2) \<Rightarrow> (Inl err, w2)
           | (Inr nativeResp, w2) \<Rightarrow> FromCarrierResponse a c nativeResp carrierID w2))"

type_synonym 'a Registry = "string \<rightharpoonup> 'a AdapterFunc"

definition NewRegistry :: "'a Registry" where
  "NewRegistry = Map.empty"

definition Registry_Register :: "'a Registry \<Rightarrow> string \<Rightarrow> 'a AdapterFunc \<Rightarrow> 'a Registry" where
  "Registry_Register r carrierID fn = r(carrierID \<mapsto> fn)"

definition Registry_Get :: "'a Registry \<Rightarrow> string \<Rightarrow> 'a AdapterFunc option" where
  "Registry_Get r carrierID = r carrierID"

lemma Registry_simps [simp]:
  "Registry_Get NewRegistry i = None"
  "Registry_Get (Registry_Register r j fn) i = (if i = j then Some fn else Registry_Get r i)"
  by (simp_all add: Registry_Get_def Registry_Register_def NewRegistry_def)

text \<open>
  What the orchestrator may rely on: a quote carries the identifier the adapter was registered
  under, is in US dollars, expires in the future, leaves the request's identifier and the hedge flag
  for the orchestrator to fill in, and a call changes nothing but the clock.
\<close>

locale carrier_adapter =
  fixes f :: "'a AdapterFunc" and carrierID :: string
  assumes stamped: "f c q w = (Inr r, w') \<Longrightarrow> res_CarrierID r = carrierID"
    and dollars: "f c q w = (Inr r, w') \<Longrightarrow> Currency (res_Premium r) = ''USD''"
    and unexpired: "f c q w = (Inr r, w') \<Longrightarrow> w_now w' < res_ExpiresAt r"
    and unfilled: "f c q w = (Inr r, w') \<Longrightarrow> res_RequestID r = [] \<and> res_Latency r = 0 \<and> \<not> res_IsHedged r"
    and only_time: "snd (f c q w) = w\<lparr>w_now := w_now (snd (f c q w))\<rparr>"
    and time_passes: "w_now w \<le> w_now (snd (f c q w))"
begin

lemma call_cases:
  obtains (failed) e d where "f c q w = (Inl e, w\<lparr>w_now := w_now w + int d\<rparr>)"
  | (quoted) r d where "f c q w = (Inr r, w\<lparr>w_now := w_now w + int d\<rparr>)"
      "res_CarrierID r = carrierID" "Currency (res_Premium r) = ''USD''"
      "w_now w + int d < res_ExpiresAt r"
proof -
  obtain x w' where f: "f c q w = (x, w')" by fastforce
  define d where "d = nat (w_now w' - w_now w)"
  have "w_now w' = w_now w + int d" using time_passes [of w c q] f by (simp add: d_def)
  then have w': "w' = w\<lparr>w_now := w_now w + int d\<rparr>" using only_time [of c q w] f by simp
  show ?thesis
  proof (cases x)
    case (Inl e)
    with f w' show ?thesis by (intro failed) simp
  next
    case (Inr r)
    with f have "f c q w = (Inr r, w')" by simp
    with w' stamped [OF this] dollars [OF this] unexpired [OF this] show ?thesis
      by (intro quoted [of r d]) simp_all
  qed
qed

end

text \<open>Adapters that also return by the deadline of the context they are called with.\<close>

locale timely_adapter = carrier_adapter +
  assumes heeds_deadline: "ctx_done_at c = Some d \<Longrightarrow> w_now w \<le> d \<Longrightarrow> w_now (snd (f c q w)) \<le> d"
begin

lemma duration_bounded:
  assumes "ctx_done_at c = Some d" and "w_now w \<le> d" and "f c q w = (x, w')"
  shows "w_now w \<le> w_now w' \<and> w_now w' \<le> d"
  using heeds_deadline [OF assms(1,2), of q] time_passes [of w c q] assms(3) by simp

end

section \<open>Simulated carriers\<close>

record MockRequest =
  mq_RequestID :: string
  mq_CoverageLines :: "string list"

record MockResponse =
  mr_CarrierID :: string
  mr_PremiumCents :: int
  mr_ExpiresInSeconds :: int

record MockConfig =
  mc_BaseLatency :: duration
  mc_JitterMs :: int
  mc_FailureRate :: real

record MockCarrier =
  m_id :: string
  m_cfg :: MockConfig

definition NewAlpha :: MockCarrier where
  "NewAlpha = \<lparr>m_id = ''alpha'', m_cfg = \<lparr>mc_BaseLatency = 50 * Millisecond, mc_JitterMs = 10,
     mc_FailureRate = 0\<rparr>\<rparr>"

definition NewBeta :: MockCarrier where
  "NewBeta = \<lparr>m_id = ''beta'', m_cfg = \<lparr>mc_BaseLatency = 200 * Millisecond, mc_JitterMs = 20,
     mc_FailureRate = fl (1 / 10)\<rparr>\<rparr>"

definition NewGamma :: MockCarrier where
  "NewGamma = \<lparr>m_id = ''gamma'', m_cfg = \<lparr>mc_BaseLatency = 800 * Millisecond, mc_JitterMs = 50,
     mc_FailureRate = 0\<rparr>\<rparr>"

text \<open>
  The random draws of one call, and what \<open>math/rand\<close> promises of them: \<open>Intn(n)\<close> is in
  \<open>[0, n)\<close> and \<open>Float64()\<close> in \<open>[0, 1)\<close>. \<open>d_tie\<close> is the \<open>select\<close>'s choice.
\<close>

record draws =
  d_jitter :: int
  d_fail :: real
  d_premium :: int
  d_tie :: bool

definition draws_ok :: "MockCarrier \<Rightarrow> draws \<Rightarrow> bool" where
  "draws_ok m d \<longleftrightarrow> 0 \<le> d_jitter d \<and> d_jitter d < mc_JitterMs (m_cfg m) * 2 + 1 \<and>
     0 \<le> d_fail d \<and> d_fail d < 1 \<and> 0 \<le> d_premium d \<and> d_premium d < 50000"

definition mock_latency :: "MockCarrier \<Rightarrow> draws \<Rightarrow> duration" where
  "mock_latency m d =
     (let jitterMs = (if mc_JitterMs (m_cfg m) > 0 then d_jitter d - mc_JitterMs (m_cfg m) else 0);
          latency = wrap64 (mc_BaseLatency (m_cfg m) + wrap64 (jitterMs * Millisecond))
      in if latency < 0 then 0 else latency)"

definition MockCarrier_Call :: "MockCarrier \<Rightarrow> draws \<Rightarrow> ctx \<Rightarrow> MockRequest \<Rightarrow> (MockResponse, 'a) fallible" where
  "MockCarrier_Call m d c req w =
     (case select_timer (d_tie d) c (mock_latency m d) (w_now w) of
        (True, t) \<Rightarrow> (Inl (ctx_err c), w\<lparr>w_now := t\<rparr>)
      | (False, t) \<Rightarrow>
          (if mc_FailureRate (m_cfg m) > 0 \<and> d_fail d < mc_FailureRate (m_cfg m)
           then (Inl ErrCarrierUnavailable, w\<lparr>w_now := t\<rparr>)
           else (Inr \<lparr>mr_CarrierID = m_id m,
                      mr_PremiumCents = wrap64 (int (length (m_id m)) * 10000 + d_premium d),
                      mr_ExpiresInSeconds = 300\<rparr>, w\<lparr>w_now := t\<rparr>)))"

definition mockAdapter :: "(MockRequest, MockResponse, 'a) Adapter" where
  "mockAdapter = \<lparr>
     ToCarrierRequest = (\<lambda>c q w.
       (Inr \<lparr>mq_RequestID = req_RequestID q, mq_CoverageLines = req_CoverageLines q\<rparr>, w)),
     FromCarrierResponse = (\<lambda>c r carrierID w.
       (Inr \<lparr>res_RequestID = [], res_CarrierID = carrierID,
             res_Premium = \<lparr>Amount = mr_PremiumCents r, Currency = ''USD''\<rparr>,
             res_ExpiresAt = w_now w + wrap64 (mr_ExpiresInSeconds r * Second),
             res_CarrierRef = [], res_Latency = 0, res_IsHedged = False\<rparr>, w))\<rparr>"

definition RegisterMockCarrier :: "MockCarrier \<Rightarrow> draws \<Rightarrow> 'a AdapterFunc" where
  "RegisterMockCarrier m d = Register mockAdapter (MockCarrier_Call m d) (m_id m)"

lemma RegisterMockCarrier_unfold:
  "RegisterMockCarrier m d c q w =
     (case select_timer (d_tie d) c (mock_latency m d) (w_now w) of
        (True, t) \<Rightarrow> (Inl (ctx_err c), w\<lparr>w_now := t\<rparr>)
      | (False, t) \<Rightarrow>
          (if mc_FailureRate (m_cfg m) > 0 \<and> d_fail d < mc_FailureRate (m_cfg m)
           then (Inl ErrCarrierUnavailable, w\<lparr>w_now := t\<rparr>)
           else (Inr \<lparr>res_RequestID = [], res_CarrierID = m_id m,
             res_Premium = \<lparr>Amount = wrap64 (int (length (m_id m)) * 10000 + d_premium d), Currency = ''USD''\<rparr>,
             res_ExpiresAt = t + 300 * Second,
             res_CarrierRef = [], res_Latency = 0, res_IsHedged = False\<rparr>, w\<lparr>w_now := t\<rparr>)))"
proof -
  have "wrap64 (300 * Second) = 300 * Second"
    by (simp add: Second_def Millisecond_def wrap64_id is_int64_def int64_min_def int64_max_def)
  then show ?thesis
    by (cases "select_timer (d_tie d) c (mock_latency m d) (w_now w)"; cases "fst (select_timer (d_tie d) c (mock_latency m d) (w_now w))")
      (auto simp: RegisterMockCarrier_def Register_def mockAdapter_def MockCarrier_Call_def)
qed

interpretation mock: timely_adapter "RegisterMockCarrier m d" "m_id m" for m d
proof unfold_locales
  fix c q and w :: "'a world_scheme"
  obtain b t where s: "select_timer (d_tie d) c (mock_latency m d) (w_now w) = (b, t)" by fastforce
  show "w_now w \<le> w_now (snd (RegisterMockCarrier m d c q w))"
    using select_timer_now_le [OF s] s by (simp add: RegisterMockCarrier_unfold split: bool.split)
  show "w_now (snd (RegisterMockCarrier m d c q w)) \<le> u" if "ctx_done_at c = Some u" "w_now w \<le> u" for u
    using select_timer_by_deadline [OF s that] s by (simp add: RegisterMockCarrier_unfold split: bool.split)
qed (auto simp: RegisterMockCarrier_unfold Second_def Millisecond_def split: prod.splits bool.splits if_splits)

section \<open>Properties\<close>

lemma mock_latency_bounds:
  assumes "draws_ok m d" "0 \<le> mc_BaseLatency (m_cfg m)" "0 \<le> mc_JitterMs (m_cfg m)"
    and "mc_BaseLatency (m_cfg m) + mc_JitterMs (m_cfg m) * Millisecond \<le> int64_max"
  shows "mc_BaseLatency (m_cfg m) - mc_JitterMs (m_cfg m) * Millisecond \<le> mock_latency m d \<and>
    0 \<le> mock_latency m d \<and>
    mock_latency m d \<le> mc_BaseLatency (m_cfg m) + mc_JitterMs (m_cfg m) * Millisecond"
proof -
  let ?B = "mc_BaseLatency (m_cfg m)" and ?J = "mc_JitterMs (m_cfg m)"
  define j where "j = (if ?J > 0 then d_jitter d - ?J else 0)"
  have j: "- ?J \<le> j" "j \<le> ?J" using assms(1,3) by (auto simp: j_def draws_ok_def)
  then have jm: "- (?J * Millisecond) \<le> j * Millisecond" "j * Millisecond \<le> ?J * Millisecond"
    by (simp_all add: Millisecond_def)
  have "wrap64 (j * Millisecond) = j * Millisecond"
    using jm assms(2,4) by (intro wrap64_id) (simp add: is_int64_def int64_min_def int64_max_def)
  moreover have "wrap64 (?B + j * Millisecond) = ?B + j * Millisecond"
    using jm assms(2,4) by (intro wrap64_id) (simp add: is_int64_def int64_min_def int64_max_def)
  ultimately have "mock_latency m d = max 0 (?B + j * Millisecond)"
    by (simp add: mock_latency_def j_def [symmetric] Let_def max_def)
  with jm assms(2,3) show ?thesis by (auto simp: max_def Millisecond_def)
qed

text \<open>A simulated carrier behaves as its configuration says: an answer comes after the base
  latency plus or minus the jitter and not later; the premium is in the carrier's band of 50,000
  cents; a failure is \<open>ErrCarrierUnavailable\<close>, only with a positive failure rate, or the end of
  the context; with a failure rate of one or more it never quotes.\<close>

theorem mock_carrier_contract:
  assumes "draws_ok m d" and "0 \<le> mc_BaseLatency (m_cfg m)" and "0 \<le> mc_JitterMs (m_cfg m)"
    and "mc_BaseLatency (m_cfg m) + mc_JitterMs (m_cfg m) * Millisecond \<le> int64_max"
    and "int (length (m_id m)) \<le> 2 ^ 32"
    and "RegisterMockCarrier m d c q w = (x, w')"
  shows "w_now w' \<le> w_now w + mc_BaseLatency (m_cfg m) + mc_JitterMs (m_cfg m) * Millisecond \<and>
    (case x of
       Inl e \<Rightarrow> e = ErrCarrierUnavailable \<and> 0 < mc_FailureRate (m_cfg m) \<or> e = ctx_err c \<and> ctx_done c (w_now w')
     | Inr r \<Rightarrow> w_now w + mc_BaseLatency (m_cfg m) - mc_JitterMs (m_cfg m) * Millisecond \<le> w_now w' \<and>
         int (length (m_id m)) * 10000 \<le> Amount (res_Premium r) \<and>
         Amount (res_Premium r) < int (length (m_id m)) * 10000 + 50000 \<and>
         res_ExpiresAt r = w_now w' + 300 * Second \<and> mc_FailureRate (m_cfg m) < 1)"
proof -
  note lat = mock_latency_bounds [OF assms(1-4)]
  obtain b t where s: "select_timer (d_tie d) c (mock_latency m d) (w_now w) = (b, t)" by fastforce
  have p: "wrap64 (int (length (m_id m)) * 10000 + d_premium d) = int (length (m_id m)) * 10000 + d_premium d"
    using assms(1,5) by (intro wrap64_id) (simp add: is_int64_def int64_min_def int64_max_def draws_ok_def)
  show ?thesis
  proof (cases b)
    case True
    with s have "ctx_done c t" "t \<le> w_now w + mock_latency m d"
      using select_timer_cancelled [of "d_tie d" c "mock_latency m d" "w_now w" t] lat by simp_all
    with True s assms(6) lat show ?thesis by (auto simp: RegisterMockCarrier_unfold)
  next
    case False
    with s have "t = w_now w + mock_latency m d" using select_timer_fired lat by fastforce
    with False s assms(1,6) lat p show ?thesis
      by (auto simp: RegisterMockCarrier_unfold draws_ok_def split: if_splits)
  qed
qed

definition draws_example :: draws where
  "draws_example = \<lparr>d_jitter = 0, d_fail = 1 / 2, d_premium = 777, d_tie = False\<rparr>"

theorem mock_carrier_contract_witness:
  "\<exists>x w'. RegisterMockCarrier NewAlpha draws_example Background quote_request_example
      \<lparr>w_now = 0, w_metrics = []\<rparr> = (x, w' :: world) \<and> w_now w' \<le> 60 * Millisecond \<and>
    (\<exists>r. x = Inr r \<and> 50000 \<le> Amount (res_Premium r) \<and> Amount (res_Premium r) < 100000)"
proof -
  let ?w = "\<lparr>w_now = 0, w_metrics = []\<rparr> :: world"
  have d: "draws_ok NewAlpha draws_example" by (simp add: draws_ok_def NewAlpha_def draws_example_def)
  obtain x w' where f: "RegisterMockCarrier NewAlpha draws_example Background quote_request_example ?w = (x, w')"
    by fastforce
  obtain r where x: "x = Inr r"
    using f by (auto simp: RegisterMockCarrier_unfold select_timer_def Background_def NewAlpha_def Let_def)
  from mock_carrier_contract [OF d _ _ _ _ f] x f show ?thesis
    by (simp add: NewAlpha_def Millisecond_def int64_max_def)
qed

end
