(* ===== verification/RF_Strings.thy ===== *)
theory RF_Strings
  imports RF_Prelude
begin

text \<open>
  The string functions of Go's standard library that the program calls on paths, headers and
  messages. A Go string is a byte string; a character is one byte.
\<close>

section \<open>Decimal numbers\<close>

fun dec_digits :: "nat \<Rightarrow> string" where
  "dec_digits n = (if n < 10 then [char_of (48 + n)] else dec_digits (n div 10) @ [char_of (48 + n mod 10)])"

declare dec_digits.simps [simp del]

definition itoa :: "int \<Rightarrow> string" where
  "itoa i = (if i < 0 then ''-'' @ dec_digits (nat (- i)) else dec_digits (nat i))"

section \<open>Trimming\<close>

definition TrimLeft1 :: "string \<Rightarrow> char \<Rightarrow> string" where
  "TrimLeft1 s c = dropWhile (\<lambda>x. x = c) s"

definition TrimRight1 :: "string \<Rightarrow> char \<Rightarrow> string" where
  "TrimRight1 s c = rev (dropWhile (\<lambda>x. x = c) (rev s))"

text \<open>The UTF-8 encodings of the characters \<open>unicode.IsSpace\<close> accepts.\<close>

definition space_runes :: "string list" where
  "space_runes =
     map (\<lambda>c. [c]) [CHR 0x09, CHR 0x0A, CHR 0x0B, CHR 0x0C, CHR 0x0D, CHR 0x20] @
     [[CHR 0xC2, CHR 0x85], [CHR 0xC2, CHR 0xA0], [CHR 0xE1, CHR 0x9A, CHR 0x80]] @
     map (\<lambda>c. [CHR 0xE2, CHR 0x80, c])
       [CHR 0x80, CHR 0x81, CHR 0x82, CHR 0x83, CHR 0x84, CHR 0x85, CHR 0x86, CHR 0x87, CHR 0x88,
        CHR 0x89, CHR 0x8A, CHR 0xA8, CHR 0xA9, CHR 0xAF] @
     [[CHR 0xE2, CHR 0x81, CHR 0x9F], [CHR 0xE3, CHR 0x80, CHR 0x80]]"

function trim_prefixes :: "string list \<Rightarrow> string \<Rightarrow> string" where
  "trim_prefixes ps s =
     (case find (\<lambda>p. p \<noteq> [] \<and> prefix p s) ps of
        None \<Rightarrow> s
      | Some p \<Rightarrow> trim_prefixes ps (drop (length p) s))"
  by pat_completeness auto
termination
  by (relation "measure (\<lambda>(ps, s). length s)") (auto simp: find_Some_iff prefix_def)

declare trim_prefixes.simps [simp del]

definition TrimSpace :: "string \<Rightarrow> string" where
  "TrimSpace s = rev (trim_prefixes (map rev space_runes) (rev (trim_prefixes space_runes s)))"

lemma trim_prefixes_suffix: "\<exists>xs. s = xs @ trim_prefixes ps s"
proof (induction ps s rule: trim_prefixes.induct)
  case (1 ps s)
  show ?case
  proof (cases "find (\<lambda>p. p \<noteq> [] \<and> prefix p s) ps")
    case None
    then show ?thesis by (simp add: trim_prefixes.simps [of ps s])
  next
    case (Some p)
    with 1 obtain xs where "drop (length p) s = xs @ trim_prefixes ps (drop (length p) s)" by blast
    then have "s = take (length p) s @ xs @ trim_prefixes ps (drop (length p) s)"
      by (metis append_take_drop_id)
    then have "\<exists>ys. s = ys @ trim_prefixes ps (drop (length p) s)" by (metis append_assoc)
    then show ?thesis by (subst trim_prefixes.simps) (simp add: Some)
  qed
qed

text \<open>Nothing trimmed is left at the front.\<close>

lemma trim_prefixes_clean: "p \<in> set ps \<Longrightarrow> p \<noteq> [] \<Longrightarrow> \<not> prefix p (trim_prefixes ps s)"
proof (induction ps s rule: trim_prefixes.induct)
  case (1 ps s)
  show ?case
  proof (cases "find (\<lambda>p. p \<noteq> [] \<and> prefix p s) ps")
    case None
    then have "trim_prefixes ps s = s" by (subst trim_prefixes.simps) simp
    with 1(2,3) None show ?thesis by (auto simp: find_None_iff)
  next
    case (Some q)
    then have "trim_prefixes ps s = trim_prefixes ps (drop (length q) s)"
      by (subst trim_prefixes.simps) simp
    with 1 Some show ?thesis by simp
  qed
qed

lemma trim_prefixes_length: "length (trim_prefixes ps s) \<le> length s"
proof -
  obtain xs where "s = xs @ trim_prefixes ps s" using trim_prefixes_suffix by blast
  then show ?thesis by (metis length_append le_add2)
qed

lemma TrimSpace_sublist: "sublist (TrimSpace s) s"
proof -
  let ?t = "trim_prefixes space_runes s" and ?r = "map rev space_runes"
  obtain xs ys where "s = xs @ ?t" "rev ?t = ys @ trim_prefixes ?r (rev ?t)"
    using trim_prefixes_suffix by meson
  then have "s = xs @ TrimSpace s @ rev ys"
    unfolding TrimSpace_def by (metis rev_append rev_rev_ident)
  then show ?thesis unfolding sublist_def by blast
qed

section \<open>Splitting\<close>

text \<open>\<open>strings.Split(s, sep)\<close> for a separator of one byte.\<close>

fun Split1 :: "string \<Rightarrow> char \<Rightarrow> string list" where
  "Split1 [] c = [[]]"
| "Split1 (x # xs) c =
     (if x = c then [] # Split1 xs c
      else (case Split1 xs c of [] \<Rightarrow> [[x]] | p # ps \<Rightarrow> (x # p) # ps))"

lemma Split1_clean: "p \<in> set (Split1 s c) \<Longrightarrow> c \<notin> set p"
  by (induction s arbitrary: p) (auto split: if_splits list.splits)

end
