(* ===== verification/RF_HTTP_Carrier.thy ===== *)
theory RF_HTTP_Carrier
  imports RF_Adapters RF_Strings
begin

text \<open>
  The HTTP carrier client of \<open>internal/adapter/http_carrier.go\<close> (one POST with per-attempt
  timeout, retries with exponential backoff) and the Delta Insurance adapter of
  \<open>delta_carrier.go\<close>. The network and \<open>encoding/json\<close> are parameters: a request takes
  some time and gives a response or an error; decoding may fail after it has already filled a part
  of the output object, which all attempts share.
\<close>

section \<open>Configuration\<close>

definition maxResponseBytes :: nat where "maxResponseBytes = 10 * 2 ^ 20"

record HTTPCarrierConfig =
  BaseURL :: string
  APIKey :: string
  MaxRetries :: int
  RetryDelay :: duration
  hcc_Timeout :: duration

definition withDefaults :: "HTTPCarrierConfig \<Rightarrow> HTTPCarrierConfig" where
  "withDefaults c =
     (let c1 = (if MaxRetries c \<le> 0 then c\<lparr>MaxRetries := 3\<rparr> else c);
          c2 = (if RetryDelay c1 \<le> 0 then c1\<lparr>RetryDelay := 100 * Millisecond\<rparr> else c1)
      in if hcc_Timeout c2 \<le> 0 then c2\<lparr>hcc_Timeout := 5 * Second\<rparr> else c2)"

record HTTPCarrier =
  h_id :: string
  h_cfg :: HTTPCarrierConfig

definition NewHTTPCarrier :: "string \<Rightarrow> HTTPCarrierConfig \<Rightarrow> HTTPCarrier" where
  "NewHTTPCarrier i cfg = \<lparr>h_id = i, h_cfg = withDefaults cfg\<rparr>"

section \<open>One attempt\<close>

record http_request =
  hq_url :: string
  hq_headers :: "(string \<times> string) list"
  hq_payload :: string

record http_response =
  hr_status :: int
  hr_body :: string

text \<open>
  What the client uses of \<open>net/http\<close> and \<open>encoding/json\<close>: building a request (a malformed
  URL is an error), sending it (the elapsed time, then an error or a response), encoding, and
  decoding into an object.
\<close>

record ('req, 'resp) http_env =
  e_new_request :: "string \<Rightarrow> go_error option"
  e_do :: "ctx \<Rightarrow> http_request \<Rightarrow> gotime \<Rightarrow> nat \<times> (go_error + http_response)"
  e_marshal :: "'req \<Rightarrow> go_error + string"
  e_decode :: "string \<Rightarrow> 'resp \<Rightarrow> go_error option \<times> 'resp"

definition doOnce ::
  "('req, 'resp) http_env \<Rightarrow> HTTPCarrier \<Rightarrow> ctx \<Rightarrow> string \<Rightarrow> string \<Rightarrow> 'resp \<Rightarrow> gotime \<Rightarrow>
     (int \<times> go_error option) \<times> 'resp \<times> gotime" where
  "doOnce e h c url payload out now =
     (case e_new_request e url of
        Some err \<Rightarrow> ((0, Some (Wrapped ''build request'' err)), out, now)
      | None \<Rightarrow>
          (let headers = (''Content-Type'', ''application/json'') #
                 (if APIKey (h_cfg h) \<noteq> [] then [(''X-API-Key'', APIKey (h_cfg h))] else [])
           in case e_do e c \<lparr>hq_url = url, hq_headers = headers, hq_payload = payload\<rparr> now of
                (d, Inl err) \<Rightarrow> ((0, Some (Wrapped ''do request'' err)), out, now + int d)
              | (d, Inr resp) \<Rightarrow>
                  (if hr_status resp \<ge> 400
                   then ((hr_status resp,
                          Some (OtherError (''status '' @ itoa (hr_status resp) @ '': '' @
                                            TrimSpace (take 512 (hr_body resp))))),
                         out, now + int d)
                   else (case e_decode e (take maxResponseBytes (hr_body resp)) out of
                           (Some err, out') \<Rightarrow>
                             ((hr_status resp, Some (Wrapped ''decode response'' err)), out', now + int d)
                         | (None, out') \<Rightarrow> ((hr_status resp, None), out', now + int d)))))"

lemma doOnce_time: "doOnce e h c url payload out now = (x, out', now') \<Longrightarrow> now \<le> now'"
  by (auto simp: doOnce_def Let_def split: option.splits prod.splits sum.splits if_splits)

text \<open>A status from 400 on is always an error; success means a status below 400.\<close>

lemma doOnce_success_status:
  "doOnce e h c url payload out now = ((st, None), out', now') \<Longrightarrow> st < 400"
  by (auto simp: doOnce_def Let_def split: option.splits prod.splits sum.splits if_splits)

section \<open>The retry loop\<close>

text \<open>The ghost trace of the attempts made: when each began and ended and what came of it.\<close>

record attempt =
  at_start :: gotime
  at_end :: gotime
  at_status :: int
  at_err :: "go_error option"

definition client_error :: "int \<Rightarrow> bool" where
  "client_error st \<longleftrightarrow> 400 \<le> st \<and> st < 500"

definition carrier_msg :: "HTTPCarrier \<Rightarrow> string \<Rightarrow> string" where
  "carrier_msg h m = ''http_carrier '' @ h_id h @ '': '' @ m"

definition give_up :: "HTTPCarrier \<Rightarrow> go_error option \<Rightarrow> go_error" where
  "give_up h lastErr =
     (let m = carrier_msg h (''all '' @ itoa (wrap64 (MaxRetries (h_cfg h) + 1)) @ '' attempts failed'')
      in case lastErr of None \<Rightarrow> OtherError m | Some err \<Rightarrow> Wrapped m err)"

function post_loop ::
  "('req, 'resp) http_env \<Rightarrow> HTTPCarrier \<Rightarrow> ctx \<Rightarrow> string \<Rightarrow> string \<Rightarrow> (int \<Rightarrow> bool) \<Rightarrow>
     int \<Rightarrow> duration \<Rightarrow> go_error option \<Rightarrow> 'resp \<Rightarrow> gotime \<Rightarrow>
     go_error option \<times> 'resp \<times> gotime \<times> attempt list" where
  "post_loop e h c url payload tie attempt delay lastErr out now =
     (if attempt > MaxRetries (h_cfg h) then (Some (give_up h lastErr), out, now, [])
      else case (if attempt > 0 then select_timer (tie attempt) c delay now else (False, now)) of
        (True, t) \<Rightarrow>
          (Some (Wrapped (carrier_msg h (''context cancelled before retry '' @ itoa attempt)) (ctx_err c)),
           out, t, [])
      | (False, t) \<Rightarrow>
          (let delay' = (if attempt > 0 then wrap64 (delay * 2) else delay) in
           case doOnce e h (WithTimeout c t (hcc_Timeout (h_cfg h))) url payload out t of
             ((st, err), out', t') \<Rightarrow>
               (let a = \<lparr>at_start = t, at_end = t', at_status = st, at_err = err\<rparr> in
                case err of
                  None \<Rightarrow> (None, out', t', [a])
                | Some er \<Rightarrow>
                    (if client_error st
                     then (Some (Wrapped (carrier_msg h (''non-retryable status '' @ itoa st)) er),
                           out', t', [a])
                     else (case post_loop e h c url payload tie (attempt + 1) delay' (Some er) out' t' of
                             (r, out'', t'', tr) \<Rightarrow> (r, out'', t'', a # tr))))))"
  by pat_completeness auto
termination
  by (relation "measure (\<lambda>(e, h, c, url, payload, tie, attempt, _). nat (MaxRetries (h_cfg h) + 1 - attempt))") auto

declare post_loop.simps [simp del]

definition post_url :: "string \<Rightarrow> string \<Rightarrow> string" where
  "post_url base path = TrimRight1 base (CHR ''/'') @ ''/'' @ TrimLeft1 path (CHR ''/'')"

definition Post ::
  "('req, 'resp) http_env \<Rightarrow> HTTPCarrier \<Rightarrow> (int \<Rightarrow> bool) \<Rightarrow> ctx \<Rightarrow> string \<Rightarrow> 'req \<Rightarrow> 'resp \<Rightarrow> gotime \<Rightarrow>
     go_error option \<times> 'resp \<times> gotime \<times> attempt list" where
  "Post e h tie c path body out now =
     (case e_marshal e body of
        Inl err \<Rightarrow> (Some (Wrapped (carrier_msg h ''marshal request'') err), out, now, [])
      | Inr payload \<Rightarrow>
          post_loop e h c (post_url (BaseURL (h_cfg h)) path) payload tie 0 (RetryDelay (h_cfg h)) None out now)"

text \<open>The attempt that the loop makes at index \<open>attempt\<close>, without the case nesting.\<close>

lemma post_loop_cases:
  assumes "post_loop e h c url payload tie k delay lastErr out now = (r, out', now', tr)"
  obtains (exhausted) "k > MaxRetries (h_cfg h)" "r = Some (give_up h lastErr)" "tr = []"
      "out' = out" "now' = now"
  | (cancelled) "k \<le> MaxRetries (h_cfg h)" "k > 0" "select_timer (tie k) c delay now = (True, now')"
      "r = Some (Wrapped (carrier_msg h (''context cancelled before retry '' @ itoa k)) (ctx_err c))"
      "tr = []" "out' = out"
  | (success) a t where "k \<le> MaxRetries (h_cfg h)"
      "(if k > 0 then select_timer (tie k) c delay now else (False, now)) = (False, t)"
      "doOnce e h (WithTimeout c t (hcc_Timeout (h_cfg h))) url payload out t =
         ((at_status a, None), out', now')"
      "at_start a = t" "at_end a = now'" "at_err a = None" "r = None" "tr = [a]"
  | (refused) a er t where "k \<le> MaxRetries (h_cfg h)"
      "(if k > 0 then select_timer (tie k) c delay now else (False, now)) = (False, t)"
      "doOnce e h (WithTimeout c t (hcc_Timeout (h_cfg h))) url payload out t =
         ((at_status a, Some er), out', now')"
      "at_start a = t" "at_end a = now'" "at_err a = Some er" "client_error (at_status a)"
      "r = Some (Wrapped (carrier_msg h (''non-retryable status '' @ itoa (at_status a))) er)" "tr = [a]"
  | (again) a er t out1 tr' where "k \<le> MaxRetries (h_cfg h)"
      "(if k > 0 then select_timer (tie k) c delay now else (False, now)) = (False, t)"
      "doOnce e h (WithTimeout c t (hcc_Timeout (h_cfg h))) url payload out t =
         ((at_status a, Some er), out1, at_end a)"
      "at_start a = t" "at_err a = Some er" "\<not> client_error (at_status a)"
      "post_loop e h c url payload tie (k + 1) (if k > 0 then wrap64 (delay * 2) else delay) (Some er)
         out1 (at_end a) = (r, out', now', tr')"
      "tr = a # tr'"
proof (cases "k > MaxRetries (h_cfg h)")
  case True
  with assms show ?thesis by (intro exhausted) (simp_all add: post_loop.simps [of e h c])
next
  case False
  let ?sel = "if k > 0 then select_timer (tie k) c delay now else (False, now)"
  obtain b t where sel: "?sel = (b, t)" by fastforce
  show ?thesis
  proof (cases b)
    case True
    with sel have k: "k > 0" by (auto split: if_splits)
    with sel True have s: "select_timer (tie k) c delay now = (True, t)" by simp
    with k False assms show ?thesis by (intro cancelled) (simp_all add: post_loop.simps [of e h c])
  next
    case nb: False
    obtain st err out1 t1
      where d: "doOnce e h (WithTimeout c t (hcc_Timeout (h_cfg h))) url payload out t = ((st, err), out1, t1)"
      by (metis prod.exhaust)
    define a where "a = \<lparr>at_start = t, at_end = t1, at_status = st, at_err = err\<rparr>"
    have a: "at_start a = t" "at_end a = t1" "at_status a = st" "at_err a = err" by (simp_all add: a_def)
    note unf = post_loop.simps [of e h c url payload tie k delay lastErr out now]
    show ?thesis
    proof (cases err)
      case None
      with False assms sel nb d show ?thesis
        by (intro success [of t a]) (simp_all add: unf a_def, blast?)
    next
      case (Some er)
      show ?thesis
      proof (cases "client_error st")
        case True
        with Some False assms sel nb d show ?thesis
          by (intro refused [of t a er]) (simp_all add: unf a_def, blast?)
      next
        case nc: False
        obtain r2 out2 t2 tr2 where rec: "post_loop e h c url payload tie (k + 1)
            (if k > 0 then wrap64 (delay * 2) else delay) (Some er) out1 t1 = (r2, out2, t2, tr2)"
          by (metis prod_cases4)
        with Some nc False assms sel nb d show ?thesis
          by (intro again [of t a er out1 tr2]) (simp_all add: unf a_def Let_def)
      qed
    qed
  qed
qed

lemma post_loop_exhausted:
  "k > MaxRetries (h_cfg h) \<Longrightarrow>
   post_loop e h c url payload tie k delay lastErr out now = (Some (give_up h lastErr), out, now, [])"
  by (subst post_loop.simps) simp

lemma post_loop_time:
  "post_loop e h c url payload tie k delay lastErr out now = (r, out', now', tr) \<Longrightarrow> now \<le> now'"
proof (induction "nat (MaxRetries (h_cfg h) + 1 - k)" arbitrary: k delay lastErr out now tr)
  case (0 k)
  then show ?case by (auto simp: post_loop.simps [of e h c])
next
  case (Suc n k delay lastErr out now tr)
  have sel: "now \<le> t"
    if "(if k > 0 then select_timer (tie k) c delay now else (False, now)) = (b, t)" for b t
    using that select_timer_now_le by (fastforce split: if_splits)
  from Suc.prems show ?case
  proof (cases rule: post_loop_cases)
    case (cancelled)
    then show ?thesis using select_timer_now_le by blast
  next
    case (success a t)
    then show ?thesis using sel doOnce_time by fastforce
  next
    case (refused a er t)
    then show ?thesis using sel doOnce_time by fastforce
  next
    case (again a er t out1 tr')
    have "at_end a \<le> now'" by (rule Suc.hyps(1) [OF _ again(7)]) (use Suc.hyps(2) in simp)
    then show ?thesis using sel [OF again(2)] doOnce_time [OF again(3)] by simp
  qed simp
qed

section \<open>What a call of Post does\<close>

definition retryable :: "attempt \<Rightarrow> bool" where
  "retryable a \<longleftrightarrow> at_err a \<noteq> None \<and> \<not> client_error (at_status a)"

text \<open>Attempts with exponential backoff: a wait of \<open>d\<close> before the first, twice that before the
  next, and so on, each measured from the end of the attempt before.\<close>

fun spaced :: "duration \<Rightarrow> gotime \<Rightarrow> attempt list \<Rightarrow> bool" where
  "spaced d t [] = True"
| "spaced d t (a # as) = (at_start a = t + d \<and> spaced (2 * d) (at_end a) as)"

text \<open>How a call ended, given its attempts and the number that was allowed.\<close>

definition outcome_ok :: "ctx \<Rightarrow> int \<Rightarrow> attempt list \<Rightarrow> gotime \<Rightarrow> go_error option \<Rightarrow> bool" where
  "outcome_ok c budget tr now' r \<longleftrightarrow>
     (case r of
        None \<Rightarrow> tr \<noteq> [] \<and> at_err (last tr) = None
      | Some e \<Rightarrow>
          (tr \<noteq> [] \<and> (\<exists>er. at_err (last tr) = Some er \<and> (\<forall>s. errors_is er s \<longrightarrow> errors_is e s)) \<and>
             (client_error (at_status (last tr)) \<or> int (length tr) = budget)) \<or>
          (errors_is e (ctx_err c) \<and> ctx_done c now'))"

lemma post_loop_outcome:
  assumes "post_loop e h c url payload tie k delay lastErr out now = (r, out', now', tr)"
    and "k \<le> MaxRetries (h_cfg h)"
  shows "list_all retryable (butlast tr) \<and> int (length tr) \<le> MaxRetries (h_cfg h) + 1 - k \<and>
    outcome_ok c (MaxRetries (h_cfg h) + 1 - k) tr now' r \<and> (k \<le> 0 \<longrightarrow> tr \<noteq> [])"
  using assms
proof (induction "nat (MaxRetries (h_cfg h) + 1 - k)" arbitrary: k delay lastErr out now tr)
  case (Suc n k delay lastErr out now tr)
  from Suc.prems(1) show ?case
  proof (cases rule: post_loop_cases)
    case cancelled
    with Suc.prems(2) select_timer_cancelled [OF cancelled(3)] show ?thesis
      by (simp add: outcome_ok_def)
  next
    case (again a er t out1 tr')
    show ?thesis
    proof (cases "k + 1 \<le> MaxRetries (h_cfg h)")
      case True
      have ih: "list_all retryable (butlast tr')" "int (length tr') \<le> MaxRetries (h_cfg h) + 1 - (k + 1)"
        "outcome_ok c (MaxRetries (h_cfg h) + 1 - (k + 1)) tr' now' r"
        using Suc.hyps(1) [OF _ again(7) True] Suc.hyps(2) by simp_all
      show ?thesis
      proof (cases "tr' = []")
        case t: True
        with ih(3) True again show ?thesis
          by (auto simp: outcome_ok_def split: option.splits)
      next
        case f: False
        with ih True again show ?thesis
          by (auto simp: outcome_ok_def retryable_def split: option.splits)
      qed
    next
      case False
      with Suc.prems(2) have k: "k = MaxRetries (h_cfg h)" by simp
      with again(7) have "tr' = []" "r = Some (give_up h (Some er))"
        by (simp_all add: post_loop_exhausted)
      with again k show ?thesis by (simp add: outcome_ok_def give_up_def Let_def)
    qed
  qed (use Suc.prems(2) in \<open>simp_all add: outcome_ok_def\<close>)
qed simp

lemma post_loop_spaced:
  assumes "post_loop e h c url payload tie k delay lastErr out now = (r, out', now', tr)"
    and "0 < k" "k \<le> MaxRetries (h_cfg h)" "0 \<le> delay"
    and "delay * 2 ^ nat (MaxRetries (h_cfg h) - k) \<le> int64_max"
  shows "spaced delay now tr"
  using assms
proof (induction "nat (MaxRetries (h_cfg h) + 1 - k)" arbitrary: k delay lastErr out now tr)
  case (Suc n k delay lastErr out now tr)
  have fired: "t = now + delay"
    if "(if k > 0 then select_timer (tie k) c delay now else (False, now)) = (False, t)" for t
    using that Suc.prems(2,4) by (auto dest: select_timer_fired)
  from Suc.prems(1) show ?case
  proof (cases rule: post_loop_cases)
    case (again a er t out1 tr')
    show ?thesis
    proof (cases "k + 1 \<le> MaxRetries (h_cfg h)")
      case True
      then have m: "nat (MaxRetries (h_cfg h) - k) = Suc (nat (MaxRetries (h_cfg h) - (k + 1)))" by simp
      with Suc.prems(5) have le: "(2 * delay) * 2 ^ nat (MaxRetries (h_cfg h) - (k + 1)) \<le> int64_max"
        by (simp add: ac_simps)
      moreover have "2 * delay * 1 \<le> (2 * delay) * 2 ^ nat (MaxRetries (h_cfg h) - (k + 1))"
        using Suc.prems(4) by (intro mult_left_mono) simp_all
      ultimately have w: "wrap64 (delay * 2) = 2 * delay"
        using Suc.prems(4) by (intro trans [OF wrap64_id]) (simp_all add: is_int64_def int64_min_def)
      with again(7) Suc.prems(2)
      have "post_loop e h c url payload tie (k + 1) (2 * delay) (Some er) out1 (at_end a) = (r, out', now', tr')"
        by simp
      from Suc.hyps(1) [OF _ this] have "spaced (2 * delay) (at_end a) tr'"
        using Suc.hyps(2) Suc.prems(2,4) le True by simp
      with again(8) again(4) fired [OF again(2)] show ?thesis by simp
    next
      case False
      with again(7) have "tr' = []"
        by (simp add: post_loop_exhausted)
      with again(8) again(4) fired [OF again(2)] show ?thesis by simp
    qed
  qed (use fired in simp_all)
qed simp

section \<open>Delta Insurance\<close>

record DeltaRequest =
  dq_RequestID :: string
  dq_Lines :: "string list"

record DeltaResponse =
  dr_QuoteID :: string
  dr_PremiumCents :: int
  dr_ValidForSeconds :: int

definition zero_DeltaResponse :: DeltaResponse where
  "zero_DeltaResponse = \<lparr>dr_QuoteID = [], dr_PremiumCents = 0, dr_ValidForSeconds = 0\<rparr>"

type_synonym delta_env = "(DeltaRequest, DeltaResponse) http_env"

definition deltaHTTPClient_Call ::
  "delta_env \<Rightarrow> HTTPCarrier \<Rightarrow> (int \<Rightarrow> bool) \<Rightarrow> ctx \<Rightarrow> DeltaRequest \<Rightarrow> (DeltaResponse, 'a) fallible" where
  "deltaHTTPClient_Call e h tie c req w =
     (case Post e h tie c ''/v1/quotes'' req zero_DeltaResponse (w_now w) of
        (Some err, resp, t, tr) \<Rightarrow> (Inl err, w\<lparr>w_now := t\<rparr>)
      | (None, resp, t, tr) \<Rightarrow> (Inr resp, w\<lparr>w_now := t\<rparr>))"

definition delta_valid_for :: "int \<Rightarrow> duration" where
  "delta_valid_for secs = (let d = wrap64 (secs * Second) in if d \<le> 0 then 5 * Minute else d)"

definition deltaAdapter :: "(DeltaRequest, DeltaResponse, 'a) Adapter" where
  "deltaAdapter = \<lparr>
     ToCarrierRequest = (\<lambda>c q w.
       (Inr \<lparr>dq_RequestID = req_RequestID q, dq_Lines = req_CoverageLines q\<rparr>, w)),
     FromCarrierResponse = (\<lambda>c r carrierID w.
       (Inr \<lparr>res_RequestID = [], res_CarrierID = carrierID,
             res_Premium = \<lparr>Amount = dr_PremiumCents r, Currency = ''USD''\<rparr>,
             res_ExpiresAt = w_now w + delta_valid_for (dr_ValidForSeconds r),
             res_CarrierRef = dr_QuoteID r, res_Latency = 0, res_IsHedged = False\<rparr>, w))\<rparr>"

definition NewDeltaCarrier :: "HTTPCarrierConfig \<Rightarrow> HTTPCarrier" where
  "NewDeltaCarrier cfg = NewHTTPCarrier ''delta'' cfg"

definition RegisterDeltaCarrier :: "delta_env \<Rightarrow> (int \<Rightarrow> bool) \<Rightarrow> HTTPCarrier \<Rightarrow> 'a AdapterFunc" where
  "RegisterDeltaCarrier e tie h = Register deltaAdapter (deltaHTTPClient_Call e h tie) ''delta''"

lemma delta_valid_for_pos: "0 < delta_valid_for secs"
  by (simp add: delta_valid_for_def Let_def Minute_def Second_def Millisecond_def)

lemma delta_valid_for_exact:
  assumes "0 < secs" "secs \<le> 9223372036" shows "delta_valid_for secs = secs * Second"
proof -
  have "wrap64 (secs * Second) = secs * Second"
    using assms by (intro wrap64_id) (simp add: is_int64_def int64_min_def int64_max_def Second_def Millisecond_def)
  with assms show ?thesis
    by (simp add: delta_valid_for_def Let_def Second_def Millisecond_def)
qed

text \<open>A validity of 300 years overflows \<open>time.Duration\<close> and becomes the five-minute default.\<close>

lemma delta_validity_overflow: "delta_valid_for 9460800000 = 5 * Minute"
proof -
  have "wrap64 (9460800000 * Second) = 9460800000000000000 - 2 ^ 64"
    by (simp add: wrap64_def sint_word_of_int_take Second_def Millisecond_def)
  then show ?thesis by (simp add: delta_valid_for_def Let_def)
qed

lemma Post_time: "Post e h tie c path body out now = (r, out', now', tr) \<Longrightarrow> now \<le> now'"
  using post_loop_time by (fastforce simp: Post_def split: sum.splits)

lemma RegisterDeltaCarrier_unfold:
  "RegisterDeltaCarrier e tie h c q w =
     (case Post e h tie c ''/v1/quotes'' \<lparr>dq_RequestID = req_RequestID q, dq_Lines = req_CoverageLines q\<rparr>
             zero_DeltaResponse (w_now w) of
        (Some err, resp, t, tr) \<Rightarrow> (Inl err, w\<lparr>w_now := t\<rparr>)
      | (None, resp, t, tr) \<Rightarrow> (Inr \<lparr>res_RequestID = [], res_CarrierID = ''delta'',
             res_Premium = \<lparr>Amount = dr_PremiumCents resp, Currency = ''USD''\<rparr>,
             res_ExpiresAt = t + delta_valid_for (dr_ValidForSeconds resp),
             res_CarrierRef = dr_QuoteID resp, res_Latency = 0, res_IsHedged = False\<rparr>, w\<lparr>w_now := t\<rparr>))"
  by (auto simp: RegisterDeltaCarrier_def Register_def deltaAdapter_def deltaHTTPClient_Call_def
      split: prod.split option.split)

interpretation delta: carrier_adapter "RegisterDeltaCarrier e tie h" "''delta''" for e tie h
proof unfold_locales
  fix c and q :: QuoteRequest and w :: "'a world_scheme"
  obtain r out t tr where p: "Post e h tie c ''/v1/quotes''
      \<lparr>dq_RequestID = req_RequestID q, dq_Lines = req_CoverageLines q\<rparr> zero_DeltaResponse (w_now w) = (r, out, t, tr)"
    by (metis prod_cases4)
  show "w_now w \<le> w_now (snd (RegisterDeltaCarrier e tie h c q w))"
    using Post_time [OF p] p by (simp add: RegisterDeltaCarrier_unfold split: option.split)
qed (auto simp: RegisterDeltaCarrier_unfold delta_valid_for_pos split: prod.splits option.splits)

text \<open>
  A transport that heeds its context, as \<open>http.Client.Do\<close> documents: then neither the retries nor the
  waits between them outlast the context's deadline.
\<close>

definition heeds_context :: "('req, 'resp) http_env \<Rightarrow> bool" where
  "heeds_context e \<longleftrightarrow> (\<forall>c rq t d. ctx_done_at c = Some d \<longrightarrow> t \<le> d \<longrightarrow> t + int (fst (e_do e c rq t)) \<le> d)"

lemma doOnce_duration:
  "doOnce e h c url payload out t = (x, out', t') \<Longrightarrow> t' = t \<or> (\<exists>rq. t' = t + int (fst (e_do e c rq t)))"
  by (auto simp: doOnce_def Let_def case_prod_beta split: option.splits sum.splits if_splits)

lemma doOnce_by_deadline:
  assumes "heeds_context e" and "doOnce e h (WithTimeout c t to) url payload out t = (x, out', t')"
    and "ctx_done_at c = Some d" and "t \<le> d" and "0 \<le> to"
  shows "t' \<le> d"
proof -
  obtain u where u: "ctx_done_at (WithTimeout c t to) = Some u" "u = min d (t + to)"
    using WithTimeout_done_at [of c t to] assms(3) by auto
  moreover have "t \<le> u" "u \<le> d" using u(2) assms(4,5) by simp_all
  ultimately have "t + int (fst (e_do e (WithTimeout c t to) rq t)) \<le> d" for rq
    using assms(1) unfolding heeds_context_def by (meson order_trans)
  then show ?thesis using doOnce_duration [OF assms(2)] assms(4) by auto
qed

lemma post_loop_by_deadline:
  assumes "heeds_context e" and "ctx_done_at c = Some d" and "0 \<le> hcc_Timeout (h_cfg h)"
    and "post_loop e h c url payload tie k delay lastErr out now = (r, out', now', tr)" and "now \<le> d"
  shows "now' \<le> d"
  using assms(4,5)
proof (induction "nat (MaxRetries (h_cfg h) + 1 - k)" arbitrary: k delay lastErr out now tr)
  case (0 k)
  then show ?case by (auto simp: post_loop.simps [of e h c])
next
  case (Suc n k delay lastErr out now tr)
  have sel: "t \<le> d"
    if "(if k > 0 then select_timer (tie k) c delay now else (False, now)) = (b, t)" for b t
    using that select_timer_by_deadline [OF _ assms(2) Suc.prems(2)] Suc.prems(2) by (fastforce split: if_splits)
  note once = doOnce_by_deadline [OF assms(1) _ assms(2) _ assms(3)]
  from Suc.prems(1) show ?case
  proof (cases rule: post_loop_cases)
    case exhausted
    then show ?thesis using Suc.prems(2) by simp
  next
    case cancelled
    then show ?thesis using select_timer_by_deadline [OF _ assms(2) Suc.prems(2)] by blast
  next
    case (success a t)
    then show ?thesis using once [OF success(3) sel [OF success(2)]] by simp
  next
    case (refused a er t)
    then show ?thesis using once [OF refused(3) sel [OF refused(2)]] by simp
  next
    case (again a er t out1 tr')
    show ?thesis
      by (rule Suc.hyps(1) [OF _ again(7) once [OF again(3) sel [OF again(2)]]]) (use Suc.hyps(2) in simp)
  qed
qed

lemma delta_timely:
  assumes "heeds_context e"
  shows "timely_adapter (RegisterDeltaCarrier e tie (NewHTTPCarrier i cfg)) ''delta''"
proof unfold_locales
  fix c :: ctx and q :: QuoteRequest and d and w :: "'a world_scheme"
  assume d: "ctx_done_at c = Some d" "w_now w \<le> d"
  let ?h = "NewHTTPCarrier i cfg"
  obtain r out t tr where p: "Post e ?h tie c ''/v1/quotes''
      \<lparr>dq_RequestID = req_RequestID q, dq_Lines = req_CoverageLines q\<rparr> zero_DeltaResponse (w_now w) = (r, out, t, tr)"
    by (metis prod_cases4)
  have "0 \<le> hcc_Timeout (h_cfg ?h)" by (simp add: NewHTTPCarrier_def withDefaults_def Let_def Second_def Millisecond_def)
  from p post_loop_by_deadline [OF assms d(1) this _ d(2)] d(2) have "t \<le> d"
    by (fastforce simp: Post_def split: sum.splits)
  with p show "w_now (snd (RegisterDeltaCarrier e tie ?h c q w)) \<le> d"
    by (simp add: RegisterDeltaCarrier_unfold split: option.split)
qed

section \<open>Properties\<close>


definition http_example :: delta_env where
  "http_example = \<lparr>e_new_request = (\<lambda>u. None),
     e_do = (\<lambda>c q t. (5, Inr (if t = 0 then \<lparr>hr_status = 503, hr_body = ''busy''\<rparr>
                              else \<lparr>hr_status = 200, hr_body = ''{}''\<rparr>))),
     e_marshal = (\<lambda>q. Inr ''{}''),
     e_decode = (\<lambda>b r. (None, r\<lparr>dr_PremiumCents := 12345, dr_ValidForSeconds := 60\<rparr>))\<rparr>"

definition http_cfg_example :: HTTPCarrierConfig where
  "http_cfg_example = \<lparr>BaseURL = ''http://d/'', APIKey = [], MaxRetries = 2, RetryDelay = 1000,
     hcc_Timeout = 0\<rparr>"

definition request_example :: DeltaRequest where
  "request_example = \<lparr>dq_RequestID = ''r1'', dq_Lines = [''auto'']\<rparr>"

lemmas http_example_defs = http_example_def http_cfg_example_def request_example_def NewHTTPCarrier_def

abbreviation http_example_call :: "go_error option \<times> DeltaResponse \<times> gotime \<times> attempt list" where
  "http_example_call \<equiv> Post http_example (NewHTTPCarrier ''delta'' http_cfg_example) (\<lambda>_. True)
     Background ''/v1/quotes'' request_example zero_DeltaResponse 0"

lemma http_example_run:
  "\<exists>err. http_example_call = (None, \<lparr>dr_QuoteID = [], dr_PremiumCents = 12345, dr_ValidForSeconds = 60\<rparr>, 1010,
     [\<lparr>at_start = 0, at_end = 5, at_status = 503, at_err = Some err\<rparr>,
      \<lparr>at_start = 1005, at_end = 1010, at_status = 200, at_err = None\<rparr>])"
proof -
  note once = doOnce_def http_example_defs withDefaults_def WithTimeout_def Background_def zero_DeltaResponse_def
  note loop = post_loop.simps [of _ _ _ _ _ _ 0] post_loop.simps [of _ _ _ _ _ _ 1]
  show ?thesis
    by (simp add: Post_def loop once client_error_def select_timer_def Let_def)
qed


text \<open>C37. Exponential backoff of \<open>Post\<close>: the first attempt starts at once, the second
  \<open>RetryDelay\<close> after the end of the first, and each later one after twice the wait of the one
  before, as long as the longest wait fits in a \<open>time.Duration\<close>.\<close>

theorem post_backs_off:
  assumes "Post e (NewHTTPCarrier i cfg) tie c path body out now = (r, out', now', tr)"
    and "RetryDelay (withDefaults cfg) * 2 ^ nat (MaxRetries (withDefaults cfg)) \<le> int64_max"
  shows "tr = [] \<or> at_start (hd tr) = now \<and> spaced (RetryDelay (withDefaults cfg)) (at_end (hd tr)) (tl tr)"
proof (cases "e_marshal e body")
  case (Inl err)
  with assms(1) show ?thesis by (simp add: Post_def)
next
  case (Inr payload)
  let ?D = "RetryDelay (withDefaults cfg)" and ?M = "MaxRetries (withDefaults cfg)"
  let ?h = "NewHTTPCarrier i cfg" and ?url = "post_url (BaseURL (withDefaults cfg)) path"
  have m: "0 < ?M" and d: "0 < ?D"
    by (simp_all add: withDefaults_def Let_def Millisecond_def)
  from Inr assms(1) have "post_loop e ?h c ?url payload tie 0 ?D None out now = (r, out', now', tr)"
    by (simp add: Post_def NewHTTPCarrier_def)
  then show ?thesis
  proof (cases rule: post_loop_cases)
    case (again a er t out1 tr')
    have "?D * 2 ^ nat (?M - 1) \<le> ?D * 2 ^ nat ?M" using d by (simp add: power_increasing)
    with assms(2) have "?D * 2 ^ nat (?M - 1) \<le> int64_max" by linarith
    with post_loop_spaced [of e ?h c ?url payload tie 1 ?D "Some er" out1 "at_end a"] again(7) m d
    have "spaced ?D (at_end a) tr'" by (simp add: NewHTTPCarrier_def)
    with again show ?thesis by simp
  qed simp_all
qed

theorem post_backs_off_witness:
  "\<exists>tr. snd (snd (snd http_example_call)) = tr \<and> length tr = 2 \<and> at_start (hd tr) = 0 \<and>
     spaced 1000 5 (tl tr)"
proof -
  obtain err where run: "http_example_call = (None,
     \<lparr>dr_QuoteID = [], dr_PremiumCents = 12345, dr_ValidForSeconds = 60\<rparr>, 1010,
     [\<lparr>at_start = 0, at_end = 5, at_status = 503, at_err = Some err\<rparr>,
      \<lparr>at_start = 1005, at_end = 1010, at_status = 200, at_err = None\<rparr>])"
    using http_example_run by blast
  have "RetryDelay (withDefaults http_cfg_example) * 2 ^ nat (MaxRetries (withDefaults http_cfg_example)) \<le> int64_max"
    by (simp add: withDefaults_def http_cfg_example_def int64_max_def)
  from post_backs_off [OF run this] run show ?thesis
    by (simp add: withDefaults_def http_cfg_example_def)
qed

text \<open>C38. A Delta quote says what Delta answered: it carries the premium and the quote reference
  of the response that \<open>Post\<close> decoded, is stamped \<open>delta\<close> and in US dollars, and expires
  after the validity the response gave (five minutes if that is not positive), for every validity up
  to the largest that fits a \<open>time.Duration\<close>; it never is expired when it is returned.\<close>

theorem delta_quote_faithful:
  assumes "RegisterDeltaCarrier e tie (NewDeltaCarrier cfg) c q w = (Inr r, w')"
  shows "\<exists>resp tr. Post e (NewDeltaCarrier cfg) tie c ''/v1/quotes''
        \<lparr>dq_RequestID = req_RequestID q, dq_Lines = req_CoverageLines q\<rparr> zero_DeltaResponse (w_now w) =
          (None, resp, w_now w', tr) \<and>
      res_Premium r = \<lparr>Amount = dr_PremiumCents resp, Currency = ''USD''\<rparr> \<and>
      res_CarrierRef r = dr_QuoteID resp \<and> res_CarrierID r = ''delta'' \<and> w_now w' < res_ExpiresAt r \<and>
      (\<bar>dr_ValidForSeconds resp\<bar> \<le> 9223372036 \<longrightarrow>
         res_ExpiresAt r = w_now w' +
           (if 0 < dr_ValidForSeconds resp then dr_ValidForSeconds resp * Second else 5 * Minute))"
proof -
  obtain err resp t tr where p: "Post e (NewDeltaCarrier cfg) tie c ''/v1/quotes''
      \<lparr>dq_RequestID = req_RequestID q, dq_Lines = req_CoverageLines q\<rparr> zero_DeltaResponse (w_now w) =
      (err, resp, t, tr)" by (metis prod_cases4)
  with assms have n: "err = None" by (cases err) (simp_all add: RegisterDeltaCarrier_unfold)
  with p assms have w': "w' = w\<lparr>w_now := t\<rparr>" and res: "res_ExpiresAt r = t + delta_valid_for (dr_ValidForSeconds resp)"
    "res_Premium r = \<lparr>Amount = dr_PremiumCents resp, Currency = ''USD''\<rparr>"
    "res_CarrierRef r = dr_QuoteID resp" "res_CarrierID r = ''delta''"
    by (auto simp: RegisterDeltaCarrier_unfold)
  have np: "delta_valid_for s = 5 * Minute" if "s \<le> 0" "\<bar>s\<bar> \<le> 9223372036" for s
  proof -
    have "wrap64 (s * Second) = s * Second"
      using that by (intro wrap64_id) (simp add: is_int64_def int64_min_def int64_max_def Second_def Millisecond_def)
    with that show ?thesis by (simp add: delta_valid_for_def Let_def Second_def Millisecond_def)
  qed
  show ?thesis
    using p n w' res delta_valid_for_pos [of "dr_ValidForSeconds resp"] np [of "dr_ValidForSeconds resp"]
      delta_valid_for_exact [of "dr_ValidForSeconds resp"]
    by (intro exI [of _ resp] exI [of _ tr]) simp
qed

theorem delta_quote_faithful_witness:
  "\<exists>r w'. RegisterDeltaCarrier http_example (\<lambda>_. True) (NewDeltaCarrier http_cfg_example) Background
     quote_request_example \<lparr>w_now = 0, w_metrics = []\<rparr> = (Inr r, w' :: world) \<and>
     Amount (res_Premium r) = 12345 \<and> res_ExpiresAt r = 1010 + 60 * Second"
proof -
  let ?w = "\<lparr>w_now = 0, w_metrics = []\<rparr> :: world"
  obtain tr where run: "http_example_call = (None,
     \<lparr>dr_QuoteID = [], dr_PremiumCents = 12345, dr_ValidForSeconds = 60\<rparr>, 1010, tr)"
    using http_example_run by blast
  have q: "\<lparr>dq_RequestID = req_RequestID quote_request_example,
      dq_Lines = req_CoverageLines quote_request_example\<rparr> = request_example"
    by (simp add: quote_request_example_def request_example_def)
  obtain r w' where f: "RegisterDeltaCarrier http_example (\<lambda>_. True) (NewDeltaCarrier http_cfg_example)
      Background quote_request_example ?w = (Inr r, w')"
    using run by (simp add: RegisterDeltaCarrier_unfold q NewDeltaCarrier_def)
  from delta_quote_faithful [OF this] run f show ?thesis
    by (auto simp: q NewDeltaCarrier_def)
qed

end
