(* ===== verification/RF_Orchestrator.thy ===== *)
theory RF_Orchestrator
  imports RF_Breaker RF_Hedging RF_Rate_Limiter RF_HTTP_Carrier "HOL-Library.Product_Lexorder"
begin

text \<open>
  The sequential parts of \<open>internal/orchestrator/orchestrator.go\<close>: the capability filter, the
  pipeline of one carrier call (rate limiter, circuit breaker, adapter, tracker), what the fan-out
  prepares for the hedge monitor, and the collection of the results. How the goroutines interleave is
  in \<open>RF_FanOut\<close>; the whole request is in \<open>RF_GetQuotes\<close>.
\<close>

section \<open>State\<close>

text \<open>
  The world of an orchestrator: its breakers, limiters and trackers by carrier identifier, and the
  results sent on the channel of the current fan-out, in order. \<open>o_panicked\<close> is set when a nil
  pointer is dereferenced; the process is then gone and the rest of the state has no meaning.
\<close>

record 'l orch = world +
  o_breakers :: "string \<rightharpoonup> breaker"
  o_limiters :: "string \<rightharpoonup> 'l limiter"
  o_trackers :: "string \<rightharpoonup> EMATracker"
  o_results :: "QuoteResult list"
  o_panicked :: bool

type_synonym 'l orch_ext1 = "('l, unit) orch_ext"

record 'l Orchestrator =
  oc_carriers :: "Carrier list"
  oc_registry :: "'l orch_ext1 Registry"
  oc_wait :: "'l rate_wait"
  oc_allow :: "'l rate_allow"
  oc_HedgePollInterval :: duration

definition defaultHedgePollInterval :: duration where
  "defaultHedgePollInterval = 5 * Millisecond"

definition defaultRequestTimeout :: duration where
  "defaultRequestTimeout = 5 * Second"

definition New_orchestrator :: "'l Orchestrator \<Rightarrow> 'l Orchestrator" where
  "New_orchestrator c =
     (if oc_HedgePollInterval c \<le> 0 then c\<lparr>oc_HedgePollInterval := defaultHedgePollInterval\<rparr> else c)"

section \<open>The capability filter\<close>

fun requested_lines :: "CoverageLine list \<Rightarrow> (CoverageLine \<Rightarrow> bool) \<Rightarrow> CoverageLine \<Rightarrow> bool" where
  "requested_lines [] m = m"
| "requested_lines (l # ls) m = requested_lines ls (m(l := True))"

fun has_capability :: "(CoverageLine \<Rightarrow> bool) \<Rightarrow> CoverageLine list \<Rightarrow> bool" where
  "has_capability requested [] = False"
| "has_capability requested (cap # caps) = (if requested cap then True else has_capability requested caps)"

fun eligible_loop ::
  "(string \<rightharpoonup> breaker) \<Rightarrow> (CoverageLine \<Rightarrow> bool) \<Rightarrow> Carrier list \<Rightarrow> Carrier list \<Rightarrow> Carrier list" where
  "eligible_loop breakers requested [] eligible = eligible"
| "eligible_loop breakers requested (c # cs) eligible =
     (if (case breakers (c_ID c) of Some b \<Rightarrow> State b = CBStateOpen | None \<Rightarrow> False)
      then eligible_loop breakers requested cs eligible
      else if has_capability requested (c_Capabilities c)
      then eligible_loop breakers requested cs (eligible @ [c])
      else eligible_loop breakers requested cs eligible)"

definition filterEligibleCarriers ::
  "Carrier list \<Rightarrow> (string \<rightharpoonup> breaker) \<Rightarrow> CoverageLine list \<Rightarrow> Carrier list" where
  "filterEligibleCarriers carriers breakers lines =
     eligible_loop breakers (requested_lines lines (\<lambda>_. False)) carriers []"

lemma requested_lines_iff: "requested_lines ls m l \<longleftrightarrow> m l \<or> l \<in> set ls"
  by (induction ls arbitrary: m) auto

lemma has_capability_iff: "has_capability requested caps \<longleftrightarrow> (\<exists>c\<in>set caps. requested c)"
  by (induction caps) auto

definition breaker_open :: "(string \<rightharpoonup> breaker) \<Rightarrow> Carrier \<Rightarrow> bool" where
  "breaker_open breakers c \<longleftrightarrow> (\<exists>b. breakers (c_ID c) = Some b \<and> State b = CBStateOpen)"

lemma eligible_loop_filter:
  "eligible_loop breakers requested cs acc =
     acc @ filter (\<lambda>c. \<not> breaker_open breakers c \<and> (\<exists>cap\<in>set (c_Capabilities c). requested cap)) cs"
  by (induction cs arbitrary: acc)
    (auto simp: has_capability_iff breaker_open_def split: option.splits)

lemma filterEligibleCarriers_eq:
  "filterEligibleCarriers carriers breakers lines =
     filter (\<lambda>c. \<not> breaker_open breakers c \<and> set (c_Capabilities c) \<inter> set lines \<noteq> {}) carriers"
  unfolding filterEligibleCarriers_def eligible_loop_filter
  by (auto simp: requested_lines_iff intro: filter_cong)

section \<open>One carrier call\<close>

definition classifyError :: "go_error \<Rightarrow> string" where
  "classifyError err =
     (if errors_is err ErrCircuitOpen then ''circuit_open''
      else if errors_is err ErrRateLimitExceeded then ''rate_limited''
      else if errors_is err ContextDeadlineExceeded \<or> errors_is err ErrCarrierTimeout then ''timeout''
      else ''error'')"

text \<open>
  \<open>select { case results <- r: case <-ctx.Done(): }\<close>. There is always room on the channel (see
  \<open>RF_FanOut\<close>), so the result is sent unless the context is done; if it is done Go picks either
  branch and \<open>pick\<close> is its choice.
\<close>

definition send_result :: "bool \<Rightarrow> ctx \<Rightarrow> QuoteResult \<Rightarrow> 'l orch \<Rightarrow> 'l orch" where
  "send_result pick c r w =
     (if ctx_done c (w_now w) \<and> \<not> pick then w else w\<lparr>o_results := o_results w @ [r]\<rparr>)"

definition guarded_exec ::
  "'l orch_ext1 AdapterFunc \<Rightarrow> ctx \<Rightarrow> string \<Rightarrow> QuoteRequest \<Rightarrow> gotime \<Rightarrow> bool \<Rightarrow> 'l orch_ext1 protected" where
  "guarded_exec execFn c carrierID req callStart pick w =
     (case execFn c req w of
        (Inl err, w1) \<Rightarrow> (Some err, w1)
      | (Inr result, w1) \<Rightarrow>
          (let latency = time_sub (w_now w1) callStart;
               result = result\<lparr>res_RequestID := req_RequestID req, res_Latency := latency\<rparr>
           in case o_trackers w1 carrierID of
                None \<Rightarrow> (None, w1\<lparr>o_panicked := True\<rparr>)
              | Some tracker \<Rightarrow>
                  (case Record tracker latency w1 of
                     (tracker', w2) \<Rightarrow>
                       (None, send_result pick c result
                          (emit (RecordQuote carrierID latency ''success'')
                             (w2\<lparr>o_trackers := (o_trackers w2)(carrierID \<mapsto> tracker')\<rparr>))))))"

definition callCarrier ::
  "'l Orchestrator \<Rightarrow> bool \<Rightarrow> ctx \<Rightarrow> Carrier \<Rightarrow> QuoteRequest \<Rightarrow> 'l orch \<Rightarrow> 'l orch" where
  "callCarrier orc pick c carrier req w =
     (case Registry_Get (oc_registry orc) (c_ID carrier) of
        None \<Rightarrow> w
      | Some execFn \<Rightarrow>
          (case o_limiters w (c_ID carrier) of
             None \<Rightarrow> w\<lparr>o_panicked := True\<rparr>
           | Some limiter \<Rightarrow>
               (case Wait_limiter (oc_wait orc) c limiter w of
                  (Some err, limiter', w1) \<Rightarrow>
                    emit (RecordQuote (c_ID carrier) 0 ''rate_limited'')
                      (w1\<lparr>o_limiters := (o_limiters w1)(c_ID carrier \<mapsto> limiter')\<rparr>)
                | (None, limiter', w1) \<Rightarrow>
                    (let w2 = w1\<lparr>o_limiters := (o_limiters w1)(c_ID carrier \<mapsto> limiter')\<rparr>;
                         callStart = w_now w2
                     in case o_breakers w2 (c_ID carrier) of
                          None \<Rightarrow> w2\<lparr>o_panicked := True\<rparr>
                        | Some b \<Rightarrow>
                            (case Execute b (guarded_exec execFn c (c_ID carrier) req callStart pick) w2 of
                               (cbErr, b', w3) \<Rightarrow>
                                 (let w4 = w3\<lparr>o_breakers := (o_breakers w3)(c_ID carrier \<mapsto> b')\<rparr> in
                                  case cbErr of
                                    None \<Rightarrow> w4
                                  | Some e \<Rightarrow>
                                      emit (RecordQuote (c_ID carrier) (time_sub (w_now w4) callStart)
                                              (classifyError e)) w4))))))"

text \<open>The goroutine of a hedge: the same adapter, but neither limiter, breaker nor tracker.\<close>

definition hedge_call ::
  "bool \<Rightarrow> ctx \<Rightarrow> 'l orch_ext1 AdapterFunc \<Rightarrow> QuoteRequest \<Rightarrow> 'l orch \<Rightarrow> 'l orch" where
  "hedge_call pick c execFn req w =
     (case execFn c req w of
        (Inl err, w1) \<Rightarrow> w1
      | (Inr result, w1) \<Rightarrow> send_result pick c (result\<lparr>res_IsHedged := True\<rparr>) w1)"

section \<open>What the fan-out prepares\<close>

text \<open>
  The carriers the hedge monitor may use, with their averages at this moment; \<open>None\<close> is the nil
  dereference of a missing tracker. A carrier without a limiter panics when \<open>TryAcquire\<close> is
  called. One without a breaker would panic when its state is read; \<open>callCarrier\<close> panics for it
  too, so the state it is given here (open, never chosen) is not observed in a run that goes on.
\<close>

definition hedge_tryAcquire :: "'l Orchestrator \<Rightarrow> string \<Rightarrow> 'l orch \<Rightarrow> bool \<times> 'l orch" where
  "hedge_tryAcquire orc i w =
     (case o_limiters w i of
        None \<Rightarrow> (False, w\<lparr>o_panicked := True\<rparr>)
      | Some l \<Rightarrow> (case TryAcquire (oc_allow orc) (w_now w) l of
                    (ok, l') \<Rightarrow> (ok, w\<lparr>o_limiters := (o_limiters w)(i \<mapsto> l')\<rparr>)))"

definition hedge_cbState :: "string \<Rightarrow> 'l orch \<Rightarrow> CBState" where
  "hedge_cbState i w = (case o_breakers w i of None \<Rightarrow> CBStateOpen | Some b \<Rightarrow> State b)"

fun build_hedgeable :: "'l Orchestrator \<Rightarrow> 'l orch \<Rightarrow> Carrier list \<Rightarrow> 'l orch hedgeCarrier list option" where
  "build_hedgeable orc w [] = Some []"
| "build_hedgeable orc w (c # cs) =
     (case Registry_Get (oc_registry orc) (c_ID c) of
        None \<Rightarrow> build_hedgeable orc w cs
      | Some execFn \<Rightarrow>
          (case o_trackers w (c_ID c) of
             None \<Rightarrow> None
           | Some t \<Rightarrow>
               (case build_hedgeable orc w cs of
                  None \<Rightarrow> None
                | Some hs \<Rightarrow> Some (\<lparr>hc_carrier = c, hc_p95Ms = P95 t,
                     hc_tryAcquire = hedge_tryAcquire orc (c_ID c), hc_cbState = hedge_cbState (c_ID c)\<rparr> # hs))))"

fun build_pending :: "'l orch \<Rightarrow> Carrier list \<Rightarrow> (string \<rightharpoonup> pendingCarrier) \<Rightarrow> (string \<rightharpoonup> pendingCarrier) option" where
  "build_pending w [] m = Some m"
| "build_pending w (c # cs) m =
     (case o_trackers w (c_ID c) of
        None \<Rightarrow> None
      | Some t \<Rightarrow> build_pending w cs
          (m(c_ID c \<mapsto> \<lparr>pd_startTime = w_now w, pd_hedgeThreshold = HedgeThreshold t\<rparr>)))"

text \<open>Every carrier of the configuration has its adapter, limiter, breaker and tracker.\<close>

definition wired :: "'l Orchestrator \<Rightarrow> 'l orch \<Rightarrow> bool" where
  "wired orc w \<longleftrightarrow> list_all (\<lambda>c. oc_registry orc (c_ID c) \<noteq> None \<and> o_limiters w (c_ID c) \<noteq> None \<and>
     o_breakers w (c_ID c) \<noteq> None \<and> o_trackers w (c_ID c) \<noteq> None) (oc_carriers orc)"

lemma build_hedgeable_wired:
  "list_all (\<lambda>c. oc_registry orc (c_ID c) \<noteq> None \<and> o_trackers w (c_ID c) \<noteq> None) cs \<Longrightarrow>
   \<exists>hs. build_hedgeable orc w cs = Some hs \<and> map hc_carrier hs = cs"
  by (induction cs) (auto simp: Registry_Get_def)

lemma build_pending_wired:
  "list_all (\<lambda>c. o_trackers w (c_ID c) \<noteq> None) cs \<Longrightarrow>
   \<exists>m'. build_pending w cs m = Some m' \<and> dom m' = dom m \<union> c_ID ` set cs \<and>
     (\<forall>i p. m' i = Some p \<longrightarrow> m i = Some p \<or>
        (\<exists>t. o_trackers w i = Some t \<and> p = \<lparr>pd_startTime = w_now w, pd_hedgeThreshold = HedgeThreshold t\<rparr>))"
proof (induction cs arbitrary: m)
  case (Cons c cs)
  then obtain t where t: "o_trackers w (c_ID c) = Some t" by auto
  let ?m = "m(c_ID c \<mapsto> \<lparr>pd_startTime = w_now w, pd_hedgeThreshold = HedgeThreshold t\<rparr>)"
  from Cons.prems have "list_all (\<lambda>c. o_trackers w (c_ID c) \<noteq> None) cs" by simp
  from Cons.IH [OF this, of ?m] obtain m' where m': "build_pending w cs ?m = Some m'"
    "dom m' = dom ?m \<union> c_ID ` set cs"
    "\<forall>i p. m' i = Some p \<longrightarrow> ?m i = Some p \<or>
        (\<exists>t. o_trackers w i = Some t \<and> p = \<lparr>pd_startTime = w_now w, pd_hedgeThreshold = HedgeThreshold t\<rparr>)"
    by blast
  from m'(3) t have "\<forall>i p. m' i = Some p \<longrightarrow> m i = Some p \<or>
        (\<exists>t. o_trackers w i = Some t \<and> p = \<lparr>pd_startTime = w_now w, pd_hedgeThreshold = HedgeThreshold t\<rparr>)"
    by (auto split: if_splits)
  with m'(1,2) t show ?case by auto
qed simp

section \<open>Collecting the results\<close>

fun collect_loop :: "QuoteResult list \<Rightarrow> (string \<Rightarrow> bool) \<Rightarrow> QuoteResult list \<Rightarrow> QuoteResult list" where
  "collect_loop [] seen collected = collected"
| "collect_loop (r # rs) seen collected =
     (if seen (res_CarrierID r) then collect_loop rs seen collected
      else collect_loop rs (seen(res_CarrierID r := True)) (collected @ [r]))"

definition collect :: "QuoteResult list \<Rightarrow> QuoteResult list" where
  "collect rs = collect_loop rs (\<lambda>_. False) []"

text \<open>\<open>cmp.Compare\<close> and the comparison function of the sort.\<close>

definition go_compare :: "'x :: linorder \<Rightarrow> 'x \<Rightarrow> int" where
  "go_compare a b = (if a < b then -1 else if b < a then 1 else 0)"

definition cmp_results :: "QuoteResult \<Rightarrow> QuoteResult \<Rightarrow> int" where
  "cmp_results a b =
     (let n = go_compare (Amount (res_Premium a)) (Amount (res_Premium b))
      in if n \<noteq> 0 then n else go_compare (res_CarrierID a) (res_CarrierID b))"

text \<open>
  \<open>slices.SortFunc\<close> is not stable, but on results of distinct carriers the comparison function
  never gives 0, so every sorted permutation is the same list (\<open>sorted_results_unique\<close>) and the
  stable sort of the library may stand for it.
\<close>

definition result_key :: "QuoteResult \<Rightarrow> int \<times> string" where
  "result_key r = (Amount (res_Premium r), res_CarrierID r)"

definition sort_results :: "QuoteResult list \<Rightarrow> QuoteResult list" where
  "sort_results rs = sort_key result_key rs"

lemma go_compare_le [simp]: "go_compare a b \<le> 0 \<longleftrightarrow> a \<le> b"
  by (auto simp: go_compare_def)

lemma cmp_results_le: "cmp_results a b \<le> 0 \<longleftrightarrow> result_key a \<le> result_key b"
  by (auto simp: cmp_results_def go_compare_def result_key_def Let_def less_eq_prod_def)

lemma cmp_results_less: "cmp_results a b < 0 \<longleftrightarrow> result_key a < result_key b"
  by (auto simp: cmp_results_def go_compare_def result_key_def Let_def less_prod_def)

lemma collect_loop_append:
  "collect_loop rs seen acc = acc @ collect_loop rs seen []"
proof (induction rs arbitrary: seen acc)
  case (Cons r rs)
  show ?case
  proof (cases "seen (res_CarrierID r)")
    case True
    with Cons [of seen acc] show ?thesis by simp
  next
    case False
    with Cons [of "seen(res_CarrierID r := True)" "acc @ [r]"]
      Cons [of "seen(res_CarrierID r := True)" "[r]"] show ?thesis by (simp del: fun_upd_apply)
  qed
qed simp

lemma collect_loop_spec:
  "distinct (map res_CarrierID (collect_loop rs seen [])) \<and>
   res_CarrierID ` set (collect_loop rs seen []) = {i \<in> res_CarrierID ` set rs. \<not> seen i} \<and>
   (\<forall>r \<in> set (collect_loop rs seen []). find (\<lambda>x. res_CarrierID x = res_CarrierID r) rs = Some r) \<and>
   subseq (collect_loop rs seen []) rs"
proof (induction rs arbitrary: seen)
  case (Cons r rs)
  show ?case
  proof (cases "seen (res_CarrierID r)")
    case True
    with Cons [of seen] show ?thesis by force
  next
    case False
    let ?seen = "seen(res_CarrierID r := True)"
    define L where "L = collect_loop rs ?seen []"
    have c: "collect_loop (r # rs) seen [] = r # L"
      using False collect_loop_append [of rs ?seen "[r]"] by (simp add: L_def del: fun_upd_apply)
    have ih: "distinct (map res_CarrierID L)"
      "res_CarrierID ` set L = {i \<in> res_CarrierID ` set rs. \<not> seen i \<and> i \<noteq> res_CarrierID r}"
      "\<forall>x \<in> set L. find (\<lambda>y. res_CarrierID y = res_CarrierID x) rs = Some x" "subseq L rs"
      using Cons [of ?seen, folded L_def] by auto
    have ne: "res_CarrierID r \<noteq> res_CarrierID x" if "x \<in> set L" for x
      using ih(2) that by (metis (mono_tags, lifting) image_eqI mem_Collect_eq)
    have "res_CarrierID ` set (r # L) = {i \<in> res_CarrierID ` set (r # rs). \<not> seen i}"
      using ih(2) False by auto
    moreover have "find (\<lambda>y. res_CarrierID y = res_CarrierID x) (r # rs) = Some x" if "x \<in> set (r # L)" for x
      using that ih(3) ne by auto
    moreover have "distinct (map res_CarrierID (r # L))" using ih(1) ne by auto
    ultimately show ?thesis unfolding c using ih(4) by simp
  qed
qed simp

lemma collect_spec:
  "distinct (map res_CarrierID (collect rs))"
  "res_CarrierID ` set (collect rs) = res_CarrierID ` set rs"
  "r \<in> set (collect rs) \<Longrightarrow> find (\<lambda>x. res_CarrierID x = res_CarrierID r) rs = Some r"
  "subseq (collect rs) rs"
  using collect_loop_spec [of rs "\<lambda>_. False"] by (auto simp: collect_def)

lemma inj_on_result_key:
  assumes "distinct (map res_CarrierID rs)" shows "inj_on result_key (set rs)"
  using assms by (auto simp: inj_on_def result_key_def distinct_map)

lemma sorted_results_unique:
  assumes "distinct (map res_CarrierID rs)" "mset ys = mset rs"
    and "sorted_wrt (\<lambda>a b. cmp_results a b \<le> 0) ys"
  shows "ys = sort_results rs"
proof -
  have s: "sorted (map result_key ys)"
    using assms(3) by (simp add: cmp_results_le sorted_wrt_map)
  have e: "set ys = set rs" using assms(2) by (metis set_mset_mset)
  have i: "inj_on result_key (set rs)" by (rule inj_on_result_key [OF assms(1)])
  have d: "distinct ys" "distinct rs"
    using assms(1,2) mset_eq_imp_distinct_iff by (auto simp: distinct_map)
  show ?thesis
    unfolding sort_results_def
    by (rule map_sorted_distinct_set_unique [of result_key]) (simp_all add: e i d s distinct_map)
qed

lemma sort_results_strict:
  assumes "distinct (map res_CarrierID rs)"
  shows "sorted_wrt (\<lambda>a b. cmp_results a b < 0) (sort_results rs)"
proof -
  have "sorted (map result_key (sort_results rs))" by (simp add: sort_results_def)
  moreover have "distinct (map result_key (sort_results rs))"
    using assms inj_on_result_key [OF assms] by (simp add: sort_results_def distinct_map)
  ultimately have "sorted_wrt (<) (map result_key (sort_results rs))"
    by (simp add: strict_sorted_iff)
  then show ?thesis by (simp add: cmp_results_less sorted_wrt_map)
qed

lemma sort_results_simps [simp]:
  "mset (sort_results rs) = mset rs" "set (sort_results rs) = set rs" "length (sort_results rs) = length rs"
  by (simp_all add: sort_results_def)

lemma distinct_sort_results [simp]:
  "distinct (map res_CarrierID (sort_results rs)) = distinct (map res_CarrierID rs)"
  by (metis distinct_map sort_results_simps(1,2) mset_eq_imp_distinct_iff)

section \<open>The accounting of a carrier call\<close>

fun is_quote :: "metric_event \<Rightarrow> bool" where
  "is_quote (RecordQuote c d s) = True"
| "is_quote e = False"

lemma no_quote_in_breaker_events: "list_all breaker_event es \<Longrightarrow> filter is_quote es = []"
proof (induction es)
  case (Cons e es)
  then show ?case by (cases e) simp_all
qed simp

lemma same_but_metrics_orch:
  "same_but_metrics (w :: 'l orch) w' \<Longrightarrow> o_results w' = o_results w \<and> o_trackers w' = o_trackers w \<and>
     o_limiters w' = o_limiters w \<and> o_breakers w' = o_breakers w \<and> o_panicked w' = o_panicked w \<and>
     w_now w' = w_now w \<and> filter is_quote (w_metrics w') = filter is_quote (w_metrics w)"
  by (auto simp: same_but_metrics_def no_quote_in_breaker_events)

lemma send_result_simps [simp]:
  "w_now (send_result pick c r w) = w_now w" "w_metrics (send_result pick c r w) = w_metrics w"
  "o_trackers (send_result pick c r w) = o_trackers w" "o_limiters (send_result pick c r w) = o_limiters w"
  "o_breakers (send_result pick c r w) = o_breakers w" "o_panicked (send_result pick c r w) = o_panicked w"
  "o_results (send_result pick c r w) =
     (if ctx_done c (w_now w) \<and> \<not> pick then o_results w else o_results w @ [r])"
  by (simp_all add: send_result_def)

lemma emit_orch_simps [simp]:
  "o_trackers (emit e w) = o_trackers w" "o_limiters (emit e w) = o_limiters w"
  "o_breakers (emit e w) = o_breakers w" "o_panicked (emit e w) = o_panicked w"
  "o_results (emit e w) = o_results w"
  by (simp_all add: emit_def)

text \<open>How the guarded function acts on the world it is run in.\<close>

lemma guarded_exec_cases:
  assumes "carrier_adapter f i" and "o_trackers w i = Some t"
    and "guarded_exec f c i req callStart pick w = (e, w')"
  obtains (failed) err d where "e = Some err" "w' = w\<lparr>w_now := w_now w + int d\<rparr>"
  | (quoted) r d where "e = None" "res_CarrierID r = i" "res_RequestID r = req_RequestID req"
      "res_Latency r = time_sub (w_now w + int d) callStart"
      "w_now w' = w_now w + int d" "o_limiters w' = o_limiters w" "o_breakers w' = o_breakers w"
      "o_panicked w' = o_panicked w"
      "o_trackers w' = (o_trackers w)(i \<mapsto> fst (Record t (res_Latency r) w))"
      "filter is_quote (w_metrics w') = filter is_quote (w_metrics w) @ [RecordQuote i (res_Latency r) ''success'']"
      "o_results w' = (if ctx_done c (w_now w') \<and> \<not> pick then o_results w else o_results w @ [r])"
proof (cases rule: carrier_adapter.call_cases [OF assms(1), of c req w])
  case (1 err d)
  with assms show ?thesis by (intro failed [of err d]) (simp_all add: guarded_exec_def)
next
  case (2 r d)
  define l where "l = time_sub (w_now w + int d) callStart"
  define r' where "r' = r\<lparr>res_RequestID := req_RequestID req, res_Latency := l\<rparr>"
  define W where "W = emit (RecordQuote i l ''success'') ((snd (Record t l (w\<lparr>w_now := w_now w + int d\<rparr>)))
    \<lparr>o_trackers := (o_trackers w)(i \<mapsto> fst (Record t l w))\<rparr>)"
  have "(e, w') = (None, send_result pick c r' W)"
    using 2 assms(2,3) by (simp add: guarded_exec_def Record_def W_def r'_def l_def Let_def)
  then show ?thesis
    using 2 by (intro quoted [of r' d]) (simp_all add: r'_def W_def Record_def l_def Let_def)
qed

text \<open>What one call leaves behind, with its status and latency.\<close>

definition accounted ::
  "ctx \<Rightarrow> string \<Rightarrow> QuoteRequest \<Rightarrow> EMATracker \<Rightarrow> string \<Rightarrow> duration \<Rightarrow> 'l orch \<Rightarrow> 'l orch \<Rightarrow> bool" where
  "accounted c i req t st lat w w' \<longleftrightarrow>
     filter is_quote (w_metrics w') = filter is_quote (w_metrics w) @ [RecordQuote i lat st] \<and>
     (if st = ''success''
      then o_trackers w' = (o_trackers w)(i \<mapsto> fst (Record t lat w)) \<and>
        (o_results w' = o_results w \<and> ctx_done c (w_now w') \<or>
         (\<exists>r. o_results w' = o_results w @ [r] \<and> res_CarrierID r = i \<and>
            res_RequestID r = req_RequestID req \<and> res_Latency r = lat))
      else o_trackers w' = o_trackers w \<and> o_results w' = o_results w)"

lemma classifyError_status:
  "classifyError e \<in> {''circuit_open'', ''rate_limited'', ''timeout'', ''error''}"
  by (simp add: classifyError_def)

lemma classifyError_not_success [simp]: "classifyError e \<noteq> ''success''"
  by (simp add: classifyError_def)

lemma Record_fst_world: "fst (Record t l w) = fst (Record t l w')"
  by (simp add: Record_def Let_def)

lemma callCarrier_limited:
  assumes "oc_registry orc (c_ID k) = Some f" "o_limiters w (c_ID k) = Some l"
    and "Wait_limiter (oc_wait orc) c l w = (Some err, l', w1)"
  shows "callCarrier orc pick c k req w =
    emit (RecordQuote (c_ID k) 0 ''rate_limited'') (w1\<lparr>o_limiters := (o_limiters w1)(c_ID k \<mapsto> l')\<rparr>)"
  using assms by (simp add: callCarrier_def Registry_Get_def)

lemma callCarrier_admitted:
  assumes "oc_registry orc (c_ID k) = Some f" "o_limiters w (c_ID k) = Some l"
    and "Wait_limiter (oc_wait orc) c l w = (None, l', w1)"
    and "w2 = w1\<lparr>o_limiters := (o_limiters w1)(c_ID k \<mapsto> l')\<rparr>" "o_breakers w2 (c_ID k) = Some b"
    and "Execute b (guarded_exec f c (c_ID k) req (w_now w2) pick) w2 = (e, b', w3)"
    and "w4 = w3\<lparr>o_breakers := (o_breakers w3)(c_ID k \<mapsto> b')\<rparr>"
  shows "callCarrier orc pick c k req w =
    (case e of None \<Rightarrow> w4
     | Some er \<Rightarrow> emit (RecordQuote (c_ID k) (time_sub (w_now w4) (w_now w2)) (classifyError er)) w4)"
  using assms by (cases e) (simp_all add: callCarrier_def Registry_Get_def Let_def)

lemma Wait_limiter_orch:
  assumes "Wait_limiter rwait c l (w :: 'l orch) = (r, l', w1)"
  shows "o_results w1 = o_results w \<and> o_trackers w1 = o_trackers w \<and> o_limiters w1 = o_limiters w \<and>
    o_breakers w1 = o_breakers w \<and> o_panicked w1 = o_panicked w \<and> w_now w \<le> w_now w1 \<and>
    filter is_quote (w_metrics w1) = filter is_quote (w_metrics w)"
  using assms by (cases rule: Wait_limiter_cases) simp_all

lemma callCarrier_accounted:
  assumes reg: "oc_registry orc (c_ID k) = Some f" "carrier_adapter f (c_ID k)"
    and lim: "o_limiters w (c_ID k) = Some l"
    and brk: "o_breakers w (c_ID k) = Some b" "breaker_inv b"
    and trk: "o_trackers w (c_ID k) = Some t"
  shows "\<exists>st lat b'. accounted c (c_ID k) req t st lat w (callCarrier orc pick c k req w) \<and>
    st \<in> {''success'', ''circuit_open'', ''rate_limited'', ''timeout'', ''error''} \<and>
    o_panicked (callCarrier orc pick c k req w) = o_panicked w \<and>
    w_now w \<le> w_now (callCarrier orc pick c k req w) \<and>
    o_breakers (callCarrier orc pick c k req w) = (o_breakers w)(c_ID k \<mapsto> b') \<and> breaker_inv b' \<and>
    dom (o_limiters (callCarrier orc pick c k req w)) = dom (o_limiters w)"
proof -
  let ?i = "c_ID k"
  obtain r l' w1 where wait: "Wait_limiter (oc_wait orc) c l w = (r, l', w1)" by (metis prod_cases3)
  note w1 = Wait_limiter_orch [OF wait]
  show ?thesis
  proof (cases r)
    case (Some err)
    note cc = callCarrier_limited [where pick = pick and req = req, OF reg(1) lim wait [unfolded Some]]
    have bs: "o_breakers w = (o_breakers w)(?i \<mapsto> b)" "insert ?i (dom (o_limiters w)) = dom (o_limiters w)"
      using brk(1) lim by auto
    show ?thesis unfolding cc
      by (rule exI [of _ "''rate_limited''"], rule exI [of _ 0], rule exI [of _ b])
        (use w1 bs brk(2) in \<open>simp add: accounted_def\<close>)
  next
    case None
    define w2 where "w2 = w1\<lparr>o_limiters := (o_limiters w1)(?i \<mapsto> l')\<rparr>"
    have w2: "o_results w2 = o_results w" "o_trackers w2 = o_trackers w" "o_breakers w2 = o_breakers w"
      "o_panicked w2 = o_panicked w" "w_now w \<le> w_now w2"
      "filter is_quote (w_metrics w2) = filter is_quote (w_metrics w)" "dom (o_limiters w2) = dom (o_limiters w)"
      using w1 lim by (auto simp: w2_def)
    let ?fn = "guarded_exec f c ?i req (w_now w2) pick"
    obtain e b' w3 where ex: "Execute b ?fn w2 = (e, b', w3)" by (metis prod_cases3)
    define w4 where "w4 = w3\<lparr>o_breakers := (o_breakers w3)(?i \<mapsto> b')\<rparr>"
    have "o_breakers w2 ?i = Some b" using brk w2 by simp
    note cc = callCarrier_admitted [where req = req, OF reg(1) lim wait [unfolded None] w2_def this ex w4_def]
    let ?w = "call_world b w2"
    note cw = same_but_metrics_orch [OF same_but_metrics_call_world [of w2 b]]
    have b': "breaker_inv b'" by (rule cb.inv_kept [OF brk(2) ex])
    obtain re wf where fn: "?fn ?w = (re, wf)" by fastforce
    from cb.run_or_refuse [OF brk(2) ex]
    consider (run) "e = re" "same_but_metrics wf w3" | (refused) "e = Some ErrCircuitOpen" "w3 = w2"
      using fn by auto
    then show ?thesis
    proof cases
      case refused
      show ?thesis unfolding cc
        by (rule exI [of _ "''circuit_open''"], rule exI [of _ "time_sub (w_now w2) (w_now w2)"], rule exI [of _ b'])
          (use refused w2 b' in \<open>simp add: w4_def accounted_def classifyError_def\<close>)
    next
      case run
      note w3 = same_but_metrics_orch [OF run(2)]
      have t2: "o_trackers ?w ?i = Some t" using trk w2 cw by simp
      from reg(2) t2 fn show ?thesis
      proof (cases rule: guarded_exec_cases)
        case (failed err d)
        show ?thesis unfolding cc
          by (rule exI [of _ "classifyError err"], rule exI [of _ "time_sub (w_now w4) (w_now w2)"], rule exI [of _ b'])
            (use failed run w3 w2 cw b' classifyError_status [of err] in \<open>simp add: w4_def accounted_def\<close>)
      next
        case (quoted r d)
        have "fst (Record t (res_Latency r) ?w) = fst (Record t (res_Latency r) w)"
          by (rule Record_fst_world)
        then show ?thesis unfolding cc
          by (intro exI [of _ "''success''"] exI [of _ "res_Latency r"] exI [of _ b'])
            (use quoted run w3 w2 cw b' in \<open>auto simp: w4_def accounted_def\<close>)
      qed
    qed
  qed
qed

section \<open>Properties\<close>

text \<open>The capability filter returns, in configuration order and without duplicating or dropping
  any, exactly the carriers that have a requested coverage line and whose breaker is not open (a
  carrier without a breaker counts as not open).\<close>

theorem eligible_carriers_exact:
  "filterEligibleCarriers carriers breakers lines =
     filter (\<lambda>c. (\<forall>b. breakers (c_ID c) = Some b \<longrightarrow> State b \<noteq> CBStateOpen) \<and>
                 set (c_Capabilities c) \<inter> set lines \<noteq> {}) carriers"
  unfolding filterEligibleCarriers_eq by (auto simp: breaker_open_def intro!: filter_cong)

definition alpha_carrier :: Carrier where
  "alpha_carrier = (carrier_named ''alpha'')\<lparr>c_Capabilities := [''auto'', ''umbrella'']\<rparr>"

definition new_breaker_example :: breaker where
  "new_breaker_example = fst (New_breaker ''alpha'' \<lparr>FailureThreshold = 2, SuccessThreshold = 2, OpenTimeout = 100\<rparr> world0)"

definition orch_example :: "unit Orchestrator" where
  "orch_example = \<lparr>oc_carriers = [alpha_carrier],
     oc_registry = [''alpha'' \<mapsto> RegisterMockCarrier NewAlpha draws_example],
     oc_wait = (\<lambda>c t l. (None, 3, l)), oc_allow = (\<lambda>t l. (True, l)), oc_HedgePollInterval = 5 * Millisecond\<rparr>"

definition tracker_example :: EMATracker where
  "tracker_example = NewEMATracker ''alpha'' (100 * Millisecond) zero_config"

definition orch_world_example :: "unit orch" where
  "orch_world_example = \<lparr>w_now = 0, w_metrics = [], o_breakers = [''alpha'' \<mapsto> new_breaker_example],
     o_limiters = [''alpha'' \<mapsto> \<lparr>l_inner = (), l_carrierID = ''alpha''\<rparr>],
     o_trackers = [''alpha'' \<mapsto> tracker_example], o_results = [], o_panicked = False\<rparr>"

lemma breaker_inv_example: "breaker_inv new_breaker_example"
  unfolding new_breaker_example_def by (rule breaker_inv_New) (simp_all)

lemma eligible_carriers_example:
  "filterEligibleCarriers (oc_carriers orch_example) (o_breakers orch_world_example) [''auto''] = [alpha_carrier]"
  by (simp add: eligible_loop_filter filterEligibleCarriers_eq orch_example_def orch_world_example_def
      alpha_carrier_def carrier_named_def breaker_open_def new_breaker_example_def New_breaker_def State_def)

theorem eligible_carriers_exact_witness:
  "\<exists>b. State b = CBStateOpen \<and>
     filterEligibleCarriers [alpha_carrier] [''alpha'' \<mapsto> b] [''auto''] = [] \<and>
     filterEligibleCarriers [alpha_carrier] (\<lambda>_. None) [''auto''] = [alpha_carrier]"
  using eligible_carriers_exact [of "[alpha_carrier]" "[''alpha'' \<mapsto> open_example]" "[''auto'']"]
    eligible_carriers_exact [of "[alpha_carrier]" "\<lambda>_. None" "[''auto'']"]
  by (intro exI [of _ open_example])
    (simp add: alpha_carrier_def carrier_named_def State_def open_example_def)

text \<open>C2. Every call of a wired carrier is accounted for exactly once: it adds exactly one
  \<open>RecordQuote\<close> for the carrier, with one of the five statuses. With status \<open>success\<close> the
  latency is recorded in the carrier's tracker and at most one result is sent, stamped with the carrier,
  the request's identifier and that latency (none only if the context is done); with any other
  status neither the trackers nor the results change. No other breaker changes, the carrier's breaker
  keeps its invariant, and nothing panics.\<close>

theorem carrier_call_accounted_once:
  assumes "oc_registry orc (c_ID k) = Some f" and "carrier_adapter f (c_ID k)"
    and "o_limiters w (c_ID k) = Some l" and "o_breakers w (c_ID k) = Some b" and "breaker_inv b"
    and "o_trackers w (c_ID k) = Some t"
  shows "\<exists>st lat b'. accounted c (c_ID k) req t st lat w (callCarrier orc pick c k req w) \<and>
    st \<in> {''success'', ''circuit_open'', ''rate_limited'', ''timeout'', ''error''} \<and>
    o_panicked (callCarrier orc pick c k req w) = o_panicked w \<and>
    w_now w \<le> w_now (callCarrier orc pick c k req w) \<and>
    o_breakers (callCarrier orc pick c k req w) = (o_breakers w)(c_ID k \<mapsto> b') \<and> breaker_inv b'"
proof -
  from callCarrier_accounted [OF assms, of c req pick] show ?thesis
    by (elim exE conjE) (intro exI conjI; assumption)
qed

theorem carrier_call_accounted_once_witness:
  "\<exists>st lat. accounted Background ''alpha'' quote_request_example tracker_example st lat orch_world_example
     (callCarrier orch_example True Background alpha_carrier quote_request_example orch_world_example)"
proof -
  have id: "c_ID alpha_carrier = ''alpha''" by (simp add: alpha_carrier_def carrier_named_def)
  have "carrier_adapter (RegisterMockCarrier NewAlpha draws_example :: unit orch_ext1 AdapterFunc) ''alpha''"
    using mock.carrier_adapter_axioms [of NewAlpha draws_example] by (simp add: NewAlpha_def)
  then show ?thesis
    using carrier_call_accounted_once [of orch_example alpha_carrier "RegisterMockCarrier NewAlpha draws_example"
        orch_world_example "\<lparr>l_inner = (), l_carrierID = ''alpha''\<rparr>" new_breaker_example tracker_example
        Background quote_request_example True] breaker_inv_example
    by (auto simp: id orch_example_def orch_world_example_def)
qed

text \<open>C23. Collecting is canonical: of the results that arrived, the first of every carrier is kept
  and nothing else; the answer is strictly increasing in premium and then carrier, so it has one result
  per carrier; and any algorithm that sorts with the comparison function, stable or not, gives this list.\<close>

theorem collected_results_canonical:
  fixes arrived :: "QuoteResult list"
  defines "out \<equiv> sort_results (collect arrived)"
  shows "sorted_wrt (\<lambda>a b. cmp_results a b < 0) out \<and> distinct (map res_CarrierID out) \<and>
    res_CarrierID ` set out = res_CarrierID ` set arrived \<and>
    (\<forall>r \<in> set out. find (\<lambda>x. res_CarrierID x = res_CarrierID r) arrived = Some r) \<and>
    (\<forall>ys. mset ys = mset (collect arrived) \<and> sorted_wrt (\<lambda>a b. cmp_results a b \<le> 0) ys \<longrightarrow> ys = out)"
proof -
  note c = collect_spec(1,2) [of arrived] collect_spec(3) [where rs = arrived]
  show ?thesis unfolding out_def
    using sort_results_strict [OF c(1)] c sorted_results_unique [OF c(1)] by auto
qed

theorem collected_results_canonical_witness:
  "\<exists>r out. out = sort_results (collect [r\<lparr>res_Premium := \<lparr>Amount = 5, Currency = ''USD''\<rparr>\<rparr>, r]) \<and>
     length out = 1 \<and> sorted_wrt (\<lambda>a b. cmp_results a b < 0) out \<and> Amount (res_Premium (hd out)) = 5"
proof -
  define r where "r = \<lparr>res_RequestID = ''r1'', res_CarrierID = ''alpha'', res_Premium = \<lparr>Amount = 9, Currency = ''USD''\<rparr>,
    res_ExpiresAt = 1, res_CarrierRef = [], res_Latency = 0, res_IsHedged = False\<rparr>"
  let ?arrived = "[r\<lparr>res_Premium := \<lparr>Amount = 5, Currency = ''USD''\<rparr>\<rparr>, r]"
  have "sort_results (collect ?arrived) = [r\<lparr>res_Premium := \<lparr>Amount = 5, Currency = ''USD''\<rparr>\<rparr>]"
    by (simp add: collect_def r_def sort_results_def)
  with collected_results_canonical [of ?arrived] show ?thesis
    by (intro exI [of _ r] exI [of _ "sort_results (collect ?arrived)"]) simp
qed

end
