(* ===== verification/RF_FanOut.thy ===== *)
theory RF_FanOut
  imports RF_Orchestrator
begin

text \<open>
  The goroutines of one fan-out (\<open>fanOut\<close> in \<open>orchestrator.go\<close> and \<open>hedgeMonitor\<close> in
  \<open>hedging.go\<close>) as a step relation: the primary calls of the error group, the hedge monitor with
  its hedge goroutines, the goroutine that waits for both and closes the channel, and the main goroutine
  that ranges over the channel. Every step is one channel operation, one \<open>select\<close> branch or one
  visit of a pending slot; goroutines interleave freely and adapters answer when they like.
  \<open>primary i r\<close> and \<open>hedge r\<close> say which results the adapters may give.
\<close>

section \<open>Goroutines\<close>

datatype call_pc = Calling | Sending QuoteResult | Finished

text \<open>\<open>MVisit is all\<close>: inside a poll, with the slots still to visit and the flag \<open>allResolved\<close>.\<close>

datatype monitor_pc = MSelect | MVisit "nat list" bool | MWaitHedges | MDone

datatype closer_pc = CWaitPrimaries | CCancel | CWaitMonitor | CClose | CDone

record fan =
  f_primaries :: "call_pc list"
  f_hedges :: "call_pc list"
  f_hedged :: "nat set"
  f_monitor :: monitor_pc
  f_closer :: closer_pc
  f_ctx_done :: bool
  f_hedge_cancelled :: bool
  f_chan :: "QuoteResult list"
  f_closed :: bool
  f_received :: "QuoteResult list"
  f_main_done :: bool
  f_sent :: "QuoteResult list"
  f_panicked :: bool
  f_answered :: "QuoteResult list"
  f_timed_out :: bool

text \<open>Sending on the channel: a send on a closed channel panics. Ghosts: what was sent
  (\<open>f_sent\<close>), what the primary calls answered (\<open>f_answered\<close>), and whether the request's
  deadline ended the context (\<open>f_timed_out\<close>).\<close>

definition chan_send :: "QuoteResult \<Rightarrow> fan \<Rightarrow> fan" where
  "chan_send r s =
     (if f_closed s then s\<lparr>f_panicked := True\<rparr>
      else s\<lparr>f_chan := f_chan s @ [r], f_sent := f_sent s @ [r]\<rparr>)"

definition hedge_ctx_done :: "fan \<Rightarrow> bool" where
  "hedge_ctx_done s \<longleftrightarrow> f_ctx_done s \<or> f_hedge_cancelled s"

text \<open>\<open>n\<close> is the number of eligible carriers; the channel holds \<open>2 * n\<close> results.\<close>

inductive fan_step :: "nat \<Rightarrow> (nat \<Rightarrow> QuoteResult \<Rightarrow> bool) \<Rightarrow> (QuoteResult \<Rightarrow> bool) \<Rightarrow> fan \<Rightarrow> fan \<Rightarrow> bool"
  for n primary hedge where
  timeout: "\<not> f_ctx_done s \<Longrightarrow> fan_step n primary hedge s (s\<lparr>f_ctx_done := True, f_timed_out := True\<rparr>)"
| primary_answers: "i < length (f_primaries s) \<Longrightarrow> f_primaries s ! i = Calling \<Longrightarrow> primary i r \<Longrightarrow>
    fan_step n primary hedge s (s\<lparr>f_primaries := (f_primaries s)[i := Sending r], f_answered := f_answered s @ [r]\<rparr>)"
| primary_fails: "i < length (f_primaries s) \<Longrightarrow> f_primaries s ! i = Calling \<Longrightarrow>
    fan_step n primary hedge s (s\<lparr>f_primaries := (f_primaries s)[i := Finished]\<rparr>)"
| primary_sends: "i < length (f_primaries s) \<Longrightarrow> f_primaries s ! i = Sending r \<Longrightarrow>
    f_closed s \<or> length (f_chan s) < 2 * n \<Longrightarrow>
    fan_step n primary hedge s (chan_send r (s\<lparr>f_primaries := (f_primaries s)[i := Finished]\<rparr>))"
| primary_drops: "i < length (f_primaries s) \<Longrightarrow> f_primaries s ! i = Sending r \<Longrightarrow> f_ctx_done s \<Longrightarrow>
    fan_step n primary hedge s (s\<lparr>f_primaries := (f_primaries s)[i := Finished]\<rparr>)"
| monitor_stops: "f_monitor s = MSelect \<Longrightarrow> hedge_ctx_done s \<Longrightarrow>
    fan_step n primary hedge s (s\<lparr>f_monitor := MWaitHedges\<rparr>)"
| monitor_ticks: "f_monitor s = MSelect \<Longrightarrow> mset order = mset [0..<n] \<Longrightarrow>
    fan_step n primary hedge s (s\<lparr>f_monitor := MVisit order True\<rparr>)"
| monitor_passes: "f_monitor s = MVisit (i # is) all \<Longrightarrow>
    fan_step n primary hedge s (s\<lparr>f_monitor := MVisit is (all \<and> i \<in> f_hedged s)\<rparr>)"
| monitor_fires: "f_monitor s = MVisit (i # is) all \<Longrightarrow> i \<notin> f_hedged s \<Longrightarrow>
    fan_step n primary hedge s (s\<lparr>f_monitor := MVisit is False, f_hedged := insert i (f_hedged s),
      f_hedges := f_hedges s @ [Calling]\<rparr>)"
| monitor_loops: "f_monitor s = MVisit [] False \<Longrightarrow> fan_step n primary hedge s (s\<lparr>f_monitor := MSelect\<rparr>)"
| monitor_resolved: "f_monitor s = MVisit [] True \<Longrightarrow> fan_step n primary hedge s (s\<lparr>f_monitor := MWaitHedges\<rparr>)"
| monitor_exits: "f_monitor s = MWaitHedges \<Longrightarrow> list_all (\<lambda>h. h = Finished) (f_hedges s) \<Longrightarrow>
    fan_step n primary hedge s (s\<lparr>f_monitor := MDone\<rparr>)"
| hedge_answers: "i < length (f_hedges s) \<Longrightarrow> f_hedges s ! i = Calling \<Longrightarrow> hedge r \<Longrightarrow>
    fan_step n primary hedge s (s\<lparr>f_hedges := (f_hedges s)[i := Sending r]\<rparr>)"
| hedge_fails: "i < length (f_hedges s) \<Longrightarrow> f_hedges s ! i = Calling \<Longrightarrow>
    fan_step n primary hedge s (s\<lparr>f_hedges := (f_hedges s)[i := Finished]\<rparr>)"
| hedge_sends: "i < length (f_hedges s) \<Longrightarrow> f_hedges s ! i = Sending r \<Longrightarrow>
    f_closed s \<or> length (f_chan s) < 2 * n \<Longrightarrow>
    fan_step n primary hedge s (chan_send r (s\<lparr>f_hedges := (f_hedges s)[i := Finished]\<rparr>))"
| hedge_drops: "i < length (f_hedges s) \<Longrightarrow> f_hedges s ! i = Sending r \<Longrightarrow> hedge_ctx_done s \<Longrightarrow>
    fan_step n primary hedge s (s\<lparr>f_hedges := (f_hedges s)[i := Finished]\<rparr>)"
| closer_waited: "f_closer s = CWaitPrimaries \<Longrightarrow> list_all (\<lambda>p. p = Finished) (f_primaries s) \<Longrightarrow>
    fan_step n primary hedge s (s\<lparr>f_closer := CCancel, f_ctx_done := True\<rparr>)"
| closer_cancels: "f_closer s = CCancel \<Longrightarrow>
    fan_step n primary hedge s (s\<lparr>f_closer := CWaitMonitor, f_hedge_cancelled := True\<rparr>)"
| closer_joins: "f_closer s = CWaitMonitor \<Longrightarrow> f_monitor s = MDone \<Longrightarrow>
    fan_step n primary hedge s (s\<lparr>f_closer := CClose\<rparr>)"
| closer_closes: "f_closer s = CClose \<Longrightarrow>
    fan_step n primary hedge s (s\<lparr>f_closer := CDone, f_closed := True\<rparr>)"
| main_receives: "f_chan s = r # rs \<Longrightarrow> \<not> f_main_done s \<Longrightarrow>
    fan_step n primary hedge s (s\<lparr>f_chan := rs, f_received := f_received s @ [r]\<rparr>)"
| main_ends: "f_chan s = [] \<Longrightarrow> f_closed s \<Longrightarrow> \<not> f_main_done s \<Longrightarrow>
    fan_step n primary hedge s (s\<lparr>f_main_done := True\<rparr>)"

definition fan_init :: "nat \<Rightarrow> fan" where
  "fan_init n = \<lparr>f_primaries = replicate n Calling, f_hedges = [], f_hedged = {}, f_monitor = MSelect,
     f_closer = CWaitPrimaries, f_ctx_done = False, f_hedge_cancelled = False, f_chan = [],
     f_closed = False, f_received = [], f_main_done = False, f_sent = [], f_panicked = False,
     f_answered = [], f_timed_out = False\<rparr>"

definition fan_reachable ::
  "nat \<Rightarrow> (nat \<Rightarrow> QuoteResult \<Rightarrow> bool) \<Rightarrow> (QuoteResult \<Rightarrow> bool) \<Rightarrow> fan \<Rightarrow> bool" where
  "fan_reachable n primary hedge s \<longleftrightarrow> (fan_step n primary hedge)\<^sup>*\<^sup>* (fan_init n) s"

section \<open>The invariant\<close>

definition busy :: "call_pc list \<Rightarrow> nat" where
  "busy ps = length (filter (\<lambda>p. p \<noteq> Finished) ps)"

text \<open>Counting: at most one send for every call that is not finished.\<close>

definition fan_count :: "nat \<Rightarrow> fan \<Rightarrow> bool" where
  "fan_count n s \<longleftrightarrow>
     length (f_primaries s) = n \<and> f_hedged s \<subseteq> {..<n} \<and> length (f_hedges s) = card (f_hedged s) \<and>
     (\<forall>is all. f_monitor s = MVisit is all \<longrightarrow> set is \<subseteq> {..<n}) \<and>
     length (f_sent s) + busy (f_primaries s) + busy (f_hedges s) \<le> n + length (f_hedges s) \<and>
     f_sent s = f_received s @ f_chan s"

text \<open>Phases: who has finished when the closing goroutine is at each point.\<close>

definition fan_phase :: "fan \<Rightarrow> bool" where
  "fan_phase s \<longleftrightarrow>
     (f_closer s \<noteq> CWaitPrimaries \<longrightarrow> busy (f_primaries s) = 0 \<and> f_ctx_done s) \<and>
     (f_closer s = CClose \<or> f_closer s = CDone \<longrightarrow> f_monitor s = MDone) \<and>
     (f_monitor s = MDone \<longrightarrow> busy (f_hedges s) = 0) \<and>
     (f_closed s \<longleftrightarrow> f_closer s = CDone) \<and>
     (f_main_done s \<longrightarrow> f_closed s \<and> f_chan s = []) \<and> \<not> f_panicked s"

text \<open>Results: only what an adapter answered is ever sent.\<close>

definition fan_results :: "nat \<Rightarrow> (nat \<Rightarrow> QuoteResult \<Rightarrow> bool) \<Rightarrow> (QuoteResult \<Rightarrow> bool) \<Rightarrow> fan \<Rightarrow> bool" where
  "fan_results n primary hedge s \<longleftrightarrow> length (f_primaries s) = n \<and>
     (\<forall>i r. i < n \<and> f_primaries s ! i = Sending r \<longrightarrow> primary i r) \<and>
     (\<forall>i r. i < length (f_hedges s) \<and> f_hedges s ! i = Sending r \<longrightarrow> hedge r) \<and>
     (\<forall>r \<in> set (f_sent s). hedge r \<or> (\<exists>i<n. primary i r))"

text \<open>Before the deadline nothing a primary call answered is lost.\<close>

definition still_sending :: "nat \<Rightarrow> call_pc list \<Rightarrow> QuoteResult \<Rightarrow> bool" where
  "still_sending n ps r \<longleftrightarrow> (\<exists>i<n. ps ! i = Sending r)"

definition fan_lossless :: "nat \<Rightarrow> fan \<Rightarrow> bool" where
  "fan_lossless n s \<longleftrightarrow> length (f_primaries s) = n \<and>
     (\<forall>r \<in> set (f_answered s). r \<in> set (f_sent s) \<or> f_timed_out s \<or> still_sending n (f_primaries s) r) \<and>
     (f_closer s = CWaitPrimaries \<longrightarrow> f_ctx_done s \<longrightarrow> f_timed_out s)"

definition fan_inv :: "nat \<Rightarrow> (nat \<Rightarrow> QuoteResult \<Rightarrow> bool) \<Rightarrow> (QuoteResult \<Rightarrow> bool) \<Rightarrow> fan \<Rightarrow> bool" where
  "fan_inv n primary hedge s \<longleftrightarrow> fan_count n s \<and> fan_phase s \<and> fan_results n primary hedge s \<and> fan_lossless n s"

lemma busy_append [simp]: "busy (ps @ qs) = busy ps + busy qs"
  by (simp add: busy_def)

lemma busy_simps [simp]: "busy [] = 0" "busy (p # ps) = (if p = Finished then 0 else 1) + busy ps"
  by (simp_all add: busy_def)

lemma busy_0: "busy ps = 0 \<longleftrightarrow> list_all (\<lambda>p. p = Finished) ps"
  by (induction ps) auto

lemma busy_pos: "i < length ps \<Longrightarrow> ps ! i \<noteq> Finished \<Longrightarrow> 0 < busy ps"
  using busy_0 [of ps] by (auto simp: list_all_length)

lemma busy_finish: "i < length ps \<Longrightarrow> ps ! i \<noteq> Finished \<Longrightarrow> Suc (busy (ps[i := Finished])) = busy ps"
proof (induction ps arbitrary: i)
  case (Cons p ps)
  then show ?case by (cases i) auto
qed simp

lemma busy_answer:
  "i < length ps \<Longrightarrow> ps ! i = Calling \<Longrightarrow> busy (ps[i := Sending r]) = busy ps"
proof (induction ps arbitrary: i)
  case (Cons p ps)
  then show ?case by (cases i) auto
qed simp

lemma fan_inv_hedges: "fan_count n s \<Longrightarrow> length (f_hedges s) \<le> n"
proof -
  assume i: "fan_count n s"
  then have "card (f_hedged s) \<le> card {..<n}" by (intro card_mono) (simp_all add: fan_count_def)
  with i show ?thesis by (simp add: fan_count_def)
qed

lemma fan_inv_init: "fan_inv n primary hedge (fan_init n)"
proof -
  have "busy (replicate n Calling) = n" by (simp add: busy_def)
  then show ?thesis
    by (auto simp: fan_inv_def fan_count_def fan_phase_def fan_results_def fan_lossless_def fan_init_def)
qed

lemma chan_send_simps [simp]:
  "f_primaries (chan_send r s) = f_primaries s" "f_hedges (chan_send r s) = f_hedges s"
  "f_hedged (chan_send r s) = f_hedged s" "f_monitor (chan_send r s) = f_monitor s"
  "f_closer (chan_send r s) = f_closer s" "f_ctx_done (chan_send r s) = f_ctx_done s"
  "f_hedge_cancelled (chan_send r s) = f_hedge_cancelled s" "f_closed (chan_send r s) = f_closed s"
  "f_received (chan_send r s) = f_received s" "f_main_done (chan_send r s) = f_main_done s"
  "f_chan (chan_send r s) = (if f_closed s then f_chan s else f_chan s @ [r])"
  "f_sent (chan_send r s) = (if f_closed s then f_sent s else f_sent s @ [r])"
  "f_answered (chan_send r s) = f_answered s" "f_timed_out (chan_send r s) = f_timed_out s"
  "f_panicked (chan_send r s) = (if f_closed s then True else f_panicked s)"
  by (simp_all add: chan_send_def)

lemma fan_step_count:
  assumes "fan_step n primary hedge s s'" and "fan_count n s" shows "fan_count n s'"
  using assms
proof (induction rule: fan_step.induct)
  case (primary_fails i s)
  then show ?case using busy_finish [of i "f_primaries s"] by (auto simp: fan_count_def)
next
  case (primary_sends i s r)
  then show ?case using busy_finish [of i "f_primaries s"] by (auto simp: fan_count_def)
next
  case (primary_drops i s r)
  then show ?case using busy_finish [of i "f_primaries s"] by (auto simp: fan_count_def)
next
  case (hedge_fails i s)
  then show ?case using busy_finish [of i "f_hedges s"] by (auto simp: fan_count_def)
next
  case (hedge_sends i s r)
  then show ?case using busy_finish [of i "f_hedges s"] by (auto simp: fan_count_def)
next
  case (hedge_drops i s r)
  then show ?case using busy_finish [of i "f_hedges s"] by (auto simp: fan_count_def)
next
  case (monitor_ticks s order)
  from monitor_ticks(2) have "set order = {..<n}" by (metis atLeast_upt set_mset_mset)
  with monitor_ticks show ?case by (auto simp: fan_count_def)
next
  case (monitor_fires s i "is" all)
  then have "finite (f_hedged s)" unfolding fan_count_def by (blast intro: finite_subset)
  with monitor_fires show ?case by (auto simp: fan_count_def)
qed (auto simp: fan_count_def busy_answer)

lemma fan_step_phase:
  assumes "fan_step n primary hedge s s'" and "fan_phase s" shows "fan_phase s'"
  using assms
proof (induction rule: fan_step.induct)
  case (primary_answers i s r)
  then show ?case by (auto simp: fan_phase_def busy_answer)
next
  case (primary_fails i s)
  then show ?case using busy_finish [of i "f_primaries s"] by (auto simp: fan_phase_def)
next
  case (primary_sends i s r)
  then show ?case using busy_finish [of i "f_primaries s"] by (auto simp: fan_phase_def)
next
  case (primary_drops i s r)
  then show ?case using busy_finish [of i "f_primaries s"] by (auto simp: fan_phase_def)
next
  case (hedge_answers i s r)
  then show ?case by (auto simp: fan_phase_def busy_answer)
next
  case (hedge_fails i s)
  then show ?case using busy_finish [of i "f_hedges s"] by (auto simp: fan_phase_def)
next
  case (hedge_sends i s r)
  then show ?case using busy_finish [of i "f_hedges s"] by (auto simp: fan_phase_def)
next
  case (hedge_drops i s r)
  then show ?case using busy_finish [of i "f_hedges s"] by (auto simp: fan_phase_def)
qed (auto simp: fan_phase_def busy_0)

lemma sending_busy: "fan_phase s \<Longrightarrow> i < length (f_primaries s) \<Longrightarrow> f_primaries s ! i = Sending r \<Longrightarrow>
    f_closer s = CWaitPrimaries"
  using busy_pos [of i "f_primaries s"] by (auto simp: fan_phase_def)

lemma fan_step_results:
  assumes "fan_step n primary hedge s s'" and "fan_results n primary hedge s"
  shows "fan_results n primary hedge s'"
  using assms
proof (induction rule: fan_step.induct)
  case (monitor_fires s i "is" all)
  then show ?case by (auto simp: fan_results_def nth_append less_Suc_eq)
qed (auto simp: fan_results_def nth_list_update)

lemma still_sending_update:
  "still_sending n ps r \<Longrightarrow> i < length ps \<Longrightarrow> ps ! i \<noteq> Sending r \<Longrightarrow> still_sending n (ps[i := q]) r"
  unfolding still_sending_def by (metis nth_list_update_neq)

lemma still_sending_now: "i < length ps \<Longrightarrow> length ps = n \<Longrightarrow> still_sending n (ps[i := Sending r]) r"
  unfolding still_sending_def by (metis nth_list_update_eq)

lemma fan_step_lossless:
  assumes "fan_step n primary hedge s s'" and "fan_lossless n s" and "fan_phase s"
  shows "fan_lossless n s'"
  using assms
proof (induction rule: fan_step.induct)
  case (primary_answers i s r)
  then show ?case
    by (auto simp: fan_lossless_def still_sending_now intro: still_sending_update)
next
  case (primary_fails i s)
  then show ?case by (auto simp: fan_lossless_def intro: still_sending_update)
next
  case (primary_sends i s r)
  have "f_closer s = CWaitPrimaries" using sending_busy primary_sends by blast
  then have c: "\<not> f_closed s" using primary_sends by (simp add: fan_phase_def)
  have "still_sending n ((f_primaries s)[i := Finished]) x" if "still_sending n (f_primaries s) x" "x \<noteq> r" for x
    using that primary_sends(1,2) by (intro still_sending_update) auto
  with primary_sends c show ?case by (auto simp: fan_lossless_def)
next
  case (primary_drops i s r)
  have "f_closer s = CWaitPrimaries" using sending_busy primary_drops by blast
  with primary_drops show ?case by (simp add: fan_lossless_def)
qed (auto simp: fan_lossless_def)

lemma fan_step_inv [inv_rules]:
  "fan_step n primary hedge s s' \<Longrightarrow> fan_inv n primary hedge s \<Longrightarrow> fan_inv n primary hedge s'"
  unfolding fan_inv_def using fan_step_count fan_step_phase fan_step_results fan_step_lossless by blast

lemma fan_reachable_inv: "fan_reachable n primary hedge s \<Longrightarrow> fan_inv n primary hedge s"
  unfolding fan_reachable_def
  by (induction rule: rtranclp_induct) (rule fan_inv_init, rule fan_step_inv)

section \<open>Progress\<close>

text \<open>The work left: every step except a tick of the monitor's timer makes it smaller.\<close>

fun call_work :: "call_pc \<Rightarrow> nat" where
  "call_work Calling = 3"
| "call_work (Sending r) = 2"
| "call_work Finished = 0"

fun monitor_work :: "monitor_pc \<Rightarrow> nat" where
  "monitor_work MSelect = 2"
| "monitor_work (MVisit is all) = 3 + length is"
| "monitor_work MWaitHedges = 1"
| "monitor_work MDone = 0"

fun closer_work :: "closer_pc \<Rightarrow> nat" where
  "closer_work CWaitPrimaries = 4"
| "closer_work CCancel = 3"
| "closer_work CWaitMonitor = 2"
| "closer_work CClose = 1"
| "closer_work CDone = 0"

definition work :: "nat \<Rightarrow> fan \<Rightarrow> nat" where
  "work n s = sum_list (map call_work (f_primaries s)) + sum_list (map call_work (f_hedges s)) +
     4 * (n - card (f_hedged s)) + monitor_work (f_monitor s) + closer_work (f_closer s) +
     length (f_chan s) + (if f_ctx_done s then 0 else 1) + (if f_main_done s then 0 else 1)"

definition is_tick :: "fan \<Rightarrow> fan \<Rightarrow> bool" where
  "is_tick s s' \<longleftrightarrow> f_monitor s = MSelect \<and> (\<exists>is. f_monitor s' = MVisit is True)"

lemma call_work_update:
  "i < length ps \<Longrightarrow> call_work q < call_work (ps ! i) \<Longrightarrow>
   sum_list (map call_work (ps[i := q])) + (call_work (ps ! i) - call_work q) = sum_list (map call_work ps)"
proof (induction ps arbitrary: i)
  case (Cons p ps)
  then show ?case by (cases i) (auto simp: add.assoc)
qed simp

lemma fan_step_work:
  assumes "fan_step n primary hedge s s'" and "fan_count n s"
  shows "(if is_tick s s' then work n s' \<le> work n s + (n + 1) else work n s' < work n s)"
  using assms
proof (induction rule: fan_step.induct)
  case (primary_answers i s r)
  then show ?case using call_work_update [of i "f_primaries s" "Sending r"] by (simp add: work_def is_tick_def)
next
  case (primary_fails i s)
  then show ?case using call_work_update [of i "f_primaries s" Finished] by (simp add: work_def is_tick_def)
next
  case (primary_sends i s r)
  then show ?case using call_work_update [of i "f_primaries s" Finished] by (simp add: work_def is_tick_def)
next
  case (primary_drops i s r)
  then show ?case using call_work_update [of i "f_primaries s" Finished] by (simp add: work_def is_tick_def)
next
  case (hedge_answers i s r)
  then show ?case using call_work_update [of i "f_hedges s" "Sending r"] by (simp add: work_def is_tick_def)
next
  case (hedge_fails i s)
  then show ?case using call_work_update [of i "f_hedges s" Finished] by (simp add: work_def is_tick_def)
next
  case (hedge_sends i s r)
  then show ?case using call_work_update [of i "f_hedges s" Finished] by (simp add: work_def is_tick_def)
next
  case (hedge_drops i s r)
  then show ?case using call_work_update [of i "f_hedges s" Finished] by (simp add: work_def is_tick_def)
next
  case (monitor_ticks s order)
  have "length order = n" using monitor_ticks(2) by (metis diff_zero length_upt mset_eq_length)
  with monitor_ticks(1) show ?case by (simp add: work_def is_tick_def)
next
  case (monitor_fires s i "is" all)
  have f: "finite (f_hedged s)" "insert i (f_hedged s) \<subseteq> {..<n}"
    using monitor_fires by (auto simp: fan_count_def intro: finite_subset)
  then have "card (insert i (f_hedged s)) \<le> card {..<n}" by (intro card_mono) simp_all
  then have "n - card (f_hedged s) = Suc (n - card (insert i (f_hedged s)))"
    using f monitor_fires(2) by simp
  with monitor_fires show ?case by (simp add: work_def is_tick_def)
next
  case (main_receives s r rs)
  then show ?case by (simp add: work_def is_tick_def)
qed (simp_all add: work_def is_tick_def)

text \<open>A goroutine that has something to send finds room on the channel.\<close>

lemma room_to_send:
  assumes "fan_count n s" and "0 < busy (f_primaries s) + busy (f_hedges s)"
  shows "length (f_chan s) < 2 * n"
proof -
  have "length (f_sent s) + busy (f_primaries s) + busy (f_hedges s) \<le> n + length (f_hedges s)"
    and "length (f_sent s) = length (f_received s) + length (f_chan s)"
    using assms(1) unfolding fan_count_def by (blast, metis length_append)
  with fan_inv_hedges [OF assms(1)] assms(2) show ?thesis by linarith
qed

text \<open>Until the main goroutine has returned, some step other than a tick is possible.\<close>

lemma fan_progress:
  assumes inv: "fan_inv n primary hedge s" and nd: "\<not> f_main_done s"
  shows "\<exists>s'. fan_step n primary hedge s s' \<and> \<not> is_tick s s'"
proof -
  note d = inv [unfolded fan_inv_def fan_count_def fan_phase_def]
  have go: ?thesis if "fan_step n primary hedge s s'" "f_monitor s' = f_monitor s" for s'
    using that by (auto simp: is_tick_def)
  show ?thesis
  proof (cases "busy (f_primaries s) = 0")
    case False
    then obtain i where i: "i < length (f_primaries s)" "f_primaries s ! i \<noteq> Finished"
      by (auto simp: busy_0 list_all_length)
    show ?thesis
    proof (cases "f_primaries s ! i")
      case Calling
      show ?thesis by (rule go [OF primary_fails [OF i(1) Calling]]) simp
    next
      case (Sending r)
      have "length (f_chan s) < 2 * n" using room_to_send inv busy_pos [OF i] by (simp add: fan_inv_def)
      then show ?thesis by (intro go [OF primary_sends [OF i(1) Sending]]) simp_all
    qed (use i in simp)
  next
    case b: True
    show ?thesis
    proof (cases "busy (f_hedges s) = 0")
      case False
      then obtain i where i: "i < length (f_hedges s)" "f_hedges s ! i \<noteq> Finished"
        by (auto simp: busy_0 list_all_length)
      show ?thesis
      proof (cases "f_hedges s ! i")
        case Calling
        show ?thesis by (rule go [OF hedge_fails [OF i(1) Calling]]) simp
      next
        case (Sending r)
        have "length (f_chan s) < 2 * n" using room_to_send inv busy_pos [OF i] by (simp add: fan_inv_def)
        then show ?thesis by (intro go [OF hedge_sends [OF i(1) Sending]]) simp_all
      qed (use i in simp)
    next
      case h: True
      show ?thesis
      proof (cases "f_closer s")
        case CWaitPrimaries
        show ?thesis using b by (intro go [OF closer_waited [OF CWaitPrimaries]]) (simp_all add: busy_0)
      next
        case CCancel
        show ?thesis by (intro go [OF closer_cancels [OF CCancel]]) simp
      next
        case CClose
        show ?thesis by (intro go [OF closer_closes [OF CClose]]) simp
      next
        case CDone
        then have c: "f_closed s" using d by simp
        show ?thesis
        proof (cases "f_chan s")
          case Nil
          show ?thesis by (intro go [OF main_ends [OF Nil c nd]]) simp
        next
          case (Cons r rs)
          show ?thesis by (intro go [OF main_receives [OF Cons nd]]) simp
        qed
      next
        case CWaitMonitor
        then have c: "hedge_ctx_done s" using d by (simp add: hedge_ctx_done_def)
        show ?thesis
        proof (cases "f_monitor s")
          case MSelect
          show ?thesis
            by (rule exI, rule conjI [OF monitor_stops [OF MSelect c]]) (simp add: is_tick_def)
        next
          case (MVisit "is" all)
          show ?thesis
          proof (cases "is")
            case Nil
            show ?thesis
            proof (cases all)
              case True
              with MVisit Nil have "f_monitor s = MVisit [] True" by simp
              from monitor_resolved [OF this] show ?thesis using MVisit by (auto simp: is_tick_def)
            next
              case False
              with MVisit Nil have "f_monitor s = MVisit [] False" by simp
              from monitor_loops [OF this] show ?thesis using MVisit by (auto simp: is_tick_def)
            qed
          next
            case (Cons i js)
            with MVisit have "f_monitor s = MVisit (i # js) all" by simp
            from monitor_passes [OF this] show ?thesis using MVisit by (auto simp: is_tick_def)
          qed
        next
          case MWaitHedges
          from monitor_exits [OF this] h show ?thesis
            using MWaitHedges by (auto simp: is_tick_def busy_0)
        next
          case MDone
          show ?thesis by (intro go [OF closer_joins [OF CWaitMonitor MDone]]) simp
        qed
      qed
    qed
  qed
qed

text \<open>Runs with their number of steps and of ticks.\<close>

inductive fan_run ::
  "nat \<Rightarrow> (nat \<Rightarrow> QuoteResult \<Rightarrow> bool) \<Rightarrow> (QuoteResult \<Rightarrow> bool) \<Rightarrow> nat \<Rightarrow> nat \<Rightarrow> fan \<Rightarrow> bool"
  for n primary hedge where
  start: "fan_run n primary hedge 0 0 (fan_init n)"
| step: "fan_run n primary hedge k m s \<Longrightarrow> fan_step n primary hedge s s' \<Longrightarrow> \<not> is_tick s s' \<Longrightarrow>
    fan_run n primary hedge k (Suc m) s'"
| tick: "fan_run n primary hedge k m s \<Longrightarrow> fan_step n primary hedge s s' \<Longrightarrow> is_tick s s' \<Longrightarrow>
    fan_run n primary hedge (Suc k) (Suc m) s'"

lemma fan_run_reachable: "fan_run n primary hedge k m s \<Longrightarrow> fan_reachable n primary hedge s"
  unfolding fan_reachable_def
  by (induction rule: fan_run.induct) (auto intro: rtranclp.rtrancl_into_rtrancl)

lemma fan_run_bound:
  "fan_run n primary hedge k m s \<Longrightarrow> m + work n s \<le> work n (fan_init n) + k * (n + 2)"
proof (induction rule: fan_run.induct)
  case (step k m s s')
  have "fan_count n s" using fan_reachable_inv [OF fan_run_reachable [OF step(1)]] by (simp add: fan_inv_def)
  with fan_step_work [OF step(2)] step(3,4) show ?case by simp
next
  case (tick k m s s')
  have "fan_count n s" using fan_reachable_inv [OF fan_run_reachable [OF tick(1)]] by (simp add: fan_inv_def)
  with fan_step_work [OF tick(2)] tick(3,4) show ?case by simp
qed simp

lemma work_init: "work n (fan_init n) = 7 * n + 8"
  by (simp add: work_def fan_init_def sum_list_replicate)

lemma fan_step_mono:
  assumes "fan_step n primary hedge s s'"
    and "\<And>i r. i < length (f_primaries s) \<Longrightarrow> primary i r \<Longrightarrow> primary' i r" and "\<And>r. hedge r \<Longrightarrow> hedge' r"
  shows "fan_step n primary' hedge' s s'"
  using assms by (induction rule: fan_step.induct) (auto intro: fan_step.intros)

lemma fan_reachable_mono:
  assumes "fan_reachable n primary hedge s"
    and "\<And>i r. i < n \<Longrightarrow> primary i r \<Longrightarrow> primary' i r" and "\<And>r. hedge r \<Longrightarrow> hedge' r"
  shows "fan_reachable n primary' hedge' s"
  using assms(1) unfolding fan_reachable_def
proof (induction rule: rtranclp_induct)
  case (step s s')
  have "fan_inv n primary hedge s" using step(1) by (simp add: fan_reachable_inv fan_reachable_def)
  then have "length (f_primaries s) = n" by (simp add: fan_inv_def fan_count_def)
  with fan_step_mono [OF step(2), of primary' hedge'] assms(2,3)
  have "fan_step n primary' hedge' s s'" by simp
  with step(3) show ?case by (rule rtranclp.rtrancl_into_rtrancl)
qed simp

lemma fan_out_loses_nothing_core:
  assumes "fan_reachable n primary hedge s" and "f_main_done s"
  shows "list_all (\<lambda>p. p = Finished) (f_primaries s @ f_hedges s) \<and>
    f_monitor s = MDone \<and> f_closer s = CDone \<and>
    f_received s = f_sent s \<and> length (f_received s) \<le> 2 * n \<and>
    (\<forall>r \<in> set (f_received s). hedge r \<or> (\<exists>i<n. primary i r)) \<and>
    (f_timed_out s \<or> set (f_answered s) \<subseteq> set (f_received s))"
proof -
  have c: "fan_count n s" and ph: "fan_phase s" and rs: "fan_results n primary hedge s" and ll: "fan_lossless n s"
    using fan_reachable_inv [OF assms(1)] by (simp_all add: fan_inv_def)
  have closed: "f_closer s = CDone" "f_chan s = []" using ph assms(2) by (auto simp: fan_phase_def)
  then have b: "busy (f_primaries s) = 0" "f_monitor s = MDone" "busy (f_hedges s) = 0"
    using ph by (simp_all add: fan_phase_def)
  have r: "f_received s = f_sent s" using c closed(2) unfolding fan_count_def by simp
  have "length (f_sent s) \<le> n + length (f_hedges s)" using c unfolding fan_count_def by linarith
  with r have len: "length (f_received s) \<le> 2 * n" using fan_inv_hedges [OF c] by simp
  have "\<not> still_sending n (f_primaries s) x" for x
    using b(1) ll by (auto simp: still_sending_def busy_0 list_all_length fan_lossless_def)
  with ll r have "f_timed_out s \<or> set (f_answered s) \<subseteq> set (f_received s)"
    by (auto simp: fan_lossless_def)
  with b closed r len rs show ?thesis by (simp add: busy_0 fan_results_def)
qed

section \<open>Properties\<close>


lemma reach_start: "fan_reachable n primary hedge (fan_init n)"
  by (simp add: fan_reachable_def)

lemma reach_step:
  "fan_reachable n primary hedge s \<Longrightarrow> fan_step n primary hedge s s' \<Longrightarrow> fan_reachable n primary hedge s'"
  unfolding fan_reachable_def by (rule rtranclp.rtrancl_into_rtrancl)

definition quote_example :: QuoteResult where
  "quote_example = \<lparr>res_RequestID = ''r1'', res_CarrierID = ''alpha'',
    res_Premium = \<lparr>Amount = 9, Currency = ''USD''\<rparr>, res_ExpiresAt = 1, res_CarrierRef = [],
    res_Latency = 0, res_IsHedged = False\<rparr>"

abbreviation alpha_answers :: "nat \<Rightarrow> QuoteResult \<Rightarrow> bool" where
  "alpha_answers \<equiv> \<lambda>i r. r = quote_example"

lemma example_sending:
  "fan_reachable 1 alpha_answers (\<lambda>_. False)
     ((fan_init 1)\<lparr>f_primaries := [Sending quote_example], f_answered := [quote_example]\<rparr>)"
proof -
  have "fan_step 1 alpha_answers (\<lambda>_. False) (fan_init 1)
     ((fan_init 1)\<lparr>f_primaries := (f_primaries (fan_init 1))[0 := Sending quote_example],
        f_answered := f_answered (fan_init 1) @ [quote_example]\<rparr>)"
    by (rule primary_answers) (simp_all add: fan_init_def)
  from reach_step [OF reach_start this] show ?thesis by (simp add: fan_init_def)
qed


text \<open>C4. When the main goroutine has left its loop, all goroutines of the fan-out have finished, it
  has received exactly what was sent, at most two results per carrier, each given by an adapter; and if
  the request's deadline did not end the fan-out, every result a primary call answered is among them.\<close>

theorem fan_out_loses_nothing:
  assumes "fan_reachable n primary hedge s" and "f_main_done s"
  shows "list_all (\<lambda>p. p = Finished) (f_primaries s @ f_hedges s) \<and>
    f_monitor s = MDone \<and> f_closer s = CDone \<and>
    f_received s = f_sent s \<and> length (f_received s) \<le> 2 * n \<and>
    (\<forall>r \<in> set (f_received s). hedge r \<or> (\<exists>i<n. primary i r)) \<and>
    (f_timed_out s \<or> set (f_answered s) \<subseteq> set (f_received s))"
  using assms by (rule fan_out_loses_nothing_core)

lemma example_finished:
  "\<exists>s. fan_reachable 1 alpha_answers (\<lambda>_. False) s \<and> f_main_done s \<and> f_answered s = [quote_example] \<and>
     \<not> f_timed_out s \<and> f_received s = [quote_example]"
proof -
  let ?R = "fan_reachable 1 alpha_answers (\<lambda>_. False)"
  let ?s1 = "(fan_init 1)\<lparr>f_primaries := [Sending quote_example], f_answered := [quote_example]\<rparr>"
  let ?s2 = "?s1\<lparr>f_primaries := [Finished], f_chan := [quote_example], f_sent := [quote_example]\<rparr>"
  let ?s3 = "?s2\<lparr>f_closer := CCancel, f_ctx_done := True\<rparr>"
  let ?s4 = "?s3\<lparr>f_closer := CWaitMonitor, f_hedge_cancelled := True\<rparr>"
  let ?s5 = "?s4\<lparr>f_monitor := MWaitHedges\<rparr>"
  let ?s6 = "?s5\<lparr>f_monitor := MDone\<rparr>"
  let ?s7 = "?s6\<lparr>f_closer := CClose\<rparr>"
  let ?s8 = "?s7\<lparr>f_closer := CDone, f_closed := True\<rparr>"
  let ?s9 = "?s8\<lparr>f_chan := [], f_received := [quote_example]\<rparr>"
  let ?s10 = "?s9\<lparr>f_main_done := True\<rparr>"
  have r2: "?R ?s2"
    using reach_step [OF example_sending primary_sends [of 0 ?s1 quote_example 1]]
    by (simp add: fan_init_def chan_send_def)
  have r3: "?R ?s3" by (rule reach_step [OF r2 closer_waited]) (simp_all add: fan_init_def)
  have r4: "?R ?s4" by (rule reach_step [OF r3 closer_cancels]) simp
  have r5: "?R ?s5" by (rule reach_step [OF r4 monitor_stops]) (simp_all add: fan_init_def hedge_ctx_done_def)
  have r6: "?R ?s6" by (rule reach_step [OF r5 monitor_exits]) (simp_all add: fan_init_def)
  have r7: "?R ?s7" by (rule reach_step [OF r6 closer_joins]) (simp_all add: fan_init_def)
  have r8: "?R ?s8" by (rule reach_step [OF r7 closer_closes]) simp
  have r9: "?R ?s9"
    using reach_step [OF r8 main_receives [of ?s8 quote_example "[]"]] by (simp add: fan_init_def)
  have r10: "?R ?s10" by (rule reach_step [OF r9 main_ends]) (simp_all add: fan_init_def)
  show ?thesis by (rule exI [of _ ?s10]) (use r10 in \<open>simp add: fan_init_def\<close>)
qed

theorem fan_out_loses_nothing_witness:
  "\<exists>s :: fan. f_main_done s \<and> set [quote_example] \<subseteq> set (f_received s) \<and> f_received s = f_sent s"
proof -
  obtain s where s: "fan_reachable 1 alpha_answers (\<lambda>_. False) s" "f_main_done s"
    "f_answered s = [quote_example]" "\<not> f_timed_out s"
    using example_finished by blast
  from fan_out_loses_nothing [OF s(1,2)] s(2-4) have "set [quote_example] \<subseteq> set (f_received s) \<and> f_received s = f_sent s"
    by metis
  with s(2) show ?thesis by blast
qed

text \<open>C25. A fan-out finishes: in any run with \<open>k\<close> ticks of the monitor's timer there are at most
  \<open>7 * n + 8 + k * (n + 2)\<close> steps, and as long as the main goroutine has not returned a step other
  than a tick is possible. No goroutine waits for another for ever.\<close>

theorem fan_out_terminates:
  assumes "fan_run n primary hedge k m s"
  shows "m \<le> 7 * n + 8 + k * (n + 2) \<and>
    (f_main_done s \<or> (\<exists>s'. fan_step n primary hedge s s' \<and> \<not> is_tick s s'))"
  using fan_run_bound [OF assms] fan_progress [OF fan_reachable_inv [OF fan_run_reachable [OF assms]]]
  by (auto simp: work_init)

theorem fan_out_terminates_witness:
  "\<exists>s s'. fan_run 1 alpha_answers (\<lambda>_. False) 1 1 s \<and> fan_step 1 alpha_answers (\<lambda>_. False) s s' \<and> \<not> is_tick s s'"
proof -
  let ?s = "(fan_init 1)\<lparr>f_monitor := MVisit [0] True\<rparr>"
  have "fan_step 1 alpha_answers (\<lambda>_. False) (fan_init 1) ?s"
    by (rule monitor_ticks) (simp_all add: fan_init_def)
  from fan_run.tick [OF fan_run.start this]
  have run: "fan_run 1 alpha_answers (\<lambda>_. False) 1 1 ?s" by (simp add: is_tick_def fan_init_def)
  have "\<not> f_main_done ?s" by (simp add: fan_init_def)
  with fan_out_terminates [OF run] run show ?thesis by blast
qed

end
