(* ===== verification/RF_Quote_Repo.thy ===== *)
theory RF_Quote_Repo
  imports RF_Orchestrator "HOL-Library.AList"
begin

text \<open>
  Persistence of quotes: the contract of \<open>ports.QuoteRepository\<close> as the locale
  \<open>quote_repository\<close>, and its Spanner implementation \<open>internal/adapter/spanner/quote_repo.go\<close>
  over a model of the \<open>Quotes\<close> table (primary key \<open>(RequestID, CarrierID)\<close>) with the meaning of
  the three statements the code sends: \<open>InsertOrUpdate\<close> in one commit, the \<open>SELECT\<close> and the
  \<open>DELETE\<close>. Whether Spanner answers or fails is an argument of each operation.
\<close>

section \<open>The contract\<close>

text \<open>\<open>last_for c qs\<close>: the last result of carrier \<open>c\<close> in a list.\<close>

definition last_for :: "string \<Rightarrow> QuoteResult list \<Rightarrow> QuoteResult option" where
  "last_for c qs = find (\<lambda>q. res_CarrierID q = c) (rev qs)"

definition overlay ::
  "(string \<Rightarrow> QuoteResult \<Rightarrow> QuoteResult) \<Rightarrow> string \<Rightarrow> QuoteResult list \<Rightarrow>
     (string \<Rightarrow> string \<Rightarrow> QuoteResult option) \<Rightarrow> string \<Rightarrow> string \<Rightarrow> QuoteResult option" where
  "overlay nrm k qs m k' c =
     (if k' = k then (case last_for c qs of Some q \<Rightarrow> Some (nrm k q) | None \<Rightarrow> m k c) else m k' c)"

lemma find_distinct:
  "distinct (map f xs) \<Longrightarrow> find (\<lambda>x. f x = c) xs = Some q \<longleftrightarrow> q \<in> set xs \<and> f q = c"
  by (induction xs) auto

lemma last_for_distinct:
  "distinct (map res_CarrierID qs) \<Longrightarrow> last_for c qs = Some q \<longleftrightarrow> q \<in> set qs \<and> res_CarrierID q = c"
  using find_distinct [of res_CarrierID "rev qs" c q] by (simp add: last_for_def flip: rev_map)

lemma last_for_snoc: "last_for c (qs @ [q]) = (if res_CarrierID q = c then Some q else last_for c qs)"
  by (simp add: last_for_def)

lemma last_for_carrier: "last_for c qs = Some q \<Longrightarrow> q \<in> set qs \<and> res_CarrierID q = c"
  unfolding last_for_def by (metis (mono_tags, lifting) find_Some_iff in_set_conv_nth set_rev)

locale quote_repository =
  fixes ok :: "'r \<Rightarrow> bool"
    and stored :: "'r \<Rightarrow> string \<Rightarrow> string \<Rightarrow> QuoteResult option"
    and nrm :: "string \<Rightarrow> QuoteResult \<Rightarrow> QuoteResult"
    and save :: "'e \<Rightarrow> gotime \<Rightarrow> string \<Rightarrow> QuoteResult list \<Rightarrow> 'r \<Rightarrow> go_error option \<times> 'r"
    and find_quotes :: "'f \<Rightarrow> string \<Rightarrow> gotime \<Rightarrow> 'r \<Rightarrow> go_error + QuoteResult list \<times> bool"
    and purge :: "'d \<Rightarrow> gotime \<Rightarrow> 'r \<Rightarrow> (go_error + int) \<times> 'r"
    and limit :: nat
  assumes save_keeps: "ok r \<Longrightarrow> ok (snd (save e now k qs r))"
    and save_done: "ok r \<Longrightarrow> save e now k qs r = (None, r') \<Longrightarrow> stored r' = overlay nrm k qs (stored r)"
    and save_failed: "ok r \<Longrightarrow> save e now k qs r = (Some err, r') \<Longrightarrow>
      stored r' = stored r \<or> stored r' = overlay nrm k qs (stored r)"
    and nrm_keeps: "res_CarrierID (nrm k q) = res_CarrierID q" "res_ExpiresAt (nrm k q) = res_ExpiresAt q"
      "res_Premium (nrm k q) = res_Premium q"
    and stored_carrier: "ok r \<Longrightarrow> stored r k c = Some q \<Longrightarrow> res_CarrierID q = c"
    and found: "ok r \<Longrightarrow> card {c. \<exists>q. stored r k c = Some q \<and> now < res_ExpiresAt q} \<le> limit \<Longrightarrow>
      find_quotes f k now r = Inr (qs, hit) \<Longrightarrow>
      (\<forall>q. q \<in> set qs \<longleftrightarrow> stored r k (res_CarrierID q) = Some q \<and> now < res_ExpiresAt q) \<and>
      distinct (map res_CarrierID qs) \<and> sorted (map (\<lambda>q. Amount (res_Premium q)) qs) \<and> (hit \<longleftrightarrow> qs \<noteq> [])"
    and purge_keeps: "ok r \<Longrightarrow> ok (snd (purge d now r))"
    and purge_only: "ok r \<Longrightarrow> stored (snd (purge d now r)) k c = Some q \<Longrightarrow> stored r k c = Some q"
    and purge_spares: "ok r \<Longrightarrow> stored r k c = Some q \<Longrightarrow> now < res_ExpiresAt q \<Longrightarrow>
      stored (snd (purge d now r)) k c = Some q"
    and purge_done: "ok r \<Longrightarrow> purge d now r = (Inr n, r') \<Longrightarrow> stored r' k c = Some q \<Longrightarrow> now < res_ExpiresAt q"
begin

text \<open>What was saved under a fresh key is what a later lookup finds, less what has expired.\<close>

lemma saved_then_found:
  assumes "ok r" "save e t0 k qs r = (None, r')" "\<forall>c. stored r k c = None"
    and "distinct (map res_CarrierID qs)" "length qs \<le> limit"
    and "find_quotes f k now r' = Inr (rs, hit)"
  shows "set rs = nrm k ` {q \<in> set qs. now < res_ExpiresAt q} \<and> (hit \<longleftrightarrow> (\<exists>q\<in>set qs. now < res_ExpiresAt q)) \<and>
    distinct (map res_CarrierID rs) \<and> sorted (map (\<lambda>q. Amount (res_Premium q)) rs)"
proof -
  let ?live = "\<lambda>q. q \<in> set qs \<and> now < res_ExpiresAt q"
  have ok': "ok r'" using save_keeps [OF assms(1), of e t0 k qs] assms(2) by simp
  have st: "stored r' k c = Some x \<longleftrightarrow> (\<exists>q \<in> set qs. res_CarrierID q = c \<and> x = nrm k q)" for c x
  proof -
    have "stored r' k c = Some x \<longleftrightarrow> (\<exists>q. last_for c qs = Some q \<and> x = nrm k q)"
      using assms(3) by (auto simp: save_done [OF assms(1,2)] overlay_def split: option.splits)
    then show ?thesis by (auto simp: last_for_distinct [OF assms(4)])
  qed
  have "{c. \<exists>q. stored r' k c = Some q \<and> now < res_ExpiresAt q} \<subseteq> res_CarrierID ` set qs"
    using st by auto
  then have "card {c. \<exists>q. stored r' k c = Some q \<and> now < res_ExpiresAt q} \<le> card (res_CarrierID ` set qs)"
    by (intro card_mono) simp_all
  also have "\<dots> \<le> limit" using assms(5) card_length card_image_le le_trans by (metis List.finite_set)
  finally have f: "\<And>q. q \<in> set rs \<longleftrightarrow> stored r' k (res_CarrierID q) = Some q \<and> now < res_ExpiresAt q"
    "distinct (map res_CarrierID rs)" "hit \<longleftrightarrow> rs \<noteq> []" "sorted (map (\<lambda>q. Amount (res_Premium q)) rs)"
    using found [OF ok' _ assms(6)] by blast+
  have s: "set rs = nrm k ` {q. ?live q}"
    using f(1) st nrm_keeps by (auto simp: image_iff, blast)
  then have "rs \<noteq> [] \<longleftrightarrow> (\<exists>q\<in>set qs. now < res_ExpiresAt q)" by (cases rs) auto
  with s f show ?thesis by simp
qed

text \<open>Deleting expired rows is invisible to every later lookup.\<close>

lemma purge_invisible:
  assumes "ok r" "t0 \<le> now"
    and "card {c. \<exists>q. stored r k c = Some q \<and> now < res_ExpiresAt q} \<le> limit"
    and "find_quotes f k now r = Inr (qs, hit)"
    and "find_quotes f' k now (snd (purge d t0 r)) = Inr (qs', hit')"
  shows "set qs' = set qs \<and> hit' = hit"
proof -
  let ?r = "snd (purge d t0 r)"
  have live: "stored ?r k c = Some q \<and> now < res_ExpiresAt q \<longleftrightarrow> stored r k c = Some q \<and> now < res_ExpiresAt q" for c q
    using purge_only [OF assms(1), of d t0 k c q] purge_spares [OF assms(1), of k c q t0 d] assms(2) by auto
  from found [OF assms(1,3,4)] found [OF purge_keeps [OF assms(1)] _ assms(5)] assms(3) live
  have "set qs' = set qs" "hit = (qs \<noteq> [])" "hit' = (qs' \<noteq> [])" by auto
  then show ?thesis by auto
qed

end

section \<open>The Quotes table\<close>

record quoteRow =
  q_RequestID :: string
  q_CarrierID :: string
  q_PremiumCents :: int
  q_Currency :: string
  q_ExpiresAt :: gotime
  q_IsHedged :: bool
  q_LatencyMs :: int
  q_CarrierRef :: string
  q_CreatedAt :: gotime

type_synonym quotes_table = "((string \<times> string) \<times> quoteRow) list"

text \<open>
  How Spanner answers a commit: it is applied; or it fails with an error, and the caller does not know
  whether it was applied. A commit is atomic. \<open>Delete_failed\<close> keeps the rows for which its
  argument holds: a partitioned update that fails may have deleted some of the rows already.
\<close>

datatype commit_outcome = Committed | Commit_failed go_error bool
datatype delete_outcome = Deleted | Delete_failed go_error "quoteRow \<Rightarrow> bool"

definition quote_row :: "gotime \<Rightarrow> string \<Rightarrow> QuoteResult \<Rightarrow> quoteRow" where
  "quote_row now requestID q = \<lparr>q_RequestID = requestID, q_CarrierID = res_CarrierID q,
     q_PremiumCents = Amount (res_Premium q), q_Currency = Currency (res_Premium q),
     q_ExpiresAt = res_ExpiresAt q, q_IsHedged = res_IsHedged q,
     q_LatencyMs = milliseconds (res_Latency q), q_CarrierRef = res_CarrierRef q, q_CreatedAt = now\<rparr>"

definition row_result :: "string \<Rightarrow> quoteRow \<Rightarrow> QuoteResult" where
  "row_result requestID q = \<lparr>res_RequestID = requestID, res_CarrierID = q_CarrierID q,
     res_Premium = \<lparr>Amount = q_PremiumCents q, Currency = q_Currency q\<rparr>, res_ExpiresAt = q_ExpiresAt q,
     res_CarrierRef = q_CarrierRef q, res_Latency = wrap64 (q_LatencyMs q * Millisecond),
     res_IsHedged = q_IsHedged q\<rparr>"

definition upsert :: "gotime \<Rightarrow> string \<Rightarrow> QuoteResult \<Rightarrow> quotes_table \<Rightarrow> quotes_table" where
  "upsert now requestID q t = AList.update (requestID, res_CarrierID q) (quote_row now requestID q) t"

definition Save ::
  "commit_outcome \<Rightarrow> gotime \<Rightarrow> string \<Rightarrow> QuoteResult list \<Rightarrow> quotes_table \<Rightarrow> go_error option \<times> quotes_table" where
  "Save outcome now requestID results t =
     (let t' = fold (upsert now requestID) results t in
      case outcome of
        Committed \<Rightarrow> (None, t')
      | Commit_failed err applied \<Rightarrow> (Some (Wrapped ''save quotes'' err), if applied then t' else t))"

text \<open>
  The query. Spanner orders rows of equal premium as it likes: \<open>tie\<close> is the order it took. The
  outcome is its error, if it fails.
\<close>

definition select_quotes :: "(quoteRow \<Rightarrow> nat) \<Rightarrow> string \<Rightarrow> gotime \<Rightarrow> quotes_table \<Rightarrow> quoteRow list" where
  "select_quotes tie requestID now t =
     take 10000 (sort_key (\<lambda>q. (q_PremiumCents q, tie q))
       (filter (\<lambda>q. q_RequestID q = requestID \<and> q_ExpiresAt q > now) (map snd t)))"

definition FindByRequestID ::
  "go_error option \<times> (quoteRow \<Rightarrow> nat) \<Rightarrow> string \<Rightarrow> gotime \<Rightarrow> quotes_table \<Rightarrow>
     go_error + QuoteResult list \<times> bool" where
  "FindByRequestID f requestID now t =
     (case f of
        (Some err, tie) \<Rightarrow> Inl (Wrapped ''find quotes'' err)
      | (None, tie) \<Rightarrow>
          (let results = map (row_result requestID) (select_quotes tie requestID now t)
           in if length results = 0 then Inr ([], False) else Inr (results, True)))"

definition DeleteExpired ::
  "delete_outcome \<Rightarrow> gotime \<Rightarrow> quotes_table \<Rightarrow> (go_error + int) \<times> quotes_table" where
  "DeleteExpired outcome now t =
     (case outcome of
        Deleted \<Rightarrow>
          (Inr (int (length (filter (\<lambda>(k, q). q_ExpiresAt q \<le> now) t))),
           filter (\<lambda>(k, q). \<not> q_ExpiresAt q \<le> now) t)
      | Delete_failed err kept \<Rightarrow>
          (Inl (Wrapped ''delete expired'' err), filter (\<lambda>(k, q). \<not> q_ExpiresAt q \<le> now \<or> kept q) t))"

text \<open>The table is keyed by the two identifiers of its rows.\<close>

definition table_ok :: "quotes_table \<Rightarrow> bool" where
  "table_ok t \<longleftrightarrow> distinct (map fst t) \<and> (\<forall>(k, q) \<in> set t. k = (q_RequestID q, q_CarrierID q))"

definition stored_quote :: "quotes_table \<Rightarrow> string \<Rightarrow> string \<Rightarrow> QuoteResult option" where
  "stored_quote t k c = map_option (row_result k) (map_of t (k, c))"

text \<open>What comes back of a result: its key as request identifier, its latency in whole milliseconds.\<close>

definition as_stored :: "string \<Rightarrow> QuoteResult \<Rightarrow> QuoteResult" where
  "as_stored k q = q\<lparr>res_RequestID := k, res_Latency := wrap64 (milliseconds (res_Latency q) * Millisecond)\<rparr>"

section \<open>The table keeps the contract\<close>

lemma FindByRequestID_answers: "\<exists>qs hit. FindByRequestID (None, tie) k now t = Inr (qs, hit)"
  by (cases "select_quotes tie k now t = []") (auto simp: FindByRequestID_def)

lemma map_of_upsert: "map_of (upsert now k q t) = (map_of t)((k, res_CarrierID q) \<mapsto> quote_row now k q)"
  by (simp add: upsert_def update_conv')

lemma table_ok_lookup: "table_ok t \<Longrightarrow> map_of t (k, c) = Some q \<longleftrightarrow> q \<in> snd ` set t \<and> q_RequestID q = k \<and> q_CarrierID q = c"
proof -
  assume t: "table_ok t"
  then have "map_of t (k, c) = Some q \<longleftrightarrow> ((k, c), q) \<in> set t"
    by (simp add: table_ok_def map_of_eq_Some_iff)
  also have "\<dots> \<longleftrightarrow> q \<in> snd ` set t \<and> q_RequestID q = k \<and> q_CarrierID q = c"
  proof
    assume "q \<in> snd ` set t \<and> q_RequestID q = k \<and> q_CarrierID q = c"
    then obtain k' where "(k', q) \<in> set t" "q_RequestID q = k" "q_CarrierID q = c" by force
    with t show "((k, c), q) \<in> set t" by (auto simp: table_ok_def)
  qed (use t in \<open>force simp: table_ok_def\<close>)
  finally show ?thesis .
qed

lemma table_ok_iff:
  "table_ok t \<longleftrightarrow> distinct (map fst t) \<and> (\<forall>k q. map_of t k = Some q \<longrightarrow> k = (q_RequestID q, q_CarrierID q))"
  unfolding table_ok_def by (fastforce simp: map_of_eq_Some_iff)

lemma table_ok_upsert [inv_rules]: "table_ok t \<Longrightarrow> table_ok (upsert now k q t)"
  unfolding table_ok_iff map_of_upsert
  by (auto simp: upsert_def distinct_update quote_row_def)

lemma table_ok_saves: "table_ok t \<Longrightarrow> table_ok (fold (upsert now k) qs t)"
  by (induction qs arbitrary: t) (simp_all add: table_ok_upsert)

lemma table_ok_filter [inv_rules]: "table_ok t \<Longrightarrow> table_ok (filter P t)"
  by (auto simp: table_ok_def distinct_map_filterI)

lemma map_of_filter_ok:
  "table_ok t \<Longrightarrow> map_of (filter (\<lambda>(k, q). P q) t) k = (case map_of t k of None \<Rightarrow> None | Some q \<Rightarrow> if P q then Some q else None)"
proof -
  assume "table_ok t"
  then have "distinct (map fst t)" by (simp add: table_ok_def)
  then show ?thesis
    by (induction t) (auto split: option.splits simp: map_of_eq_None_iff image_iff)
qed

lemma row_result_quote_row: "row_result k (quote_row now k q) = as_stored k q"
  by (simp add: row_result_def quote_row_def as_stored_def)

lemma stored_saves:
  "stored_quote (fold (upsert now k) qs t) = overlay as_stored k qs (stored_quote t)"
proof (induction qs rule: rev_induct)
  case Nil
  show ?case by (auto simp: overlay_def last_for_def fun_eq_iff)
next
  case (snoc q qs)
  show ?case
  proof (intro ext)
    fix k' c
    have "stored_quote (fold (upsert now k) (qs @ [q]) t) k' c =
      (if k' = k \<and> c = res_CarrierID q then Some (as_stored k q)
       else stored_quote (fold (upsert now k) qs t) k' c)"
      by (simp add: stored_quote_def map_of_upsert row_result_quote_row)
    then show "stored_quote (fold (upsert now k) (qs @ [q]) t) k' c =
        overlay as_stored k (qs @ [q]) (stored_quote t) k' c"
      unfolding snoc by (simp add: overlay_def last_for_snoc)
  qed
qed

lemma select_all:
  assumes "table_ok t" "card {c. \<exists>q. stored_quote t k c = Some q \<and> now < res_ExpiresAt q} \<le> 10000"
  shows "mset (select_quotes tie k now t) =
      mset (filter (\<lambda>q. q_RequestID q = k \<and> q_ExpiresAt q > now) (map snd t)) \<and>
    distinct (map q_CarrierID (select_quotes tie k now t)) \<and>
    sorted (map q_PremiumCents (select_quotes tie k now t))"
proof -
  let ?P = "\<lambda>q. q_RequestID q = k \<and> q_ExpiresAt q > now"
  let ?rows = "filter ?P (map snd t)"
  let ?sorted = "sort_key (\<lambda>q. (q_PremiumCents q, tie q)) ?rows"
  have "map (\<lambda>q. (q_RequestID q, q_CarrierID q)) (map snd t) = map fst t"
    using assms(1) by (auto simp: table_ok_def)
  then have "distinct (map (\<lambda>q. (q_RequestID q, q_CarrierID q)) (map snd t))"
    using assms(1) by (simp add: table_ok_def del: map_map)
  then have "distinct (map (\<lambda>q. (q_RequestID q, q_CarrierID q)) ?rows)" by (rule distinct_map_filterI)
  then have d: "distinct (map q_CarrierID ?rows)" by (auto simp: distinct_map inj_on_def)
  have "set (map q_CarrierID ?rows) \<subseteq> {c. \<exists>q. stored_quote t k c = Some q \<and> now < res_ExpiresAt q}"
  proof
    fix c assume "c \<in> set (map q_CarrierID ?rows)"
    then obtain q where "q \<in> snd ` set t" "q_RequestID q = k" "q_ExpiresAt q > now" "q_CarrierID q = c" by auto
    then have "stored_quote t k c = Some (row_result k q) \<and> now < res_ExpiresAt (row_result k q)"
      using table_ok_lookup [OF assms(1), of k c q] by (simp add: stored_quote_def row_result_def)
    then show "c \<in> {c. \<exists>q. stored_quote t k c = Some q \<and> now < res_ExpiresAt q}" by blast
  qed
  moreover have "finite {c. \<exists>q. stored_quote t k c = Some q \<and> now < res_ExpiresAt q}"
  proof (rule finite_subset)
    show "{c. \<exists>q. stored_quote t k c = Some q \<and> now < res_ExpiresAt q} \<subseteq> snd ` fst ` set t"
    proof
      fix c assume "c \<in> {c. \<exists>q. stored_quote t k c = Some q \<and> now < res_ExpiresAt q}"
      then obtain q where "map_of t (k, c) = Some q" by (auto simp: stored_quote_def)
      then have "((k, c), q) \<in> set t" by (rule map_of_SomeD)
      then show "c \<in> snd ` fst ` set t" by force
    qed
  qed simp
  ultimately have "card (set (map q_CarrierID ?rows)) \<le> 10000"
    using assms(2) card_mono le_trans by blast
  then have "length ?rows \<le> 10000" using distinct_card [OF d] by simp
  then have sel: "select_quotes tie k now t = ?sorted" by (simp add: select_quotes_def)
  have "sorted (map (\<lambda>q. (q_PremiumCents q, tie q)) ?sorted)" by simp
  then have "sorted_wrt (\<lambda>x y. (q_PremiumCents x, tie x) \<le> (q_PremiumCents y, tie y)) ?sorted"
    by (simp only: sorted_map)
  then have "sorted_wrt (\<lambda>x y. q_PremiumCents x \<le> q_PremiumCents y) ?sorted"
    by (rule sorted_wrt_mono_rel [rotated]) (auto simp: less_eq_prod_def)
  then have "sorted (map q_PremiumCents ?sorted)" by (simp only: sorted_map)
  moreover have "distinct (map q_CarrierID ?sorted)"
    using d by (simp add: distinct_map)
  ultimately show ?thesis unfolding sel by simp
qed

lemma found_table:
  assumes t: "table_ok t" and small: "card {c. \<exists>q. stored_quote t k c = Some q \<and> now < res_ExpiresAt q} \<le> 10000"
    and f: "FindByRequestID f k now t = Inr (qs, hit)"
  shows "(\<forall>q. q \<in> set qs \<longleftrightarrow> stored_quote t k (res_CarrierID q) = Some q \<and> now < res_ExpiresAt q) \<and>
    distinct (map res_CarrierID qs) \<and> sorted (map (\<lambda>q. Amount (res_Premium q)) qs) \<and> (hit \<longleftrightarrow> qs \<noteq> [])"
proof -
  obtain err tie where f': "f = (err, tie)" by fastforce
  with f have qs: "qs = map (row_result k) (select_quotes tie k now t)" and h: "hit \<longleftrightarrow> qs \<noteq> []"
    by (auto simp: FindByRequestID_def Let_def split: option.splits if_splits)
  note s = select_all [OF t small, of tie]
  have set: "set (select_quotes tie k now t) = {q \<in> snd ` set t. q_RequestID q = k \<and> q_ExpiresAt q > now}"
    using s [THEN conjunct1, THEN arg_cong [of _ _ set_mset]] by auto
  have keys: "res_CarrierID (row_result k q) = q_CarrierID q" "res_ExpiresAt (row_result k q) = q_ExpiresAt q"
    "Amount (res_Premium (row_result k q)) = q_PremiumCents q" for q
    by (simp_all add: row_result_def)
  have "q \<in> set qs \<longleftrightarrow> stored_quote t k (res_CarrierID q) = Some q \<and> now < res_ExpiresAt q" for q
  proof
    assume "q \<in> set qs"
    then obtain x where "x \<in> snd ` set t" "q_RequestID x = k" "q_ExpiresAt x > now" "q = row_result k x"
      unfolding qs by (auto simp: set)
    then show "stored_quote t k (res_CarrierID q) = Some q \<and> now < res_ExpiresAt q"
      using table_ok_lookup [OF t, of k "q_CarrierID x" x] by (simp add: stored_quote_def keys)
  next
    assume a: "stored_quote t k (res_CarrierID q) = Some q \<and> now < res_ExpiresAt q"
    then obtain x where x: "map_of t (k, res_CarrierID q) = Some x" "q = row_result k x"
      by (auto simp: stored_quote_def)
    with a table_ok_lookup [OF t] have "x \<in> set (select_quotes tie k now t)" by (auto simp: set keys)
    with x(2) show "q \<in> set qs" unfolding qs by simp
  qed
  with h s show ?thesis unfolding qs by (simp add: keys comp_def)
qed

interpretation spanner: quote_repository table_ok stored_quote as_stored Save FindByRequestID DeleteExpired 10000
proof unfold_locales
  fix t t' :: quotes_table and e now k c q qs d n err f hit
  show "table_ok t \<Longrightarrow> table_ok (snd (Save e now k qs t))"
    by (simp add: Save_def Let_def table_ok_saves split: commit_outcome.split)
  show "table_ok t \<Longrightarrow> Save e now k qs t = (None, t') \<Longrightarrow> stored_quote t' = overlay as_stored k qs (stored_quote t)"
    by (auto simp: Save_def Let_def stored_saves split: commit_outcome.splits)
  show "table_ok t \<Longrightarrow> Save e now k qs t = (Some err, t') \<Longrightarrow>
      stored_quote t' = stored_quote t \<or> stored_quote t' = overlay as_stored k qs (stored_quote t)"
    by (auto simp: Save_def Let_def stored_saves split: commit_outcome.splits if_splits)
  show "table_ok t \<Longrightarrow> stored_quote t k c = Some q \<Longrightarrow> res_CarrierID q = c"
    by (auto simp: stored_quote_def table_ok_lookup row_result_def)
  show "table_ok t \<Longrightarrow> table_ok (snd (DeleteExpired d now t))"
    by (simp add: DeleteExpired_def table_ok_filter split: delete_outcome.split)
  show "table_ok t \<Longrightarrow> stored_quote (snd (DeleteExpired d now t)) k c = Some q \<Longrightarrow> stored_quote t k c = Some q"
    by (auto simp: DeleteExpired_def stored_quote_def map_of_filter_ok
        split: delete_outcome.splits option.splits if_splits)
  show "table_ok t \<Longrightarrow> stored_quote t k c = Some q \<Longrightarrow> now < res_ExpiresAt q \<Longrightarrow>
      stored_quote (snd (DeleteExpired d now t)) k c = Some q"
    by (auto simp: DeleteExpired_def stored_quote_def map_of_filter_ok row_result_def
        split: delete_outcome.splits option.splits if_splits)
  show "table_ok t \<Longrightarrow> DeleteExpired d now t = (Inr n, t') \<Longrightarrow> stored_quote t' k c = Some q \<Longrightarrow> now < res_ExpiresAt q"
    by (auto simp: DeleteExpired_def stored_quote_def map_of_filter_ok row_result_def
        split: delete_outcome.splits option.splits if_splits)
qed (simp_all add: as_stored_def found_table)

section \<open>Properties\<close>

text \<open>C11. Quotes survive the round trip through Spanner: after a successful \<open>Save\<close> of results of
  distinct carriers under a key that had none, a successful lookup at any later or earlier time returns,
  in order of premium, exactly those not expired at that time, each with every field it was saved with
  except that its request identifier is the key and its latency is cut to whole milliseconds; and it
  reports a hit exactly when one is left.\<close>

theorem saved_quotes_are_found:
  assumes "table_ok t" and "Save e t0 k qs t = (None, t')" and "\<forall>c. stored_quote t k c = None"
    and "distinct (map res_CarrierID qs)" and "length qs \<le> 10000"
    and "FindByRequestID f k now t' = Inr (rs, hit)"
  shows "set rs = as_stored k ` {q \<in> set qs. now < res_ExpiresAt q} \<and>
    (hit \<longleftrightarrow> (\<exists>q\<in>set qs. now < res_ExpiresAt q)) \<and>
    distinct (map res_CarrierID rs) \<and> sorted (map (\<lambda>q. Amount (res_Premium q)) rs)"
  using assms by (rule spanner.saved_then_found)

definition stored_example :: QuoteResult where
  "stored_example = \<lparr>res_RequestID = ''r1'', res_CarrierID = ''alpha'',
    res_Premium = \<lparr>Amount = 9, Currency = ''USD''\<rparr>, res_ExpiresAt = 100, res_CarrierRef = [],
    res_Latency = 0, res_IsHedged = False\<rparr>"

theorem saved_quotes_are_found_witness:
  "\<exists>rs. FindByRequestID (None, \<lambda>_. 0) ''k'' 50 (snd (Save Committed 1 ''k'' [stored_example] [])) = Inr (rs, True) \<and>
     set rs = as_stored ''k'' ` {q \<in> set [stored_example]. 50 < res_ExpiresAt q}"
proof -
  obtain t' where s: "Save Committed 1 ''k'' [stored_example] [] = (None, t')" by (simp add: Save_def)
  obtain rs hit where f: "FindByRequestID (None, \<lambda>_. 0) ''k'' 50 t' = Inr (rs, hit)"
    using FindByRequestID_answers by blast
  from saved_quotes_are_found [OF _ s _ _ _ f] s f show ?thesis
    by (auto simp: table_ok_def stored_quote_def stored_example_def)
qed

text \<open>Deleting expired quotes is invisible: whatever the cleanup deletes, wholly or partly, a
  lookup at the time of the cleanup or later returns the same results and the same hit flag as it would
  have returned without the cleanup, as long as no more rows are live than the query's limit.\<close>

theorem delete_expired_invisible:
  assumes "table_ok t" and "t0 \<le> now"
    and "card {c. \<exists>q. stored_quote t k c = Some q \<and> now < res_ExpiresAt q} \<le> 10000"
    and "FindByRequestID f k now t = Inr (qs, hit)"
    and "FindByRequestID f' k now (snd (DeleteExpired d t0 t)) = Inr (qs', hit')"
  shows "set qs' = set qs \<and> hit' = hit"
  using assms by (rule spanner.purge_invisible)

theorem delete_expired_invisible_witness:
  "\<exists>qs. FindByRequestID (None, \<lambda>_. 0) ''k'' 50
      (snd (DeleteExpired Deleted 40 (snd (Save Committed 1 ''k'' [stored_example] [])))) = Inr (qs, True) \<and>
    (\<exists>qs'. FindByRequestID (None, \<lambda>_. 0) ''k'' 50 (snd (Save Committed 1 ''k'' [stored_example] [])) = Inr (qs', True) \<and>
      set qs' = set qs)"
proof -
  let ?t = "snd (Save Committed 1 ''k'' [stored_example] [])"
  have t: "?t = [((''k'', ''alpha''), quote_row 1 ''k'' stored_example)]"
    by (simp add: Save_def upsert_def stored_example_def)
  have ok: "table_ok ?t" unfolding t by (simp add: table_ok_def quote_row_def stored_example_def)
  have "card {c. \<exists>q. stored_quote ?t ''k'' c = Some q \<and> 50 < res_ExpiresAt q} \<le> card {''alpha''}"
    unfolding t by (rule card_mono) (auto simp: stored_quote_def split: if_splits)
  then have c: "card {c. \<exists>q. stored_quote ?t ''k'' c = Some q \<and> 50 < res_ExpiresAt q} \<le> 10000" by simp
  obtain qs where 1: "FindByRequestID (None, \<lambda>_. 0) ''k'' 50 ?t = Inr (qs, True)"
    unfolding t by (simp add: FindByRequestID_def select_quotes_def quote_row_def stored_example_def)
  obtain qs' h where 2: "FindByRequestID (None, \<lambda>_. 0) ''k'' 50 (snd (DeleteExpired Deleted 40 ?t)) = Inr (qs', h)"
    using FindByRequestID_answers by blast
  from delete_expired_invisible [OF ok _ c 1 2] 1 2 show ?thesis by auto
qed

text \<open>A second save of the same carrier replaces the first one's premium.\<close>

lemma save_replaces_earlier_result:
  assumes "table_ok t" "Save Committed t0 k [q] t = (None, t1)"
    and "Save Committed t0 k [q\<lparr>res_Premium := p\<rparr>] t1 = (None, t2)"
  shows "\<exists>r. stored_quote t2 k (res_CarrierID q) = Some r \<and> res_Premium r = p"
proof -
  have "table_ok t1" using spanner.save_keeps [OF assms(1), of Committed t0 k "[q]"] assms(2) by simp
  from spanner.save_done [OF this assms(3)] show ?thesis
    by (simp add: overlay_def last_for_def as_stored_def)
qed

end
