(* ===== verification/RF_GetQuotes.thy ===== *)
theory RF_GetQuotes
  imports RF_FanOut RF_Quote_Repo
begin

text \<open>
  One request through the orchestrator: \<open>GetQuotes\<close> and \<open>fanOut\<close> of
  \<open>internal/orchestrator/orchestrator.go\<close>. The concurrent phase of a fan-out is an argument
  \<open>run\<close> that leaves the results in the order in which the main goroutine received them; the
  properties tie it to a finished run of \<open>RF_FanOut\<close>. \<open>golang.org/x/sync/singleflight\<close> is a
  parameter, with the documented behaviour of its \<open>Do\<close> as a hypothesis where it matters.
\<close>

section \<open>Requests\<close>

definition scopedKey :: "QuoteRequest \<Rightarrow> string" where
  "scopedKey req =
     (if req_ClientID req = [] then req_RequestID req
      else req_ClientID req @ '':'' @ req_RequestID req)"

text \<open>The repository as the orchestrator sees it: two operations that may fail.\<close>

record 'r repo_ops =
  rp_find :: "ctx \<Rightarrow> string \<Rightarrow> gotime \<Rightarrow> 'r \<Rightarrow> go_error + QuoteResult list \<times> bool"
  rp_save :: "ctx \<Rightarrow> gotime \<Rightarrow> string \<Rightarrow> QuoteResult list \<Rightarrow> 'r \<Rightarrow> go_error option \<times> 'r"

type_synonym ('l, 'r) gateway = "'l orch \<times> 'r"

type_synonym 'l fan_run_fn =
  "ctx \<Rightarrow> Carrier list \<Rightarrow> 'l orch hedgeCarrier list \<Rightarrow> (string \<rightharpoonup> pendingCarrier) \<Rightarrow> QuoteRequest \<Rightarrow> 'l orch \<Rightarrow> 'l orch"

type_synonym ('l, 'r) flight =
  "string \<Rightarrow> (('l, 'r) gateway \<Rightarrow> (go_error + QuoteResult list) \<times> ('l, 'r) gateway) \<Rightarrow>
     ('l, 'r) gateway \<Rightarrow> ((go_error + QuoteResult list) \<times> bool) \<times> ('l, 'r) gateway"

definition request_timeout :: "QuoteRequest \<Rightarrow> duration" where
  "request_timeout req = (if req_Timeout req \<le> 0 then defaultRequestTimeout else req_Timeout req)"

text \<open>Saving what was collected; an error is only logged.\<close>

definition save_collected ::
  "'r repo_ops option \<Rightarrow> QuoteRequest \<Rightarrow> QuoteResult list \<Rightarrow> gotime \<Rightarrow> 'r \<Rightarrow> 'r" where
  "save_collected repo req collected now r =
     (case repo of
        None \<Rightarrow> r
      | Some ops \<Rightarrow>
          (if req_RequestID req \<noteq> [] \<and> length collected > 0
           then snd (rp_save ops (WithTimeout Background now (3 * Second)) now (scopedKey req) collected r)
           else r))"

definition fanOut ::
  "'l Orchestrator \<Rightarrow> 'r repo_ops option \<Rightarrow> 'l fan_run_fn \<Rightarrow> ctx \<Rightarrow> QuoteRequest \<Rightarrow>
     ('l, 'r) gateway \<Rightarrow> (go_error + QuoteResult list) \<times> ('l, 'r) gateway" where
  "fanOut orc repo run c req st =
     (case st of (w, r) \<Rightarrow>
        let start = w_now w;
            reqCtx = WithTimeout c (w_now w) (request_timeout req);
            eligible = filterEligibleCarriers (oc_carriers orc) (o_breakers w) (req_CoverageLines req);
            done = (\<lambda>w'. emit (RecordFanOutDuration (time_sub (w_now w') start)) w')
        in if length eligible = 0 then (Inr [], (done w, r))
           else (case (build_hedgeable orc w eligible, build_pending w eligible Map.empty) of
               (Some hedgeable, Some pending) \<Rightarrow>
                 (let w1 = run reqCtx eligible hedgeable pending req (w\<lparr>o_results := []\<rparr>);
                      collected = sort_results (collect (o_results w1))
                  in (Inr collected, (done w1, save_collected repo req collected (w_now w1) r)))
             | _ \<Rightarrow> (Inr [], (done (w\<lparr>o_panicked := True\<rparr>), r))))"

definition GetQuotes ::
  "'l Orchestrator \<Rightarrow> 'r repo_ops option \<Rightarrow> 'l fan_run_fn \<Rightarrow> ('l, 'r) flight \<Rightarrow> ctx \<Rightarrow> QuoteRequest \<Rightarrow>
     ('l, 'r) gateway \<Rightarrow> (go_error + QuoteResult list) \<times> ('l, 'r) gateway" where
  "GetQuotes orc repo run sf c req st =
     (let cacheKey = scopedKey req;
          lookup = (case repo of
              None \<Rightarrow> Inr ([], False)
            | Some ops \<Rightarrow> (if req_RequestID req \<noteq> [] then rp_find ops c cacheKey (w_now (fst st)) (snd st)
                           else Inr ([], False)))
      in case lookup of
           Inr (cached, True) \<Rightarrow> (Inr cached, st)
         | _ \<Rightarrow>
             (if req_RequestID req \<noteq> []
              then (case sf cacheKey (fanOut orc repo run (WithoutCancel c) req) st of
                      ((Inl err, shared), st') \<Rightarrow> (Inl err, st')
                    | ((Inr v, shared), st') \<Rightarrow> (Inr v, st'))
              else fanOut orc repo run c req st))"

section \<open>Cache keys\<close>

lemma append_colon_inj:
  assumes "CHR '':'' \<notin> set a" "CHR '':'' \<notin> set b" "a @ '':'' @ x = b @ '':'' @ y"
  shows "a = b \<and> x = y"
proof -
  have "takeWhile (\<lambda>c. c \<noteq> CHR '':'') (a @ '':'' @ x) = a"
    using assms(1) by (subst takeWhile_append2) auto
  moreover have "takeWhile (\<lambda>c. c \<noteq> CHR '':'') (b @ '':'' @ y) = b"
    using assms(2) by (subst takeWhile_append2) auto
  ultimately have "a = b" using assms(3) by simp
  with assms(3) show ?thesis by simp
qed

lemma scopedKey_collision:
  "scopedKey (quote_request_example\<lparr>req_ClientID := ''a:b'', req_RequestID := ''c''\<rparr>) =
   scopedKey (quote_request_example\<lparr>req_ClientID := ''a'', req_RequestID := ''b:c''\<rparr>)"
  by (simp add: scopedKey_def)

section \<open>The concurrent phase\<close>

text \<open>
  \<open>phase\<close>: the run left what the main goroutine of a finished fan-out over these carriers received,
  where every adapter answers with the identifier it is registered under.
\<close>

definition phase :: "Carrier list \<Rightarrow> 'l orch \<Rightarrow> fan \<Rightarrow> bool" where
  "phase eligible w1 s \<longleftrightarrow>
     fan_reachable (length eligible) (\<lambda>i r. res_CarrierID r = c_ID (eligible ! i))
       (\<lambda>r. res_CarrierID r \<in> c_ID ` set eligible) s \<and>
     f_main_done s \<and> o_results w1 = f_received s"

lemma phase_carriers:
  assumes "phase eligible w1 s"
  shows "res_CarrierID ` set (o_results w1) \<subseteq> c_ID ` set eligible"
proof -
  let ?n = "length eligible" and ?P = "\<lambda>i r. res_CarrierID r = c_ID (eligible ! i)"
  let ?H = "\<lambda>r. res_CarrierID r \<in> c_ID ` set eligible"
  have inv: "fan_results ?n ?P ?H s" "fan_count ?n s"
    using assms fan_reachable_inv [of ?n ?P ?H s] by (simp_all add: phase_def fan_inv_def)
  have "set (f_received s) \<subseteq> set (f_sent s)" using inv(2) unfolding fan_count_def by auto
  with assms inv(1) show ?thesis by (fastforce simp: phase_def fan_results_def)
qed

lemma wired_eligible:
  assumes "wired orc w"
  obtains hs pending where
    "build_hedgeable orc w (filterEligibleCarriers (oc_carriers orc) (o_breakers w) lines) = Some hs"
    "build_pending w (filterEligibleCarriers (oc_carriers orc) (o_breakers w) lines) Map.empty = Some pending"
proof -
  let ?e = "filterEligibleCarriers (oc_carriers orc) (o_breakers w) lines"
  have "set ?e \<subseteq> set (oc_carriers orc)" by (auto simp: filterEligibleCarriers_eq)
  with assms have "list_all (\<lambda>c. oc_registry orc (c_ID c) \<noteq> None \<and> o_trackers w (c_ID c) \<noteq> None) ?e"
    and "list_all (\<lambda>c. o_trackers w (c_ID c) \<noteq> None) ?e"
    by (auto simp: wired_def list_all_iff)
  with build_hedgeable_wired [of orc w ?e] build_pending_wired [of w ?e Map.empty] that show ?thesis by blast
qed

section \<open>Properties\<close>

text \<open>Clients do not share cache entries or flights: for two requests with non-empty client
  identifiers that contain no colon, the keys are equal only if the clients and the request identifiers
  are.\<close>

theorem scoped_keys_separate_clients:
  assumes "req_ClientID a \<noteq> []" and "req_ClientID b \<noteq> []"
    and "CHR '':'' \<notin> set (req_ClientID a)" and "CHR '':'' \<notin> set (req_ClientID b)"
  shows "scopedKey a = scopedKey b \<longleftrightarrow>
    req_ClientID a = req_ClientID b \<and> req_RequestID a = req_RequestID b"
  using assms(1,2) append_colon_inj [OF assms(3,4), of "req_RequestID a" "req_RequestID b"]
  unfolding scopedKey_def by auto

theorem scoped_keys_separate_clients_witness:
  "scopedKey (quote_request_example\<lparr>req_ClientID := ''acme''\<rparr>) \<noteq>
   scopedKey (quote_request_example\<lparr>req_ClientID := ''bolt''\<rparr>)"
  using scoped_keys_separate_clients [of "quote_request_example\<lparr>req_ClientID := ''acme''\<rparr>"
      "quote_request_example\<lparr>req_ClientID := ''bolt''\<rparr>"] by simp

lemma fanOut_wired:
  assumes "wired orc w" and "e = filterEligibleCarriers (oc_carriers orc) (o_breakers w) (req_CoverageLines req)"
    and "e \<noteq> []"
  obtains hs p w1 where "build_hedgeable orc w e = Some hs" "build_pending w e Map.empty = Some p"
    "w1 = run (WithTimeout c (w_now w) (request_timeout req)) e hs p req (w\<lparr>o_results := []\<rparr>)"
    "fanOut orc repo run c req (w, r) = (Inr (sort_results (collect (o_results w1))),
       (emit (RecordFanOutDuration (time_sub (w_now w1) (w_now w))) w1,
        save_collected repo req (sort_results (collect (o_results w1))) (w_now w1) r))"
proof -
  obtain hs p where b: "build_hedgeable orc w e = Some hs" "build_pending w e Map.empty = Some p"
    using wired_eligible [OF assms(1)] assms(2) by metis
  show ?thesis
    by (rule that [OF b refl]) (use assms(2,3) b in \<open>simp add: fanOut_def Let_def\<close>)
qed

lemma fanOut_answers:
  assumes "wired orc w" and "e = filterEligibleCarriers (oc_carriers orc) (o_breakers w) (req_CoverageLines req)"
    and "e \<noteq> []"
    and "\<forall>hs p. build_hedgeable orc w e = Some hs \<longrightarrow> build_pending w e Map.empty = Some p \<longrightarrow>
      phase e (run (WithTimeout c (w_now w) (request_timeout req)) e hs p req (w\<lparr>o_results := []\<rparr>)) s"
  shows "\<exists>out. fst (fanOut orc repo run c req (w, r)) = Inr out \<and>
    sorted_wrt (\<lambda>a b. cmp_results a b < 0) out \<and> distinct (map res_CarrierID out) \<and>
    res_CarrierID ` set out \<subseteq> c_ID ` set e \<and>
    (f_timed_out s \<or> res_CarrierID ` set (f_answered s) \<subseteq> res_CarrierID ` set out)"
proof -
  obtain hs p w1 where hs: "build_hedgeable orc w e = Some hs" "build_pending w e Map.empty = Some p"
    and w1: "w1 = run (WithTimeout c (w_now w) (request_timeout req)) e hs p req (w\<lparr>o_results := []\<rparr>)"
    and f: "fanOut orc repo run c req (w, r) = (Inr (sort_results (collect (o_results w1))),
       (emit (RecordFanOutDuration (time_sub (w_now w1) (w_now w))) w1,
        save_collected repo req (sort_results (collect (o_results w1))) (w_now w1) r))"
    by (rule fanOut_wired [OF assms(1-3)])
  let ?out = "sort_results (collect (o_results w1))"
  have ph: "phase e w1 s" using assms(4) hs w1 by blast
  note c = collect_spec(1,2) [of "o_results w1"]
  have "f_timed_out s \<or> set (f_answered s) \<subseteq> set (o_results w1)"
    using ph fan_out_loses_nothing_core [of "length e" _ _ s] by (auto simp: phase_def)
  then have "f_timed_out s \<or> res_CarrierID ` set (f_answered s) \<subseteq> res_CarrierID ` set ?out"
    using c(2) by auto
  with sort_results_strict [OF c(1)] c phase_carriers [OF ph] f show ?thesis by simp
qed

lemma example_phase:
  obtains s where "\<And>w1 :: 'l orch. o_results w1 = [quote_example] \<Longrightarrow> phase [alpha_carrier] w1 s"
    and "f_answered s = [quote_example]" and "\<not> f_timed_out s"
proof -
  obtain s where s: "fan_reachable 1 alpha_answers (\<lambda>_. False) s" "f_main_done s"
    "f_answered s = [quote_example]" "\<not> f_timed_out s" "f_received s = [quote_example]"
    using example_finished by blast
  have "fan_reachable 1 (\<lambda>i r. res_CarrierID r = c_ID ([alpha_carrier] ! i))
      (\<lambda>r. res_CarrierID r \<in> c_ID ` set [alpha_carrier]) s"
    by (rule fan_reachable_mono [OF s(1)]) (simp_all add: alpha_carrier_def carrier_named_def quote_example_def)
  with s that [of s] show ?thesis by (simp add: phase_def)
qed

lemma example_wired: "wired orch_example orch_world_example"
  by (simp add: wired_def orch_example_def orch_world_example_def alpha_carrier_def carrier_named_def)

lemma example_eligible:
  "[alpha_carrier] = filterEligibleCarriers (oc_carriers orch_example) (o_breakers orch_world_example) [''auto'']"
  using eligible_carriers_example by simp



text \<open>The documented behaviour of \<open>singleflight.Group.Do\<close> for a caller that finds no call in
  flight for its key: it runs its function and gets its result.\<close>

definition leads :: "('l, 'r) flight \<Rightarrow> string \<Rightarrow> bool" where
  "leads sf key \<longleftrightarrow> (\<forall>fn st. \<exists>shared. sf key fn st = ((fst (fn st), shared), snd (fn st)))"

lemma GetQuotes_miss:
  assumes "leads sf (scopedKey req)"
    and "repo = None \<or> req_RequestID req = [] \<or>
      (\<exists>ops. repo = Some ops \<and> (\<forall>cached. rp_find ops c (scopedKey req) (w_now w) r \<noteq> Inr (cached, True)))"
  shows "GetQuotes orc repo run sf c req (w, r) =
    fanOut orc repo run (if req_RequestID req = [] then c else WithoutCancel c) req (w, r)"
proof -
  let ?fn = "fanOut orc repo run (WithoutCancel c) req"
  obtain sh where sf: "sf (scopedKey req) ?fn (w, r) = ((fst (?fn (w, r)), sh), snd (?fn (w, r)))"
    using assms(1) unfolding leads_def by blast
  obtain res st' where fn: "?fn (w, r) = (res, st')" by (metis surj_pair)
  have flight: "(case sf (scopedKey req) ?fn (w, r) of
        ((Inl err, shared), st') \<Rightarrow> (Inl err, st') | ((Inr v, shared), st') \<Rightarrow> (Inr v, st')) = ?fn (w, r)"
    unfolding sf fn by (cases res) simp_all
  show ?thesis
  proof (cases repo)
    case None
    then show ?thesis using flight by (simp add: GetQuotes_def)
  next
    case (Some ops)
    show ?thesis
    proof (cases "req_RequestID req = []")
      case True
      with Some show ?thesis by (simp add: GetQuotes_def)
    next
      case False
      with assms(2) Some have nf: "rp_find ops c (scopedKey req) (w_now w) r \<noteq> Inr (cached, True)" for cached by auto
      show ?thesis
      proof (cases "rp_find ops c (scopedKey req) (w_now w) r")
        case (Inl err)
        with False Some flight show ?thesis by (simp add: GetQuotes_def Let_def)
      next
        case (Inr x)
        obtain cached hit where x: "x = (cached, hit)" by fastforce
        with nf Inr have "\<not> hit" by auto
        with x Inr False Some flight show ?thesis by (simp add: GetQuotes_def Let_def)
      qed
    qed
  qed
qed

text \<open>Repository failures are invisible to the client: when the lookup fails or finds nothing,
  the answer and the orchestrator's state are the ones the same request gets without any repository,
  whatever the save then does.\<close>

lemma fanOut_repo_independent:
  "fst (fanOut orc repo run c req (w, r)) = fst (fanOut orc None run c req (w, r)) \<and>
   fst (snd (fanOut orc repo run c req (w, r))) = fst (snd (fanOut orc None run c req (w, r)))"
  by (simp add: fanOut_def Let_def split: option.split)

theorem repository_failures_invisible:
  assumes "leads sf (scopedKey req)"
    and "\<forall>cached. rp_find ops c (scopedKey req) (w_now w) r \<noteq> Inr (cached, True)"
  shows "fst (GetQuotes orc (Some ops) run sf c req (w, r)) = fst (GetQuotes orc None run sf c req (w, r)) \<and>
    fst (snd (GetQuotes orc (Some ops) run sf c req (w, r))) = fst (snd (GetQuotes orc None run sf c req (w, r)))"
proof -
  have "GetQuotes orc (Some ops) run sf c req (w, r) =
      fanOut orc (Some ops) run (if req_RequestID req = [] then c else WithoutCancel c) req (w, r)"
    by (rule GetQuotes_miss [OF assms(1)]) (use assms(2) in blast)
  moreover have "GetQuotes orc None run sf c req (w, r) =
      fanOut orc None run (if req_RequestID req = [] then c else WithoutCancel c) req (w, r)"
    by (rule GetQuotes_miss [OF assms(1)]) simp
  ultimately show ?thesis using fanOut_repo_independent by metis
qed

definition solo_flight :: "('l, 'r) flight" where
  "solo_flight key fn st = (case fn st of (v, st') \<Rightarrow> ((v, False), st'))"

lemma leads_solo_flight: "leads solo_flight key"
  unfolding leads_def solo_flight_def by (intro allI exI [of _ False]) (simp add: case_prod_beta)

definition failing_repo :: "unit repo_ops" where
  "failing_repo = \<lparr>rp_find = (\<lambda>c k t r. Inl ErrCarrierTimeout), rp_save = (\<lambda>c t k qs r. (Some ErrCarrierTimeout, r))\<rparr>"

theorem repository_failures_invisible_witness:
  "fst (GetQuotes orch_example (Some failing_repo) (\<lambda>c e hs p req w. w\<lparr>o_results := [quote_example]\<rparr>) solo_flight
      Background quote_request_example (orch_world_example, ())) =
   fst (GetQuotes orch_example None (\<lambda>c e hs p req w. w\<lparr>o_results := [quote_example]\<rparr>) solo_flight
      Background quote_request_example (orch_world_example, ()))"
  by (rule repository_failures_invisible [where r = "()", OF leads_solo_flight, THEN conjunct1])
    (simp add: failing_repo_def)

text \<open>The orchestrator over Spanner; \<open>commit\<close> and \<open>query\<close> say how Spanner answers.\<close>

definition spanner_ops ::
  "(gotime \<Rightarrow> commit_outcome) \<Rightarrow> (gotime \<Rightarrow> go_error option \<times> (quoteRow \<Rightarrow> nat)) \<Rightarrow> quotes_table repo_ops" where
  "spanner_ops commit query = \<lparr>
     rp_find = (\<lambda>c k now t. FindByRequestID (query now) k now t),
     rp_save = (\<lambda>c now k qs t. Save (commit now) now k qs t)\<rparr>"

lemma fanOut_saves:
  fixes orc :: "'l Orchestrator"
  assumes "fanOut orc repo run c req (w, r) = (Inr out, (w1, r1))" and "out \<noteq> []"
  shows "\<exists>w0 :: 'l orch. out = sort_results (collect (o_results w0)) \<and> r1 = save_collected repo req out (w_now w0) r"
proof -
  let ?e = "filterEligibleCarriers (oc_carriers orc) (o_breakers w) (req_CoverageLines req)"
  have e: "?e \<noteq> []" using assms by (auto simp: fanOut_def Let_def)
  with assms obtain hs where hs: "build_hedgeable orc w ?e = Some hs"
    by (cases "build_hedgeable orc w ?e") (auto simp: fanOut_def Let_def)
  with e assms obtain p where p: "build_pending w ?e Map.empty = Some p"
    by (cases "build_pending w ?e Map.empty") (auto simp: fanOut_def Let_def)
  let ?w = "run (WithTimeout c (w_now w) (request_timeout req)) ?e hs p req (w\<lparr>o_results := []\<rparr>)"
  from assms(1) e hs p have "out = sort_results (collect (o_results ?w))"
    and "r1 = save_collected repo req (sort_results (collect (o_results ?w))) (w_now ?w) r"
    by (auto simp: fanOut_def Let_def)
  then show ?thesis by (intro exI [of _ ?w] conjI) simp_all
qed



end
