(* ===== verification/RF_Web.thy ===== *)
theory RF_Web
  imports RF_Strings RF_Domain
begin

text \<open>
  What the program uses of \<open>net/http\<close>: a request with the fields the code reads, a response with
  its status, header map and body, and a handler as a function on the state of the server. The header
  map a handler is called with is the one that the middleware around it has set so far. A body is the
  value that is encoded, not its JSON text.
\<close>

section \<open>Requests and responses\<close>

record http_req =
  rq_Method :: string
  rq_Path :: string
  rq_RemoteAddr :: string
  rq_Authorization :: string
  rq_XRequestID :: string
  rq_Body :: string
  rq_ClientID :: "string option"

record quoteItem =
  qi_CarrierID :: string
  qi_CarrierRef :: string
  qi_PremiumCents :: int
  qi_Currency :: string
  qi_IsHedged :: bool
  qi_LatencyMs :: int

record quoteResponse =
  qp_RequestID :: string
  qp_Quotes :: "quoteItem list"
  qp_DurationMs :: int

datatype http_body =
    TextBody string
  | ErrorBody string
  | QuotesBody quoteResponse
  | MetricsBody

type_synonym headers = "string \<rightharpoonup> string"

record response =
  rs_Status :: int
  rs_Headers :: headers
  rs_Body :: http_body

type_synonym 's handler = "http_req \<Rightarrow> headers \<Rightarrow> 's \<Rightarrow> response \<times> 's"

definition json_reply :: "int \<Rightarrow> headers \<Rightarrow> http_body \<Rightarrow> response" where
  "json_reply status hs body =
     \<lparr>rs_Status = status, rs_Headers = hs(''Content-Type'' \<mapsto> ''application/json''), rs_Body = body\<rparr>"

lemma json_reply_simps [simp]:
  "rs_Status (json_reply st hs b) = st" "rs_Body (json_reply st hs b) = b"
  "rs_Headers (json_reply st hs b) = hs(''Content-Type'' \<mapsto> ''application/json'')"
  by (simp_all add: json_reply_def)

text \<open>The client that the authentication stored in the context of the request.\<close>

definition ClientIDFromContext :: "http_req \<Rightarrow> string" where
  "ClientIDFromContext r = (case rq_ClientID r of Some v \<Rightarrow> v | None \<Rightarrow> [])"

section \<open>The state of a request\<close>

datatype log_level = LevelInfo | LevelWarn | LevelError

text \<open>The levels of \<open>log/slog\<close> are ordered by severity.\<close>

fun severity :: "log_level \<Rightarrow> int" where
  "severity LevelInfo = 0"
| "severity LevelWarn = 4"
| "severity LevelError = 8"

lemma severity_inj: "severity a = severity b \<Longrightarrow> a = b"
  by (cases a; cases b) simp_all

instantiation log_level :: linorder
begin

definition less_eq_log_level :: "log_level \<Rightarrow> log_level \<Rightarrow> bool" where
  "a \<le> b \<longleftrightarrow> severity a \<le> severity b"

definition less_log_level :: "log_level \<Rightarrow> log_level \<Rightarrow> bool" where
  "a < b \<longleftrightarrow> severity a < severity b"

instance
  by standard (auto simp: less_eq_log_level_def less_log_level_def severity_inj)

end

record log_entry =
  le_Level :: log_level
  le_RequestID :: string
  le_Status :: int
  le_Code :: string

text \<open>The state a request runs in: the request errors logged so far, and the gateway behind.\<close>

record 'g web =
  wb_log :: "log_entry list"
  wb_gateway :: 'g

section \<open>Runes\<close>

text \<open>
  \<open>for _, c := range s\<close> decodes UTF-8: the rune at the front of a non-empty byte string and its
  width. A byte that does not start a valid encoding is the replacement character, of width one.
\<close>

definition byte :: "char \<Rightarrow> nat" where "byte c = of_char c"

definition cont :: "nat \<Rightarrow> nat \<Rightarrow> nat \<Rightarrow> bool" where
  "cont lo hi b \<longleftrightarrow> lo \<le> b \<and> b \<le> hi"

definition RuneError :: nat where "RuneError = 0xFFFD"

fun decode2 :: "nat \<Rightarrow> string \<Rightarrow> (nat \<times> nat) option" where
  "decode2 b0 (c1 # _) =
     (if 0xC2 \<le> b0 \<and> b0 \<le> 0xDF \<and> cont 0x80 0xBF (byte c1)
      then Some ((b0 - 0xC0) * 0x40 + (byte c1 - 0x80), 2) else None)"
| "decode2 b0 [] = None"

fun decode3 :: "nat \<Rightarrow> string \<Rightarrow> (nat \<times> nat) option" where
  "decode3 b0 (c1 # c2 # _) =
     (if 0xE0 \<le> b0 \<and> b0 \<le> 0xEF \<and>
         cont (if b0 = 0xE0 then 0xA0 else 0x80) (if b0 = 0xED then 0x9F else 0xBF) (byte c1) \<and>
         cont 0x80 0xBF (byte c2)
      then Some ((b0 - 0xE0) * 0x1000 + (byte c1 - 0x80) * 0x40 + (byte c2 - 0x80), 3) else None)"
| "decode3 b0 _ = None"

fun decode4 :: "nat \<Rightarrow> string \<Rightarrow> (nat \<times> nat) option" where
  "decode4 b0 (c1 # c2 # c3 # _) =
     (if 0xF0 \<le> b0 \<and> b0 \<le> 0xF4 \<and>
         cont (if b0 = 0xF0 then 0x90 else 0x80) (if b0 = 0xF4 then 0x8F else 0xBF) (byte c1) \<and>
         cont 0x80 0xBF (byte c2) \<and> cont 0x80 0xBF (byte c3)
      then Some ((b0 - 0xF0) * 0x40000 + (byte c1 - 0x80) * 0x1000 + (byte c2 - 0x80) * 0x40 +
                 (byte c3 - 0x80), 4) else None)"
| "decode4 b0 _ = None"

fun decode_rune :: "string \<Rightarrow> nat \<times> nat" where
  "decode_rune [] = (RuneError, 1)"
| "decode_rune (c # s) =
     (let b0 = byte c in
      if b0 < 0x80 then (b0, 1)
      else (case decode2 b0 s of Some r \<Rightarrow> r
            | None \<Rightarrow> (case decode3 b0 s of Some r \<Rightarrow> r
            | None \<Rightarrow> (case decode4 b0 s of Some r \<Rightarrow> r
            | None \<Rightarrow> (RuneError, 1)))))"

lemma decode2_width: "decode2 b s = Some (r, w) \<Longrightarrow> 0 < w \<and> 0x80 \<le> r"
  by (cases s) (auto simp: cont_def split: if_splits)

lemma decode3_width: "decode3 b s = Some (r, w) \<Longrightarrow> 0 < w \<and> 0x80 \<le> r"
  by (cases "(b, s)" rule: decode3.cases) (auto simp: cont_def split: if_splits)

lemma decode4_width: "decode4 b s = Some (r, w) \<Longrightarrow> 0 < w \<and> 0x80 \<le> r"
  by (cases "(b, s)" rule: decode4.cases) (auto simp: cont_def split: if_splits)

text \<open>A byte below 0x80 is its own rune; any other byte starts a rune that is not ASCII.\<close>

lemma decode_rune_ascii: "byte c < 0x80 \<Longrightarrow> decode_rune (c # s) = (byte c, 1)"
  by simp

lemma decode_rune_wide:
  assumes "\<not> byte c < 0x80" shows "0 < snd (decode_rune (c # s)) \<and> 0x80 \<le> fst (decode_rune (c # s))"
  using assms decode2_width [of "byte c" s] decode3_width [of "byte c" s] decode4_width [of "byte c" s]
  by (auto simp: Let_def RuneError_def split: option.split)

lemma decode_rune_width: "0 < snd (decode_rune s)"
  using decode_rune_wide by (cases s) (auto simp del: decode_rune.simps simp: decode_rune_ascii decode_rune.simps(1)
    split: if_splits, metis decode_rune_ascii less_numeral_extra(1) snd_conv)

text \<open>The loop over the runes of a string, as a search for a rune that satisfies a predicate.\<close>

function any_rune :: "(nat \<Rightarrow> bool) \<Rightarrow> string \<Rightarrow> bool" where
  "any_rune P s =
     (if s = [] then False
      else if P (fst (decode_rune s)) then True
      else any_rune P (drop (snd (decode_rune s)) s))"
  by pat_completeness auto
termination
  by (relation "measure (\<lambda>(P, s). length s)") (auto simp: decode_rune_width)

declare any_rune.simps [simp del] decode_rune.simps [simp del]

end
