(* ===== verification/RF_Handler.thy ===== *)
theory RF_Handler
  imports RF_Web RF_Context
begin

text \<open>
  The HTTP handler of \<open>internal/handler/http.go\<close>: its constructor, validation of the body, the domain request, the
  mapping of the orchestrator's answer to a response, the error responses with their log level, and the
  readiness check. JSON decoding (with the limit of 1 MiB on the body) and \<open>strconv.Quote\<close> are
  parameters, the orchestrator is the port \<open>he_orch\<close>, and \<open>he_ping\<close> says how the database answers a
  ping within two seconds.
\<close>

section \<open>Validation\<close>

definition defaultTimeoutMs :: int where "defaultTimeoutMs = 5000"
definition minTimeoutMs :: int where "minTimeoutMs = 100"
definition maxTimeoutMs :: int where "maxTimeoutMs = 30000"
definition maxRequestIDLen :: nat where "maxRequestIDLen = 256"

lemmas timeout_consts = defaultTimeoutMs_def minTimeoutMs_def maxTimeoutMs_def

record quoteRequest =
  qr_RequestID :: string
  qr_CoverageLines :: "string list"
  qr_TimeoutMs :: int

definition isValidCoverageLine :: "string \<Rightarrow> bool" where
  "isValidCoverageLine line \<longleftrightarrow>
     line = CoverageLineAuto \<or> line = CoverageLineHomeowners \<or> line = CoverageLineUmbrella"

fun first_invalid_line :: "string list \<Rightarrow> string option" where
  "first_invalid_line [] = None"
| "first_invalid_line (l # ls) = (if \<not> isValidCoverageLine l then Some l else first_invalid_line ls)"

text \<open>\<open>fmt.Errorf("%w: ...", domain.ErrInvalidRequest)\<close> is an error that wraps the sentinel.\<close>

definition invalid :: "string \<Rightarrow> go_error option" where
  "invalid msg = Some (Wrapped msg ErrInvalidRequest)"

definition validateQuoteRequest :: "(string \<Rightarrow> string) \<Rightarrow> quoteRequest \<Rightarrow> go_error option" where
  "validateQuoteRequest quote req =
     (if qr_RequestID req = [] then invalid ''request_id is required''
      else if length (qr_RequestID req) > maxRequestIDLen
        then invalid (''request_id exceeds '' @ itoa (int maxRequestIDLen) @ '' characters'')
      else if any_rune (\<lambda>c. c < 0x20 \<or> c > 0x7E) (qr_RequestID req)
        then invalid ''request_id contains invalid characters''
      else if length (qr_CoverageLines req) = 0
        then invalid ''coverage_lines must contain at least one entry''
      else (case first_invalid_line (qr_CoverageLines req) of
          Some line \<Rightarrow> invalid (''unknown coverage_line '' @ quote line @
                                '': must be one of auto, homeowners, umbrella'')
        | None \<Rightarrow>
            (if qr_TimeoutMs req < 0
             then invalid (''timeout_ms must be non-negative, got '' @ itoa (qr_TimeoutMs req))
             else if qr_TimeoutMs req > 0 \<and> qr_TimeoutMs req < minTimeoutMs
             then invalid (''timeout_ms must be >= '' @ itoa minTimeoutMs @ '' ms, got '' @ itoa (qr_TimeoutMs req))
             else if qr_TimeoutMs req > maxTimeoutMs
             then invalid (''timeout_ms must be <= '' @ itoa maxTimeoutMs @ '' ms, got '' @ itoa (qr_TimeoutMs req))
             else None)))"

definition buildDomainRequest :: "quoteRequest \<Rightarrow> QuoteRequest" where
  "buildDomainRequest req =
     (let timeoutMs = (if qr_TimeoutMs req \<le> 0 then defaultTimeoutMs else qr_TimeoutMs req)
      in \<lparr>req_RequestID = qr_RequestID req, req_ClientID = [], req_CoverageLines = qr_CoverageLines req,
          req_State = [], req_ClassCode = [], req_EstimatedPremium = 0,
          req_Timeout = wrap64 (timeoutMs * Millisecond)\<rparr>)"

section \<open>Responses\<close>

definition error_level :: "int \<Rightarrow> log_level" where
  "error_level status =
     (if status \<ge> 500 then LevelError else if status = 504 then LevelWarn else LevelInfo)"

definition writeErrorBody :: "headers \<Rightarrow> int \<Rightarrow> string \<Rightarrow> response" where
  "writeErrorBody hs status message = json_reply status hs (ErrorBody message)"

definition writeError :: "headers \<Rightarrow> int \<Rightarrow> string \<Rightarrow> string \<Rightarrow> string \<Rightarrow> ('g, 'z) web_scheme \<Rightarrow> response \<times> ('g, 'z) web_scheme" where
  "writeError hs status requestID code message s =
     (writeErrorBody hs status (code @ '': '' @ message),
      s\<lparr>wb_log := wb_log s @ [\<lparr>le_Level = error_level status, le_RequestID = requestID,
                               le_Status = status, le_Code = code\<rparr>]\<rparr>)"

definition handleOrchError :: "headers \<Rightarrow> string \<Rightarrow> go_error \<Rightarrow> ('g, 'z) web_scheme \<Rightarrow> response \<times> ('g, 'z) web_scheme" where
  "handleOrchError hs requestID err s =
     (if errors_is err ErrCarrierTimeout
      then writeError hs 504 requestID ''TIMEOUT'' ''request timed out before carriers responded'' s
      else (writeErrorBody hs 500 ''internal error'', s))"

definition quote_item :: "QuoteResult \<Rightarrow> quoteItem" where
  "quote_item r = \<lparr>qi_CarrierID = res_CarrierID r, qi_CarrierRef = res_CarrierRef r,
     qi_PremiumCents = Amount (res_Premium r), qi_Currency = Currency (res_Premium r),
     qi_IsHedged = res_IsHedged r, qi_LatencyMs = milliseconds (res_Latency r)\<rparr>"

section \<open>POST /quotes\<close>

datatype decoded = TooLarge | BadJSON | Decoded quoteRequest

text \<open>\<open>error_text\<close> is \<open>err.Error()\<close> of a validation error.\<close>

fun error_text :: "go_error \<Rightarrow> string" where
  "error_text (Wrapped msg ErrInvalidRequest) = ''invalid request: '' @ msg"
| "error_text e = []"

type_synonym 'g orchestrator = "QuoteRequest \<Rightarrow> 'g \<Rightarrow> (go_error + QuoteResult list) \<times> 'g"

record 'g handler_env =
  he_decode :: "string \<Rightarrow> decoded"
  he_quote :: "string \<Rightarrow> string"
  he_now :: "'g \<Rightarrow> gotime"
  he_orch :: "'g orchestrator"
  he_ping :: "('g \<Rightarrow> go_error option) option"

text \<open>
  \<open>New\<close> with its two required dependencies: a nil orchestrator or logger is a panic with its message. The
  JSON coding and the clock are parameters; the metrics recorder and the gatherer are left out.
\<close>

record 'g HandlerConfig =
  hcf_Orch :: "'g orchestrator option"
  hcf_Log :: bool
  hcf_DB :: "('g \<Rightarrow> go_error option) option"

definition New_handler ::
  "(string \<Rightarrow> decoded) \<Rightarrow> (string \<Rightarrow> string) \<Rightarrow> ('g \<Rightarrow> gotime) \<Rightarrow> 'g HandlerConfig \<Rightarrow> string + 'g handler_env" where
  "New_handler decode quote now c =
     (case hcf_Orch c of
        None \<Rightarrow> Inl ''handler: Orch is required''
      | Some orch \<Rightarrow>
          if \<not> hcf_Log c then Inl ''handler: Log is required''
          else Inr \<lparr>he_decode = decode, he_quote = quote, he_now = now, he_orch = orch, he_ping = hcf_DB c\<rparr>)"

definition handlePostQuotes :: "'g handler_env \<Rightarrow> ('g, 'z) web_scheme handler" where
  "handlePostQuotes h r hs s =
     (let start = he_now h (wb_gateway s); headerID = rq_XRequestID r in
      case he_decode h (rq_Body r) of
        TooLarge \<Rightarrow> writeError hs 400 headerID ''REQUEST_TOO_LARGE'' ''request body exceeds 1 MB limit'' s
      | BadJSON \<Rightarrow> writeError hs 400 headerID ''INVALID_JSON'' ''malformed JSON body'' s
      | Decoded req \<Rightarrow>
          (let requestID = (if qr_RequestID req = [] then headerID else qr_RequestID req) in
           case validateQuoteRequest (he_quote h) req of
             Some err \<Rightarrow> writeError hs 400 requestID ''INVALID_REQUEST'' (error_text err) s
           | None \<Rightarrow>
               (let domainReq = (buildDomainRequest req)\<lparr>req_ClientID := ClientIDFromContext r\<rparr> in
                case he_orch h domainReq (wb_gateway s) of
                  (Inl err, g) \<Rightarrow> handleOrchError hs requestID err (s\<lparr>wb_gateway := g\<rparr>)
                | (Inr results, g) \<Rightarrow>
                    (let s' = s\<lparr>wb_gateway := g\<rparr> in
                     if length results = 0
                     then writeError hs 422 requestID ''NO_ELIGIBLE_CARRIERS''
                            ''no carriers available for the requested coverage lines'' s'
                     else (json_reply 200 hs (QuotesBody
                             \<lparr>qp_RequestID = req_RequestID domainReq, qp_Quotes = map quote_item results,
                              qp_DurationMs = milliseconds (time_sub (he_now h g) start)\<rparr>), s')))))"

definition handleReadyz :: "'g handler_env \<Rightarrow> ('g, 'z) web_scheme handler" where
  "handleReadyz h r hs s =
     (case he_ping h of
        Some ping \<Rightarrow>
          (case ping (wb_gateway s) of
             Some err \<Rightarrow> (\<lparr>rs_Status = 503, rs_Headers = hs, rs_Body = TextBody ''db: unreachable''\<rparr>, s)
           | None \<Rightarrow> (\<lparr>rs_Status = 200, rs_Headers = hs, rs_Body = TextBody ''ok''\<rparr>, s))
      | None \<Rightarrow> (\<lparr>rs_Status = 200, rs_Headers = hs, rs_Body = TextBody ''ok''\<rparr>, s))"

text \<open>
  \<open>Shutdown\<close> gives the server thirty seconds to drain; \<open>srv_shutdown\<close> is \<open>http.Server.Shutdown\<close>.
\<close>

definition shutdownDrainWindow :: duration where "shutdownDrainWindow = 30 * Second"

definition Shutdown :: "(ctx \<Rightarrow> go_error option) \<Rightarrow> ctx \<Rightarrow> gotime \<Rightarrow> go_error option" where
  "Shutdown srv_shutdown c now =
     map_option (Wrapped ''http server shutdown'') (srv_shutdown (WithTimeout c now shutdownDrainWindow))"

text \<open>
  The routes. \<open>ServeMux\<close> answers 405 to a known path with another method and 404 to any other
  path, through \<open>http.Error\<close>; a \<open>GET\<close> pattern also serves \<open>HEAD\<close>. The redirects it makes
  to clean a path are not modelled.
\<close>

definition http_Error :: "headers \<Rightarrow> int \<Rightarrow> string \<Rightarrow> response" where
  "http_Error hs status text =
     \<lparr>rs_Status = status,
      rs_Headers = hs(''Content-Type'' \<mapsto> ''text/plain; charset=utf-8'', ''X-Content-Type-Options'' \<mapsto> ''nosniff''),
      rs_Body = TextBody text\<rparr>"

definition NotAllowed :: "string \<Rightarrow> headers \<Rightarrow> response" where
  "NotAllowed allow hs = http_Error (hs(''Allow'' \<mapsto> allow)) 405 ''Method Not Allowed''"

definition GetOrHead :: "string \<Rightarrow> bool" where
  "GetOrHead m \<longleftrightarrow> m = ''GET'' \<or> m = ''HEAD''"

definition RegisterRoutes :: "'g handler_env \<Rightarrow> ('g, 'z) web_scheme handler" where
  "RegisterRoutes h r hs s =
     (if rq_Path r = ''/quotes'' then
        (if rq_Method r = ''POST'' then handlePostQuotes h r hs s else (NotAllowed ''POST'' hs, s))
      else if rq_Path r = ''/metrics'' then
        (if GetOrHead (rq_Method r)
         then (\<lparr>rs_Status = 200, rs_Headers = hs, rs_Body = MetricsBody\<rparr>, s) else (NotAllowed ''GET, HEAD'' hs, s))
      else if rq_Path r = ''/healthz'' then
        (if GetOrHead (rq_Method r)
         then (\<lparr>rs_Status = 200, rs_Headers = hs, rs_Body = TextBody ''ok''\<rparr>, s) else (NotAllowed ''GET, HEAD'' hs, s))
      else if rq_Path r = ''/readyz'' then
        (if GetOrHead (rq_Method r) then handleReadyz h r hs s else (NotAllowed ''GET, HEAD'' hs, s))
      else (http_Error hs 404 ''404 page not found'', s))"

section \<open>What validation accepts\<close>

definition printable :: "char \<Rightarrow> bool" where
  "printable c \<longleftrightarrow> 0x20 \<le> byte c \<and> byte c \<le> 0x7E"

text \<open>The loop over runes is the test of every byte: a byte outside ASCII starts a rune outside it.\<close>

lemma any_rune_printable:
  "any_rune (\<lambda>c. c < 0x20 \<or> c > 0x7E) s \<longleftrightarrow> \<not> list_all printable s"
proof (induction s rule: length_induct)
  case (1 s)
  let ?P = "\<lambda>c :: nat. c < 0x20 \<or> c > 0x7E"
  show ?case
  proof (cases s)
    case Nil
    then show ?thesis by (simp add: any_rune.simps)
  next
    case (Cons c cs)
    show ?thesis
    proof (cases "byte c < 0x80")
      case True
      then have "any_rune ?P s \<longleftrightarrow> \<not> printable c \<or> any_rune ?P cs"
        using Cons by (subst any_rune.simps) (auto simp: decode_rune.simps printable_def)
      with 1 Cons show ?thesis by simp
    next
      case False
      then have "any_rune ?P s" "\<not> printable c"
        using Cons decode_rune_wide [OF False, of cs] by (subst any_rune.simps, auto simp: printable_def)
      with Cons show ?thesis by simp
    qed
  qed
qed

definition request_ok :: "quoteRequest \<Rightarrow> bool" where
  "request_ok req \<longleftrightarrow>
     0 < length (qr_RequestID req) \<and> length (qr_RequestID req) \<le> 256 \<and>
     list_all printable (qr_RequestID req) \<and>
     qr_CoverageLines req \<noteq> [] \<and> set (qr_CoverageLines req) \<subseteq> {''auto'', ''homeowners'', ''umbrella''} \<and>
     (qr_TimeoutMs req = 0 \<or> 100 \<le> qr_TimeoutMs req \<and> qr_TimeoutMs req \<le> 30000)"

lemma first_invalid_line_None:
  "first_invalid_line ls = None \<longleftrightarrow> set ls \<subseteq> {''auto'', ''homeowners'', ''umbrella''}"
  by (induction ls) (auto simp: isValidCoverageLine_def coverage_line_defs)

lemma validateQuoteRequest_None: "validateQuoteRequest quote req = None \<longleftrightarrow> request_ok req"
  unfolding validateQuoteRequest_def any_rune_printable request_ok_def
  using first_invalid_line_None [of "qr_CoverageLines req"]
  by (auto simp: invalid_def maxRequestIDLen_def timeout_consts split: option.split)

lemma validateQuoteRequest_Some:
  "validateQuoteRequest quote req = Some e \<Longrightarrow> \<exists>msg. e = Wrapped msg ErrInvalidRequest"
  unfolding validateQuoteRequest_def by (auto simp: invalid_def split: option.splits if_splits)

lemma buildDomainRequest_timeout:
  "request_ok req \<Longrightarrow> req_Timeout (buildDomainRequest req) =
     (if qr_TimeoutMs req = 0 then 5 * Second else qr_TimeoutMs req * Millisecond)"
  by (auto simp: buildDomainRequest_def request_ok_def Let_def timeout_consts Millisecond_def Second_def
      wrap64_id is_int64_def int64_min_def int64_max_def)

section \<open>Properties\<close>

text \<open>
  A request error is logged at the level \<open>Run\<close> configures or above, so it is never suppressed, and a
  higher status never lowers the level.
\<close>

lemma error_level_enabled: "LevelInfo \<le> error_level status"
  by (simp add: error_level_def less_eq_log_level_def)

lemma error_level_mono: "status \<le> status' \<Longrightarrow> error_level status \<le> error_level status'"
  by (simp add: error_level_def less_eq_log_level_def)

text \<open>The warning level of \<open>writeError\<close> is never used: 504 is at least 500.\<close>

lemma error_level_never_warns: "error_level status \<noteq> LevelWarn"
  by (simp add: error_level_def)

text \<open>C39. Validation accepts exactly the requests whose identifier has 1 to 256 bytes of printable
  ASCII, that ask for at least one line and only for known ones, and whose timeout is absent or between
  100 ms and 30 s; every rejection wraps \<open>ErrInvalidRequest\<close>.\<close>

theorem request_validation_exact:
  "(validateQuoteRequest quote req = None \<longleftrightarrow> request_ok req) \<and>
   validateQuoteRequest quote req \<in> insert None (range (\<lambda>msg. Some (Wrapped msg ErrInvalidRequest)))"
  using validateQuoteRequest_None [of quote req] validateQuoteRequest_Some [of quote req]
  by (cases "validateQuoteRequest quote req") auto

lemma handlePostQuotes_invalid:
  assumes "\<nexists>req. he_decode h (rq_Body r) = Decoded req \<and> request_ok req"
  shows "rs_Status (fst (handlePostQuotes h r hs s)) = 400 \<and>
    wb_gateway (snd (handlePostQuotes h r hs s)) = wb_gateway s \<and>
    rs_Headers (fst (handlePostQuotes h r hs s)) ''Content-Type'' = Some ''application/json''"
proof (cases "he_decode h (rq_Body r)")
  case (Decoded req)
  with assms obtain e where "validateQuoteRequest (he_quote h) req = Some e"
    by (cases "validateQuoteRequest (he_quote h) req") (auto simp: validateQuoteRequest_None)
  with Decoded show ?thesis
    by (simp add: handlePostQuotes_def Let_def writeError_def writeErrorBody_def)
qed (simp_all add: handlePostQuotes_def Let_def writeError_def writeErrorBody_def)

text \<open>The response to a valid request, by the orchestrator's answer.\<close>

fun answered :: "quoteRequest \<Rightarrow> go_error + QuoteResult list \<Rightarrow> response \<Rightarrow> bool" where
  "answered req (Inl e) resp \<longleftrightarrow>
     (if errors_is e ErrCarrierTimeout then rs_Status resp = 504
      else rs_Status resp = 500 \<and> rs_Body resp = ErrorBody ''internal error'')"
| "answered req (Inr []) resp \<longleftrightarrow> rs_Status resp = 422"
| "answered req (Inr qs) resp \<longleftrightarrow> rs_Status resp = 200 \<and>
     (\<exists>ms. rs_Body resp =
        QuotesBody \<lparr>qp_RequestID = qr_RequestID req, qp_Quotes = map quote_item qs, qp_DurationMs = ms\<rparr>)"

lemma answered_quotes: "qs \<noteq> [] \<Longrightarrow> answered req (Inr qs) resp \<longleftrightarrow> rs_Status resp = 200 \<and>
     (\<exists>ms. rs_Body resp =
        QuotesBody \<lparr>qp_RequestID = qr_RequestID req, qp_Quotes = map quote_item qs, qp_DurationMs = ms\<rparr>)"
  by (cases qs) simp_all

lemma handlePostQuotes_valid:
  assumes "he_decode h (rq_Body r) = Decoded req" and "request_ok req"
    and "he_orch h ((buildDomainRequest req)\<lparr>req_ClientID := ClientIDFromContext r\<rparr>) (wb_gateway s) = (out, g)"
  shows "wb_gateway (snd (handlePostQuotes h r hs s)) = g \<and>
    rs_Headers (fst (handlePostQuotes h r hs s)) ''Content-Type'' = Some ''application/json'' \<and>
    answered req out (fst (handlePostQuotes h r hs s))"
  using assms(1,3) assms(2) [folded validateQuoteRequest_None [of "he_quote h"]]
  by (simp add: handlePostQuotes_def Let_def writeError_def writeErrorBody_def handleOrchError_def
      buildDomainRequest_def answered_quotes del: answered.simps(3) split: sum.split list.split)

text \<open>C10. The contract of POST /quotes: a body that is not a valid request is answered 400 and leaves
  the gateway untouched. Any other calls the orchestrator once, with the identifier and lines of the
  body, the authenticated client and a deadline between 100 ms and 30 s, and the status is 504 for a
  carrier timeout, 500 with an opaque body for any other error, 422 for no quotes, and 200 with the
  quotes in the order of the orchestrator.\<close>

theorem post_quotes_contract:
  assumes "handlePostQuotes h r hs s = (resp, s')"
  shows "rs_Headers resp ''Content-Type'' = Some ''application/json'' \<and>
    (rs_Status resp = 400 \<and> wb_gateway s' = wb_gateway s \<and>
       (\<nexists>req. he_decode h (rq_Body r) = Decoded req \<and> request_ok req) \<or>
     (\<exists>req d out. he_decode h (rq_Body r) = Decoded req \<and> request_ok req \<and>
       req_RequestID d = qr_RequestID req \<and> req_ClientID d = ClientIDFromContext r \<and>
       req_CoverageLines d = qr_CoverageLines req \<and>
       100 * Millisecond \<le> req_Timeout d \<and> req_Timeout d \<le> 30 * Second \<and>
       he_orch h d (wb_gateway s) = (out, wb_gateway s') \<and>
       answered req out resp))"
proof (cases "\<exists>req. he_decode h (rq_Body r) = Decoded req \<and> request_ok req")
  case False
  from handlePostQuotes_invalid [OF this, of hs s] assms False show ?thesis by simp
next
  case True
  then obtain req where req: "he_decode h (rq_Body r) = Decoded req" "request_ok req" by blast
  define d where "d = (buildDomainRequest req)\<lparr>req_ClientID := ClientIDFromContext r\<rparr>"
  obtain out g where og: "he_orch h d (wb_gateway s) = (out, g)" by fastforce
  have "req_RequestID d = qr_RequestID req" "req_ClientID d = ClientIDFromContext r"
    "req_CoverageLines d = qr_CoverageLines req"
    by (simp_all add: d_def buildDomainRequest_def Let_def)
  moreover have "100 * Millisecond \<le> req_Timeout d" "req_Timeout d \<le> 30 * Second"
    using req(2) buildDomainRequest_timeout [OF req(2)]
    by (auto simp: d_def request_ok_def Millisecond_def Second_def)
  moreover note handlePostQuotes_valid [OF req og [unfolded d_def], of hs] assms og
  ultimately show ?thesis using req by (intro conjI disjI2 exI [of _ req] exI [of _ d] exI [of _ out]) simp_all
qed

text \<open>What the handler may rely on in the orchestrator's port: \<open>GetQuotes\<close> answers without an error.\<close>

locale orchestrator_port =
  fixes orch :: "'g orchestrator"
  assumes answers: "\<exists>out. fst (orch q g) = Inr out"
begin

lemma no_server_error:
  assumes "he_orch h = orch" shows "rs_Status (fst (handlePostQuotes h r hs s)) \<in> {200, 400, 422}"
proof (cases "\<exists>req. he_decode h (rq_Body r) = Decoded req \<and> request_ok req")
  case False
  from handlePostQuotes_invalid [OF this, of hs s] show ?thesis by simp
next
  case True
  then obtain req where req: "he_decode h (rq_Body r) = Decoded req" "request_ok req" by blast
  let ?q = "(buildDomainRequest req)\<lparr>req_ClientID := ClientIDFromContext r\<rparr>"
  obtain out g where "he_orch h ?q (wb_gateway s) = (Inr out, g)"
    using answers [of ?q "wb_gateway s"] assms by (metis prod.collapse)
  from handlePostQuotes_valid [OF req this, of hs] show ?thesis
    by (cases "out = []") (auto simp: answered_quotes simp del: answered.simps(3))
qed

end

definition quoteRequest_example :: quoteRequest where
  "quoteRequest_example = \<lparr>qr_RequestID = ''req-1'', qr_CoverageLines = [''auto''], qr_TimeoutMs = 250\<rparr>"

definition http_req_example :: http_req where
  "http_req_example = \<lparr>rq_Method = ''POST'', rq_Path = ''/quotes'', rq_RemoteAddr = ''10.0.0.1:12345'',
     rq_Authorization = ''Bearer secret-key'', rq_XRequestID = [], rq_Body = ''{}'', rq_ClientID = Some ''acme''\<rparr>"

definition handler_example :: "unit handler_env" where
  "handler_example = \<lparr>he_decode = (\<lambda>body. Decoded quoteRequest_example), he_quote = (\<lambda>s. s), he_now = (\<lambda>g. 0),
     he_orch = (\<lambda>req g. (Inr [], g)), he_ping = None\<rparr>"

lemma quoteRequest_example_ok: "request_ok quoteRequest_example"
  by (simp add: request_ok_def quoteRequest_example_def printable_def byte_def)

theorem post_quotes_contract_witness:
  "\<exists>resp s'. handlePostQuotes handler_example http_req_example Map.empty \<lparr>wb_log = [], wb_gateway = ()\<rparr> = (resp, s') \<and>
     rs_Status resp = 422"
proof -
  obtain resp s' where run: "handlePostQuotes handler_example http_req_example Map.empty
      \<lparr>wb_log = [], wb_gateway = ()\<rparr> = (resp, s')" by fastforce
  from post_quotes_contract [OF run] quoteRequest_example_ok have "rs_Status resp = 422"
    by (auto simp: handler_example_def)
  with run show ?thesis by blast
qed

end
