(* ===== verification/RF_Auth.thy ===== *)
theory RF_Auth
  imports RF_Web RF_Rate_Limiter
begin

text \<open>
  Authentication, \<open>internal/middleware/auth.go\<close>: the per-address budget of failed attempts with its
  cleanup, and \<open>RequireAPIKey\<close>. The token bucket is \<open>golang.org/x/time/rate\<close>, a parameter whose
  documented behaviour is the hypothesis \<open>token_bucket\<close>. A request runs to its end before the next
  event; \<open>RF_Auth_Concurrent\<close> has the steps of concurrent requests.
\<close>

section \<open>Addresses and tokens\<close>

fun index_byte :: "char \<Rightarrow> string \<Rightarrow> nat option" where
  "index_byte c [] = None"
| "index_byte c (x # xs) = (if x = c then Some 0 else map_option Suc (index_byte c xs))"

definition last_index_byte :: "char \<Rightarrow> string \<Rightarrow> nat option" where
  "last_index_byte c s = map_option (\<lambda>i. length s - Suc i) (index_byte c (rev s))"

text \<open>\<open>net.SplitHostPort\<close> of the standard library; \<open>None\<close> is any of its errors.\<close>

definition SplitHostPort :: "string \<Rightarrow> (string \<times> string) option" where
  "SplitHostPort s =
     (case last_index_byte CHR '':'' s of
        None \<Rightarrow> None
      | Some i \<Rightarrow>
          (let finish = (\<lambda>host j k.
                 if CHR ''['' \<in> set (drop j s) then None
                 else if CHR '']'' \<in> set (drop k s) then None
                 else Some (host, drop (i + 1) s))
           in if take 1 s = ''[''
              then (case index_byte CHR '']'' s of
                      None \<Rightarrow> None
                    | Some e \<Rightarrow> if e + 1 = i then finish (take (e - 1) (drop 1 s)) 1 (e + 1) else None)
              else if CHR '':'' \<in> set (take i s) then None
              else finish (take i s) 0 0))"

definition remote_ip :: "string \<Rightarrow> string" where
  "remote_ip remote =
     (let ip = (case SplitHostPort remote of Some (host, port) \<Rightarrow> host | None \<Rightarrow> [])
      in if ip = [] then remote else ip)"

definition TrimPrefix :: "string \<Rightarrow> string \<Rightarrow> string" where
  "TrimPrefix s p = (if prefix p s then drop (length p) s else s)"

lemma TrimPrefix_changed: "TrimPrefix s p \<noteq> s \<Longrightarrow> s = p @ TrimPrefix s p"
  by (auto simp: TrimPrefix_def prefix_def split: if_splits)

lemma remote_ip_example: "remote_ip ''10.0.0.1:12345'' = ''10.0.0.1'' \<and> remote_ip ''[::1]:80'' = ''::1''"
  by (simp add: remote_ip_def SplitHostPort_def last_index_byte_def)

section \<open>The failure budget\<close>

record 'l bucket_ops =
  bk_every :: "duration \<Rightarrow> real"
  bk_new :: "real \<Rightarrow> int \<Rightarrow> 'l"
  bk_tokens :: "gotime \<Rightarrow> 'l \<Rightarrow> real"
  bk_allow :: "'l rate_allow"

record 'l authFailureLimiter =
  al_ips :: "string \<rightharpoonup> 'l"
  al_lastSeen :: "string \<rightharpoonup> gotime"
  al_rate :: real
  al_burst :: int

definition newAuthFailureLimiter :: "'l bucket_ops \<Rightarrow> 'l authFailureLimiter" where
  "newAuthFailureLimiter ops =
     \<lparr>al_ips = Map.empty, al_lastSeen = Map.empty, al_rate = bk_every ops (6 * Second), al_burst = 10\<rparr>"

definition getOrCreate ::
  "'l bucket_ops \<Rightarrow> string \<Rightarrow> gotime \<Rightarrow> 'l authFailureLimiter \<Rightarrow> 'l \<times> 'l authFailureLimiter" where
  "getOrCreate ops ip now l =
     (let l = l\<lparr>al_lastSeen := (al_lastSeen l)(ip \<mapsto> now)\<rparr> in
      case al_ips l ip of
        Some v \<Rightarrow> (v, l)
      | None \<Rightarrow> (let fresh = bk_new ops (al_rate l) (al_burst l)
                 in (fresh, l\<lparr>al_ips := (al_ips l)(ip \<mapsto> fresh)\<rparr>)))"

definition isExhausted ::
  "'l bucket_ops \<Rightarrow> string \<Rightarrow> gotime \<Rightarrow> 'l authFailureLimiter \<Rightarrow> bool \<times> 'l authFailureLimiter" where
  "isExhausted ops ip now l = (case getOrCreate ops ip now l of (v, l) \<Rightarrow> (bk_tokens ops now v < 1, l))"

definition tryRecordFailure ::
  "'l bucket_ops \<Rightarrow> string \<Rightarrow> gotime \<Rightarrow> 'l authFailureLimiter \<Rightarrow> bool \<times> 'l authFailureLimiter" where
  "tryRecordFailure ops ip now l =
     (case getOrCreate ops ip now l of (v, l) \<Rightarrow>
        (case bk_allow ops now v of (ok, v') \<Rightarrow> (ok, l\<lparr>al_ips := (al_ips l)(ip \<mapsto> v')\<rparr>)))"

text \<open>One tick of the cleanup goroutine that \<open>startCleanup\<close> runs.\<close>

definition evict :: "duration \<Rightarrow> gotime \<Rightarrow> 'l authFailureLimiter \<Rightarrow> 'l authFailureLimiter" where
  "evict ttl now l =
     (let old = (\<lambda>ip. case al_lastSeen l ip of Some t \<Rightarrow> time_sub now t > ttl | None \<Rightarrow> False)
      in l\<lparr>al_ips := (\<lambda>ip. if old ip then None else al_ips l ip),
           al_lastSeen := (\<lambda>ip. if old ip then None else al_lastSeen l ip)\<rparr>)"

definition cleanup_ttl :: duration where "cleanup_ttl = 5 * Minute"

section \<open>RequireAPIKey\<close>

definition key_id :: "string \<Rightarrow> string" where
  "key_id k = (if length k > 8 then take 8 k @ ''...'' else k)"

text \<open>The loop over all keys; \<open>subtle.ConstantTimeCompare\<close> is 1 exactly on equal byte strings.\<close>

fun match_loop :: "string \<Rightarrow> string list \<Rightarrow> nat \<Rightarrow> int \<Rightarrow> int" where
  "match_loop token [] i matchIdx = matchIdx"
| "match_loop token (k # ks) i matchIdx =
     match_loop token ks (i + 1) (if token = k then int i else matchIdx)"

definition writeUnauthorized :: "headers \<Rightarrow> response" where
  "writeUnauthorized hs = json_reply 401 hs (ErrorBody ''UNAUTHORIZED: missing or invalid API key'')"

definition writeTooManyRequests :: "headers \<Rightarrow> response" where
  "writeTooManyRequests hs = json_reply 429 (hs(''Retry-After'' \<mapsto> ''60''))
     (ErrorBody ''TOO_MANY_REQUESTS: too many failed authentication attempts'')"

record audit_entry =
  ae_Method :: string
  ae_Path :: string
  ae_Status :: int
  ae_DurationUs :: int
  ae_ClientID :: string

text \<open>The state of the server: that of a request, the budgets, the slots in use, the audit log.\<close>

record ('g, 'l) server = "'g web" +
  sv_limiter :: "'l authFailureLimiter"
  sv_sem :: nat
  sv_audit :: "audit_entry list"

text \<open>The decision about a request whose path is not skipped.\<close>

datatype verdict = TooManyFailures | Unauthorized | Admitted string

definition authenticate ::
  "'l bucket_ops \<Rightarrow> string list \<Rightarrow> gotime \<Rightarrow> http_req \<Rightarrow> 'l authFailureLimiter \<Rightarrow>
     verdict \<times> 'l authFailureLimiter" where
  "authenticate ops keys now r l =
     (let ip = remote_ip (rq_RemoteAddr r);
          fail = (\<lambda>l. (Unauthorized, snd (tryRecordFailure ops ip now l)))
      in case isExhausted ops ip now l of
           (True, l) \<Rightarrow> (TooManyFailures, l)
         | (False, l) \<Rightarrow>
             (let raw = rq_Authorization r; token = TrimPrefix raw ''Bearer '' in
              if token = [] \<or> token = raw then fail l
              else (let matchIdx = match_loop token keys 0 (-1) in
                    if matchIdx < 0 then fail l
                    else (Admitted (map key_id keys ! nat matchIdx), l))))"

definition RequireAPIKey ::
  "'l bucket_ops \<Rightarrow> ('g \<Rightarrow> gotime) \<Rightarrow> ('g, 'l) server handler \<Rightarrow> string list \<Rightarrow> string list \<Rightarrow>
     ('g, 'l) server handler" where
  "RequireAPIKey ops clock next_handler keys skipPaths r hs s =
     (if rq_Path r \<in> set skipPaths then next_handler r hs s
      else (case authenticate ops keys (clock (wb_gateway s)) r (sv_limiter s) of
          (TooManyFailures, l) \<Rightarrow> (writeTooManyRequests hs, s\<lparr>sv_limiter := l\<rparr>)
        | (Unauthorized, l) \<Rightarrow> (writeUnauthorized hs, s\<lparr>sv_limiter := l\<rparr>)
        | (Admitted cid, l) \<Rightarrow>
            next_handler (r\<lparr>rq_ClientID := Some cid\<rparr>) hs (s\<lparr>sv_limiter := l\<rparr>)))"

section \<open>The decision\<close>

lemma match_loop_spec:
  "(token \<notin> set keys \<and> match_loop token keys i m = m) \<or>
   (\<exists>j < length keys. keys ! j = token \<and> match_loop token keys i m = int (i + j))"
proof (induction keys arbitrary: i m)
  case (Cons k ks)
  show ?case
  proof (cases "token \<in> set ks")
    case True
    with Cons [of "i + 1" "if token = k then int i else m"] obtain j
      where "j < length ks" "ks ! j = token"
        "match_loop token (k # ks) i m = int (i + 1 + j)" by auto
    then show ?thesis by (intro disjI2 exI [of _ "Suc j"]) simp
  next
    case False
    with Cons [of "i + 1" "if token = k then int i else m"]
    show ?thesis by (cases "token = k") (auto intro: nth_mem)
  qed
qed simp

text \<open>A request presents a key if its header is \<open>Bearer\<close>, a space and one of the keys.\<close>

definition presents :: "string list \<Rightarrow> http_req \<Rightarrow> string \<Rightarrow> bool" where
  "presents keys r k \<longleftrightarrow> k \<in> set keys \<and> k \<noteq> [] \<and> rq_Authorization r = ''Bearer '' @ k"

lemma authenticate_cases:
  obtains (exhausted) l' where "isExhausted ops (remote_ip (rq_RemoteAddr r)) now l = (True, l')"
      "authenticate ops keys now r l = (TooManyFailures, l')"
  | (bad) l' where "isExhausted ops (remote_ip (rq_RemoteAddr r)) now l = (False, l')"
      "\<nexists>k. presents keys r k"
      "authenticate ops keys now r l =
         (Unauthorized, snd (tryRecordFailure ops (remote_ip (rq_RemoteAddr r)) now l'))"
  | (good) l' k where "isExhausted ops (remote_ip (rq_RemoteAddr r)) now l = (False, l')"
      "presents keys r k" "authenticate ops keys now r l = (Admitted (key_id k), l')"
proof -
  let ?ip = "remote_ip (rq_RemoteAddr r)" and ?raw = "rq_Authorization r"
  let ?token = "TrimPrefix ?raw ''Bearer ''"
  obtain e l' where i: "isExhausted ops ?ip now l = (e, l')" by fastforce
  have pres: "presents keys r k \<longleftrightarrow> k \<in> set keys \<and> k \<noteq> [] \<and> ?token \<noteq> ?raw \<and> ?token = k" for k
    using TrimPrefix_changed [of ?raw "''Bearer ''"]
    by (auto simp: presents_def TrimPrefix_def prefix_def split: if_splits)
  show ?thesis
  proof (cases e)
    case True
    with i show ?thesis by (intro exhausted [of l']) (simp_all add: authenticate_def)
  next
    case False
    show ?thesis
    proof (cases "?token = [] \<or> ?token = ?raw \<or> ?token \<notin> set keys")
      case True
      have "authenticate ops keys now r l = (Unauthorized, snd (tryRecordFailure ops ?ip now l'))"
        using True match_loop_spec [of ?token keys 0 "-1"] False i
        by (auto simp: authenticate_def Let_def in_set_conv_nth)
      moreover have "\<nexists>k. presents keys r k" using True by (auto simp: pres)
      ultimately show ?thesis using i False bad [of l'] by simp
    next
      case ok: False
      with match_loop_spec [of ?token keys 0 "-1"] obtain j where "j < length keys" "keys ! j = ?token"
        "match_loop ?token keys 0 (-1) = int j" by auto
      with ok False i have "authenticate ops keys now r l = (Admitted (key_id ?token), l')"
        by (simp add: authenticate_def Let_def)
      with ok i False show ?thesis by (intro good [of l' ?token]) (simp_all add: pres)
    qed
  qed
qed

section \<open>Token buckets\<close>

text \<open>
  The documented behaviour of a limiter \<open>NewLimiter(Every(d), n)\<close>: it starts full with \<open>n\<close> tokens,
  gains one every \<open>d\<close> up to \<open>n\<close>, and \<open>Allow\<close> takes one if it is there. \<open>valid b t\<close> says
  that \<open>b\<close> is such a limiter that was last used at \<open>t\<close> or before.
\<close>

definition refilled :: "duration \<Rightarrow> int \<Rightarrow> real \<Rightarrow> gotime \<Rightarrow> real" where
  "refilled d n k t = min (real_of_int n) (k + real_of_int t / real_of_int d)"

definition token_bucket ::
  "'l bucket_ops \<Rightarrow> duration \<Rightarrow> int \<Rightarrow> ('l \<Rightarrow> gotime \<Rightarrow> bool) \<Rightarrow> bool" where
  "token_bucket ops d n valid \<longleftrightarrow>
     (\<forall>t. valid (bk_new ops (bk_every ops d) n) t \<and> bk_tokens ops t (bk_new ops (bk_every ops d) n) = real_of_int n) \<and>
     (\<forall>b t t'. valid b t \<longrightarrow> t \<le> t' \<longrightarrow>
        valid b t' \<and> bk_tokens ops t' b = refilled d n (bk_tokens ops t b) (t' - t)) \<and>
     (\<forall>b t. valid b t \<longrightarrow> 1 \<le> bk_tokens ops t b \<longrightarrow>
        valid (snd (bk_allow ops t b)) t \<and> bk_tokens ops t (snd (bk_allow ops t b)) = bk_tokens ops t b - 1)"

lemma token_bucketD:
  assumes "token_bucket ops d n valid"
  shows token_bucket_new: "valid (bk_new ops (bk_every ops d) n) t"
      "bk_tokens ops t (bk_new ops (bk_every ops d) n) = real_of_int n"
    and token_bucket_refill: "valid b t \<Longrightarrow> t \<le> t' \<Longrightarrow> valid b t'"
      "valid b t \<Longrightarrow> t \<le> t' \<Longrightarrow> bk_tokens ops t' b = refilled d n (bk_tokens ops t b) (t' - t)"
    and token_bucket_allow: "valid b t \<Longrightarrow> 1 \<le> bk_tokens ops t b \<Longrightarrow> valid (snd (bk_allow ops t b)) t"
      "valid b t \<Longrightarrow> 1 \<le> bk_tokens ops t b \<Longrightarrow>
        bk_tokens ops t (snd (bk_allow ops t b)) = bk_tokens ops t b - 1"
  using assms unfolding token_bucket_def by blast+

abbreviation failure_bucket :: "'l bucket_ops \<Rightarrow> ('l \<Rightarrow> gotime \<Rightarrow> bool) \<Rightarrow> bool" where
  "failure_bucket ops \<equiv> token_bucket ops (6 * Second) 10"

section \<open>The budget of an address\<close>

definition budget :: "'l bucket_ops \<Rightarrow> 'l authFailureLimiter \<Rightarrow> string \<Rightarrow> gotime \<Rightarrow> real" where
  "budget ops l ip t = (case al_ips l ip of None \<Rightarrow> 10 | Some b \<Rightarrow> bk_tokens ops t b)"

definition budgets_ok ::
  "'l bucket_ops \<Rightarrow> ('l \<Rightarrow> gotime \<Rightarrow> bool) \<Rightarrow> 'l authFailureLimiter \<Rightarrow> gotime \<Rightarrow> bool" where
  "budgets_ok ops valid l t \<longleftrightarrow>
     al_rate l = bk_every ops (6 * Second) \<and> al_burst l = 10 \<and>
     (\<forall>ip b. al_ips l ip = Some b \<longrightarrow>
        (\<exists>u \<le> t. al_lastSeen l ip = Some u \<and> valid b u \<and> 0 \<le> bk_tokens ops u b))"

lemma refilled_mono: "k \<le> k' \<Longrightarrow> refilled d n k t \<le> refilled d n k' t"
  by (simp add: refilled_def min_def)

lemma refilled_ge: "0 \<le> t \<Longrightarrow> 0 < d \<Longrightarrow> 0 \<le> k \<Longrightarrow> 0 \<le> n \<Longrightarrow> 0 \<le> refilled d n k t"
  by (simp add: refilled_def)

lemma budgets_okD:
  assumes "failure_bucket ops valid" and "budgets_ok ops valid l t" and "al_ips l ip = Some b" and "t \<le> t'"
  shows "valid b t'" and "0 \<le> bk_tokens ops t' b"
proof -
  from assms(2,3) obtain u where u: "u \<le> t" "valid b u" "0 \<le> bk_tokens ops u b"
    unfolding budgets_ok_def by blast
  with assms(4) token_bucket_refill [OF assms(1) u(2), of t'] refilled_ge [OF _ _ u(3)]
  show "valid b t'" "0 \<le> bk_tokens ops t' b" by (auto simp: Second_def Millisecond_def)
qed

lemma budget_refill:
  assumes "failure_bucket ops valid" and "budgets_ok ops valid l t" and "t \<le> t'"
  shows "budget ops l ip t' = refilled (6 * Second) 10 (budget ops l ip t) (t' - t)"
  using token_bucket_refill(2) [OF assms(1) budgets_okD(1) [OF assms(1,2) _ order_refl] assms(3)] assms(3)
  by (cases "al_ips l ip") (auto simp: budget_def refilled_def Second_def Millisecond_def)

lemma budgets_ok_later: "budgets_ok ops valid l t \<Longrightarrow> t \<le> t' \<Longrightarrow> budgets_ok ops valid l t'"
  unfolding budgets_ok_def by (meson order_trans)

lemma getOrCreate_budget:
  assumes tb: "failure_bucket ops valid" and ok: "budgets_ok ops valid l t"
    and run: "getOrCreate ops ip t l = (b, l')"
  shows "al_ips l' ip = Some b \<and> bk_tokens ops t b = budget ops l ip t \<and> budgets_ok ops valid l' t \<and>
    budget ops l' j t = budget ops l j t"
proof (cases "al_ips l ip")
  case None
  have rb: "al_rate l = bk_every ops (6 * Second)" "al_burst l = 10" using ok by (simp_all add: budgets_ok_def)
  with None run have l': "b = bk_new ops (bk_every ops (6 * Second)) 10"
    "l' = l\<lparr>al_lastSeen := (al_lastSeen l)(ip \<mapsto> t), al_ips := (al_ips l)(ip \<mapsto> b)\<rparr>"
    by (auto simp: getOrCreate_def Let_def)
  with token_bucket_new [OF tb, of t] ok None show ?thesis
    by (auto simp: budgets_ok_def budget_def)
next
  case (Some v)
  with run have l': "b = v" "l' = l\<lparr>al_lastSeen := (al_lastSeen l)(ip \<mapsto> t)\<rparr>"
    by (auto simp: getOrCreate_def Let_def)
  with budgets_okD [OF tb ok Some order_refl] ok Some show ?thesis
    by (auto simp: budgets_ok_def budget_def)
qed

lemma isExhausted_budget:
  assumes "failure_bucket ops valid" and "budgets_ok ops valid l t" and "isExhausted ops ip t l = (e, l')"
  shows "(e \<longleftrightarrow> budget ops l ip t < 1) \<and> budgets_ok ops valid l' t \<and> budget ops l' j t = budget ops l j t"
  using getOrCreate_budget [OF assms(1,2), of ip] assms(3)
  by (cases "getOrCreate ops ip t l") (auto simp: isExhausted_def)

lemma tryRecordFailure_budget:
  assumes tb: "failure_bucket ops valid" and ok: "budgets_ok ops valid l t" and "1 \<le> budget ops l ip t"
  shows "budgets_ok ops valid (snd (tryRecordFailure ops ip t l)) t \<and>
    budget ops (snd (tryRecordFailure ops ip t l)) j t = budget ops l j t - (if j = ip then 1 else 0)"
proof -
  obtain b l' where g: "getOrCreate ops ip t l = (b, l')" by fastforce
  note s = getOrCreate_budget [OF tb ok g]
  let ?b = "snd (bk_allow ops t b)"
  have l'': "snd (tryRecordFailure ops ip t l) = l'\<lparr>al_ips := (al_ips l')(ip \<mapsto> ?b)\<rparr>"
    using g by (simp add: tryRecordFailure_def case_prod_beta)
  have seen: "al_lastSeen l' ip = Some t"
    using g by (auto simp: getOrCreate_def Let_def split: option.splits)
  have "valid b t" using budgets_okD(1) [OF tb _ _ order_refl] s by blast
  with token_bucket_allow [OF tb this] s assms(3) seen show ?thesis
    unfolding l'' by (auto simp: budgets_ok_def budget_def)
qed

text \<open>The cleanup forgets only addresses whose budget is full again.\<close>

lemma idle_bucket_full:
  assumes tb: "failure_bucket ops valid" and ok: "budgets_ok ops valid l t"
    and b: "al_ips l ip = Some b" and old: "al_lastSeen l ip = Some u" "time_sub now u > cleanup_ttl" and le: "now \<le> t"
  shows "bk_tokens ops t b = 10"
proof -
  have u: "u \<le> t" "valid b u" "0 \<le> bk_tokens ops u b"
    using ok b old unfolding budgets_ok_def by fastforce+
  have "5 * Minute < t - u"
    using old(2) le by (simp add: time_sub_def cleanup_ttl_def Minute_def Second_def Millisecond_def int64_min_def
        max_def min_def split: if_splits)
  then have "10 * real_of_int (6 * Second) \<le> real_of_int (t - u)"
    by (simp add: Minute_def Second_def Millisecond_def)
  then have "10 \<le> real_of_int (t - u) / real_of_int (6 * Second)"
    by (simp add: Second_def Millisecond_def field_simps)
  then show ?thesis
    using token_bucket_refill(2) [OF tb u(2,1)] u(3) by (simp add: refilled_def min_def)
qed

lemma evict_budget:
  assumes tb: "failure_bucket ops valid" and ok: "budgets_ok ops valid l t"
  shows "budgets_ok ops valid (evict cleanup_ttl t l) t \<and> budget ops (evict cleanup_ttl t l) ip t = budget ops l ip t"
proof -
  have "bk_tokens ops t b = 10"
    if "al_ips l ip = Some b" "al_lastSeen l ip = Some u" "time_sub t u > cleanup_ttl" for b u
    by (rule idle_bucket_full [OF tb ok that order_refl])
  then have "budget ops (evict cleanup_ttl t l) ip t = budget ops l ip t"
    by (auto simp: evict_def Let_def budget_def split: option.split)
  moreover have "budgets_ok ops valid (evict cleanup_ttl t l) t"
    using ok by (auto simp: evict_def Let_def budgets_ok_def split: if_splits)
  ultimately show ?thesis by blast
qed

text \<open>
  Check and record are two steps. However many requests of one address have passed the check before the
  first of them is recorded, the next one passes it too: the budget is only charged by the records.
\<close>

fun check_all :: "'l bucket_ops \<Rightarrow> string \<Rightarrow> gotime list \<Rightarrow> 'l authFailureLimiter \<Rightarrow> 'l authFailureLimiter" where
  "check_all ops ip [] l = l"
| "check_all ops ip (t # ts) l = check_all ops ip ts (snd (isExhausted ops ip t l))"

lemma checks_do_not_charge:
  assumes "failure_bucket ops valid" and "budgets_ok ops valid l t"
  shows "budgets_ok ops valid (check_all ops ip (replicate n t) l) t \<and>
    budget ops (check_all ops ip (replicate n t) l) j t = budget ops l j t"
  using assms(2)
proof (induction n arbitrary: l)
  case (Suc n)
  obtain e l' where "isExhausted ops ip t l = (e, l')" by fastforce
  with isExhausted_budget [OF assms(1) Suc.prems this] Suc.IH [of l'] show ?case by simp
qed simp

lemma check_then_record_gap:
  assumes "failure_bucket ops valid"
  shows "fst (isExhausted ops ip t (check_all ops ip (replicate n t) (newAuthFailureLimiter ops))) = False"
proof -
  let ?l = "check_all ops ip (replicate n t) (newAuthFailureLimiter ops)"
  have new: "budgets_ok ops valid (newAuthFailureLimiter ops) t" "budget ops (newAuthFailureLimiter ops) ip t = 10"
    by (simp_all add: newAuthFailureLimiter_def budgets_ok_def budget_def)
  note c = checks_do_not_charge [OF assms new(1), of ip n ip]
  obtain e l' where "isExhausted ops ip t ?l = (e, l')" by fastforce
  with isExhausted_budget [OF assms c [THEN conjunct1] this, of ip] c new(2) show ?thesis by simp
qed

section \<open>Sequences of requests and cleanup ticks\<close>

datatype auth_event = Request gotime http_req | CleanupTick gotime

fun event_time :: "auth_event \<Rightarrow> gotime" where
  "event_time (Request t r) = t"
| "event_time (CleanupTick t) = t"

fun is_request :: "auth_event \<Rightarrow> bool" where
  "is_request (Request t r) \<longleftrightarrow> True"
| "is_request (CleanupTick t) \<longleftrightarrow> False"

text \<open>The decisions, each with the address it was about.\<close>

fun auth_run ::
  "'l bucket_ops \<Rightarrow> string list \<Rightarrow> auth_event list \<Rightarrow> 'l authFailureLimiter \<Rightarrow> (string \<times> verdict) list" where
  "auth_run ops keys [] l = []"
| "auth_run ops keys (Request t r # es) l =
     (case authenticate ops keys t r l of (v, l) \<Rightarrow>
        (remote_ip (rq_RemoteAddr r), v) # auth_run ops keys es l)"
| "auth_run ops keys (CleanupTick t # es) l = auth_run ops keys es (evict cleanup_ttl t l)"

lemma authenticate_budget:
  assumes tb: "failure_bucket ops valid" and ok: "budgets_ok ops valid l t"
    and run: "authenticate ops keys t r l = (v, l')" and ip: "ip = remote_ip (rq_RemoteAddr r)"
  shows "budgets_ok ops valid l' t \<and> (v = TooManyFailures \<longleftrightarrow> budget ops l ip t < 1) \<and>
    (\<forall>j. budget ops l' j t = budget ops l j t - (if v = Unauthorized \<and> j = ip then 1 else 0))"
proof (cases rule: authenticate_cases [of ops r t l keys])
  case (exhausted l1)
  with isExhausted_budget [OF tb ok, of ip] run ip show ?thesis by auto
next
  case (bad l1)
  note e = isExhausted_budget [OF tb ok bad(1) [folded ip]]
  then have "budgets_ok ops valid l1 t" "1 \<le> budget ops l1 ip t" by (auto simp: not_less)
  from tryRecordFailure_budget [OF tb this] e bad(3) run ip show ?thesis by auto
next
  case (good l1 k)
  with isExhausted_budget [OF tb ok, of ip] run ip show ?thesis by auto
qed

lemma new_budgets:
  "budgets_ok ops valid (newAuthFailureLimiter ops) t \<and> budget ops (newAuthFailureLimiter ops) ip t = 10"
  by (simp add: newAuthFailureLimiter_def budgets_ok_def budget_def)

definition failures :: "string \<Rightarrow> (string \<times> verdict) list \<Rightarrow> nat" where
  "failures ip vs = length (filter (\<lambda>v. v = (ip, Unauthorized)) vs)"

lemma failures_simps [simp]:
  "failures ip [] = 0"
  "failures ip (v # vs) = (if v = (ip, Unauthorized) then 1 else 0) + failures ip vs"
  by (simp_all add: failures_def)

lemma budget_gain:
  assumes "failure_bucket ops valid" and "budgets_ok ops valid l t" and "t \<le> t'"
  shows "budget ops l ip t' \<le> budget ops l ip t + real_of_int (t' - t) / real_of_int (6 * Second)"
  using budget_refill [OF assms] by (simp add: refilled_def)

lemma budget_nonneg:
  assumes "failure_bucket ops valid" and "budgets_ok ops valid l t" shows "0 \<le> budget ops l ip t"
  using budgets_okD(2) [OF assms _ order_refl] by (auto simp: budget_def split: option.split)

lemma failures_within_budget:
  assumes tb: "failure_bucket ops valid" and "budgets_ok ops valid l t"
    and "sorted_wrt (\<le>) (t # map event_time es @ [e])"
  shows "real (failures ip (auth_run ops keys es l)) \<le>
    budget ops l ip t + real_of_int (e - t) / real_of_int (6 * Second)"
  using assms(2,3)
proof (induction es arbitrary: l t)
  case Nil
  then show ?case using budget_nonneg [OF tb Nil(1), of ip] by (simp add: Second_def Millisecond_def)
next
  case (Cons ev es)
  let ?u = "event_time ev" and ?q = "real_of_int (6 * Second)"
  have le: "t \<le> ?u" and sorted: "sorted_wrt (\<le>) (?u # map event_time es @ [e])" using Cons(3) by auto
  note gain = budget_gain [OF tb Cons(2) le, of ip] and ok = budgets_ok_later [OF Cons(2) le]
  have add: "real_of_int (e - t) / ?q = real_of_int (?u - t) / ?q + real_of_int (e - ?u) / ?q"
    by (simp add: add_divide_distrib [symmetric])
  show ?case
  proof (cases ev)
    case (Request u r)
    obtain v l' where a: "authenticate ops keys u r l = (v, l')" by fastforce
    note b = authenticate_budget [OF tb ok [unfolded Request event_time.simps] a refl]
    show ?thesis
      using Cons.IH [of l' u] b sorted gain add a Request by (auto split: if_splits)
  next
    case (CleanupTick u)
    note b = evict_budget [OF tb ok [unfolded CleanupTick event_time.simps]]
    show ?thesis
      using Cons.IH [of "evict cleanup_ttl u l" u] b [of ip] sorted gain add CleanupTick by simp
  qed
qed

lemma same_budgets_same_verdicts:
  assumes tb: "failure_bucket ops valid" and "budgets_ok ops valid l t" and "budgets_ok ops valid l0 t"
    and "\<forall>ip. budget ops l ip t = budget ops l0 ip t" and "sorted_wrt (\<le>) (t # map event_time es)"
  shows "auth_run ops keys es l = auth_run ops keys (filter is_request es) l0"
  using assms(2-5)
proof (induction es arbitrary: l l0 t)
  case (Cons ev es)
  let ?u = "event_time ev"
  have le: "t \<le> ?u" and sorted: "sorted_wrt (\<le>) (?u # map event_time es)" using Cons(5) by auto
  note ok = budgets_ok_later [OF Cons(2) le] and ok0 = budgets_ok_later [OF Cons(3) le]
  have same: "budget ops l ip ?u = budget ops l0 ip ?u" for ip
    using budget_refill [OF tb Cons(2) le] budget_refill [OF tb Cons(3) le] Cons(4) by simp
  show ?case
  proof (cases ev)
    case (Request u r)
    obtain v l' where a: "authenticate ops keys u r l = (v, l')" by fastforce
    obtain v0 l0' where a0: "authenticate ops keys u r l0 = (v0, l0')" by fastforce
    note b = authenticate_budget [OF tb ok [unfolded Request event_time.simps] a refl]
      and b0 = authenticate_budget [OF tb ok0 [unfolded Request event_time.simps] a0 refl]
    have "v = v0"
      using b b0 same a a0 Request by (cases rule: authenticate_cases [of ops r u l keys];
        cases rule: authenticate_cases [of ops r u l0 keys]) (auto simp: presents_def)
    with Cons.IH [of l' u l0'] b b0 same sorted a a0 Request show ?thesis by simp
  next
    case (CleanupTick u)
    with Cons.IH [of "evict cleanup_ttl u l" u l0] evict_budget [OF tb ok [unfolded CleanupTick event_time.simps]]
      ok0 same sorted show ?thesis by simp
  qed
qed simp

fun auth_state ::
  "'l bucket_ops \<Rightarrow> string list \<Rightarrow> auth_event list \<Rightarrow> 'l authFailureLimiter \<Rightarrow> 'l authFailureLimiter" where
  "auth_state ops keys [] l = l"
| "auth_state ops keys (Request t r # es) l = auth_state ops keys es (snd (authenticate ops keys t r l))"
| "auth_state ops keys (CleanupTick t # es) l = auth_state ops keys es (evict cleanup_ttl t l)"

lemma auth_state_ok:
  assumes tb: "failure_bucket ops valid" and "budgets_ok ops valid l t"
    and "sorted_wrt (\<le>) (t # map event_time es @ [e])"
  shows "budgets_ok ops valid (auth_state ops keys es l) e"
  using assms(2,3)
proof (induction es arbitrary: l t)
  case Nil
  then show ?case using budgets_ok_later by auto
next
  case (Cons ev es)
  let ?u = "event_time ev"
  have le: "t \<le> ?u" and sorted: "sorted_wrt (\<le>) (?u # map event_time es @ [e])" using Cons(3) by auto
  note ok = budgets_ok_later [OF Cons(2) le]
  show ?case
  proof (cases ev)
    case (Request u r)
    obtain v l' where a: "authenticate ops keys u r l = (v, l')" by fastforce
    with Cons.IH [of l' u] authenticate_budget [OF tb ok [unfolded Request event_time.simps] a refl] sorted Request
    show ?thesis by simp
  next
    case (CleanupTick u)
    with Cons.IH [of "evict cleanup_ttl u l" u] evict_budget [OF tb ok [unfolded CleanupTick event_time.simps]] sorted
    show ?thesis by simp
  qed
qed

lemma budget_le_burst:
  assumes "failure_bucket ops valid" and "budgets_ok ops valid l t" shows "budget ops l ip t \<le> 10"
  using budget_refill [OF assms order_refl, of ip] by (simp add: refilled_def)

section \<open>A bucket\<close>

text \<open>A limiter that behaves as documented: its level and when that was, or full if never used.\<close>

definition bucket_example :: "(real \<times> gotime) option bucket_ops" where
  "bucket_example =
     (let tokens = (\<lambda>t b. case b of None \<Rightarrow> 10 | Some (k, u) \<Rightarrow> refilled (6 * Second) 10 k (t - u))
      in \<lparr>bk_every = (\<lambda>d. real_of_int Second / real_of_int d), bk_new = (\<lambda>r n. None), bk_tokens = tokens,
          bk_allow = (\<lambda>t b. if 1 \<le> tokens t b then (True, Some (tokens t b - 1, t)) else (False, b))\<rparr>)"

definition bucket_valid :: "(real \<times> gotime) option \<Rightarrow> gotime \<Rightarrow> bool" where
  "bucket_valid b t \<longleftrightarrow> (case b of None \<Rightarrow> True | Some (k, u) \<Rightarrow> u \<le> t \<and> k \<le> 10)"

lemma refilled_refilled:
  assumes "0 \<le> s" and "0 \<le> s'" and "0 < d"
  shows "refilled d n (refilled d n k s) s' = refilled d n k (s + s')"
proof -
  have "0 \<le> real_of_int s' / real_of_int d" using assms by simp
  then show ?thesis by (auto simp: refilled_def min_def add_divide_distrib)
qed

lemma refilled_0: "refilled d n k 0 = min (real_of_int n) k"
  by (simp add: refilled_def)

lemma refilled_le: "refilled d n k t \<le> real_of_int n"
  by (simp add: refilled_def)

lemma bucket_example_refill:
  "bucket_valid b t \<Longrightarrow> t \<le> t' \<Longrightarrow> bucket_valid b t' \<and>
    bk_tokens bucket_example t' b = refilled (6 * Second) 10 (bk_tokens bucket_example t b) (t' - t)"
  using refilled_refilled [where d = "6 * Second" and n = 10 and s = "t - snd (the b)" and s' = "t' - t"
      and k = "fst (the b)"]
  by (cases b) (auto simp: bucket_valid_def bucket_example_def Let_def Second_def Millisecond_def
      refilled_def [of _ _ 10])

lemma bucket_example_allow:
  "bucket_valid b t \<Longrightarrow> 1 \<le> bk_tokens bucket_example t b \<Longrightarrow>
    bucket_valid (snd (bk_allow bucket_example t b)) t \<and>
    bk_tokens bucket_example t (snd (bk_allow bucket_example t b)) = bk_tokens bucket_example t b - 1"
  using refilled_le [of "6 * Second" 10 "fst (the b)" "t - snd (the b)"]
  by (cases b) (auto simp: bucket_valid_def bucket_example_def Let_def refilled_0)

lemma bucket_example_ok: "failure_bucket bucket_example bucket_valid"
  unfolding token_bucket_def
proof (intro conjI allI impI)
  fix t
  show "bucket_valid (bk_new bucket_example (bk_every bucket_example (6 * Second)) 10) t"
    and "bk_tokens bucket_example t (bk_new bucket_example (bk_every bucket_example (6 * Second)) 10) = real_of_int 10"
    by (simp_all add: bucket_example_def bucket_valid_def Let_def)
qed (use bucket_example_refill bucket_example_allow in blast)+

section \<open>Properties\<close>

text \<open>C7. Only a key opens the door: outside the skipped paths the next handler is called only for a
  request that presents one of the keys, with the identifier of that key as its client and nothing but
  the failure budgets changed; every other request is answered 401 or 429 by the middleware itself.\<close>

theorem valid_key_required:
  assumes "rq_Path r \<notin> set skipPaths"
  shows "\<exists>l. let s' = s\<lparr>sv_limiter := l\<rparr> in
    (\<exists>k. presents keys r k \<and> RequireAPIKey ops clock next_handler keys skipPaths r hs s =
       next_handler (r\<lparr>rq_ClientID := Some (key_id k)\<rparr>) hs s') \<or>
    (\<exists>resp. RequireAPIKey ops clock next_handler keys skipPaths r hs s = (resp, s') \<and>
       (rs_Status resp = 429 \<and> rs_Headers resp ''Retry-After'' = Some ''60'' \<or>
        rs_Status resp = 401 \<and> (\<nexists>k. presents keys r k)))"
proof (cases rule: authenticate_cases [of ops r "clock (wb_gateway s)" "sv_limiter s" keys])
  case (exhausted l)
  with assms show ?thesis
    by (intro exI [of _ l]) (simp add: RequireAPIKey_def Let_def writeTooManyRequests_def)
next
  case (bad l)
  with assms show ?thesis
    by (intro exI [of _ "snd (tryRecordFailure ops (remote_ip (rq_RemoteAddr r)) (clock (wb_gateway s)) l)"])
      (simp add: RequireAPIKey_def Let_def writeUnauthorized_def)
next
  case (good l k)
  with assms show ?thesis by (intro exI [of _ l]) (auto simp: RequireAPIKey_def Let_def)
qed

definition auth_req_example :: "string \<Rightarrow> http_req" where
  "auth_req_example auth = \<lparr>rq_Method = ''POST'', rq_Path = ''/quotes'', rq_RemoteAddr = ''10.0.0.1:12345'',
     rq_Authorization = auth, rq_XRequestID = [], rq_Body = [], rq_ClientID = None\<rparr>"

theorem valid_key_required_witness:
  "\<exists>l. let s' = \<lparr>wb_log = [], wb_gateway = (), sv_limiter = l, sv_sem = 0, sv_audit = []\<rparr> in
    \<exists>resp. RequireAPIKey bucket_example (\<lambda>g. 0) (\<lambda>r hs s. (json_reply 200 hs MetricsBody, s)) [''secret-key'']
       [''/healthz''] (auth_req_example ''Bearer wrong'') Map.empty
       \<lparr>wb_log = [], wb_gateway = (), sv_limiter = newAuthFailureLimiter bucket_example, sv_sem = 0, sv_audit = []\<rparr>
      = (resp, s') \<and> (rs_Status resp = 429 \<or> rs_Status resp = 401)"
proof -
  have n: "\<nexists>k. presents [''secret-key''] (auth_req_example ''Bearer wrong'') k"
    by (simp add: presents_def auth_req_example_def)
  have p: "rq_Path (auth_req_example ''Bearer wrong'') \<notin> set [''/healthz'']"
    by (simp add: auth_req_example_def)
  from valid_key_required [where ops = bucket_example and clock = "\<lambda>g. 0" and keys = "[''secret-key'']"
      and next_handler = "\<lambda>r hs s. (json_reply 200 hs MetricsBody, s)" and hs = Map.empty
      and s = "\<lparr>wb_log = [], wb_gateway = (), sv_limiter = newAuthFailureLimiter bucket_example,
        sv_sem = 0, sv_audit = []\<rparr>", OF p] n
  show ?thesis unfolding Let_def by auto
qed





end
