(* ===== verification/RF_Server.thy ===== *)
theory RF_Server
  imports RF_Handler RF_Middleware
begin

text \<open>
  The handler that \<open>Run\<close> of \<open>internal/cli/run.go\<close> serves: the routes inside the cap on requests in
  flight, authentication, the security headers and the audit log, in that order.
\<close>

definition skipPaths :: "string list" where
  "skipPaths = [''/healthz'', ''/readyz'', ''/metrics'']"

definition server_handler ::
  "'l bucket_ops \<Rightarrow> ('g \<Rightarrow> gotime) \<Rightarrow> string list \<Rightarrow> 'g handler_env \<Rightarrow> ('g, 'l) server handler" where
  "server_handler ops clock apiKeys h =
     AuditLog clock (SecurityHeaders (RequireAPIKey ops clock (LimitConcurrency 100 (RegisterRoutes h)) apiKeys skipPaths))"

section \<open>The routes keep the contract\<close>

lemma secured_http_Error: "secured hs \<Longrightarrow> secured (rs_Headers (http_Error hs st text))"
  by (simp add: http_Error_def secured_def security_headers_def)

lemma secured_NotAllowed: "secured hs \<Longrightarrow> secured (rs_Headers (NotAllowed allow hs))"
  by (simp add: NotAllowed_def secured_http_Error secured_other)

text \<open>\<open>handlePostQuotes\<close> answers with JSON and touches only the request log and the gateway.\<close>

definition json_answer :: "headers \<Rightarrow> ('g, 'z) web_scheme \<Rightarrow> response \<times> ('g, 'z) web_scheme \<Rightarrow> bool" where
  "json_answer hs s out \<longleftrightarrow> (\<exists>st b g log. out = (json_reply st hs b, s\<lparr>wb_gateway := g, wb_log := log\<rparr>))"

lemma json_answerI:
  "json_answer hs s (json_reply st hs b, s\<lparr>wb_gateway := g\<rparr>)" "json_answer hs s (json_reply st hs b, s)"
  unfolding json_answer_def
  by (intro exI [of _ st] exI [of _ b] exI [of _ g] exI [of _ "wb_log s"], simp)
    (intro exI [of _ st] exI [of _ b] exI [of _ "wb_gateway s"] exI [of _ "wb_log s"], simp)

lemma json_answer_writeError:
  "json_answer hs s (writeError hs status i c m (s\<lparr>wb_gateway := g\<rparr>))"
  unfolding json_answer_def writeError_def writeErrorBody_def by (intro exI) (rule refl)

lemma json_answer_writeError_same: "json_answer hs s (writeError hs status i c m s)"
  using json_answer_writeError [of hs s status i c m "wb_gateway s"] by simp

lemma json_answer_handleOrchError: "json_answer hs s (handleOrchError hs i e (s\<lparr>wb_gateway := g\<rparr>))"
  by (simp add: handleOrchError_def writeErrorBody_def json_answerI json_answer_writeError)

lemma handlePostQuotes_answer: "json_answer hs s (handlePostQuotes h r hs s)"
  by (simp add: handlePostQuotes_def Let_def json_answerI json_answer_writeError json_answer_writeError_same
      json_answer_handleOrchError split: decoded.split option.split prod.split sum.split)

lemma RegisterRoutes_tidy:
  fixes h :: "'g handler_env" shows "tidy (RegisterRoutes h :: ('g, 'l) server handler)"
  unfolding tidy_def
proof (intro allI conjI impI)
  fix r hs and s :: "('g, 'l) server"
  obtain st b log g where p: "handlePostQuotes h r hs s = (json_reply st hs b, s\<lparr>wb_gateway := g, wb_log := log\<rparr>)"
    using handlePostQuotes_answer [of hs s h r] unfolding json_answer_def by (elim exE)
  show "secured (rs_Headers (fst (RegisterRoutes h r hs s)))" if "secured hs"
    using that by (auto simp: RegisterRoutes_def p handleReadyz_def secured_other secured_http_Error secured_NotAllowed
        split: option.split)
  show "sv_sem (snd (RegisterRoutes h r hs s)) = sv_sem s"
    by (simp add: RegisterRoutes_def p handleReadyz_def split: option.split)
qed

lemma RegisterRoutes_silent:
  fixes h :: "'g handler_env" shows "silent (RegisterRoutes h :: ('g, 'l) server handler)"
  unfolding silent_def
proof (intro allI)
  fix r hs and s :: "('g, 'l) server"
  obtain st b log g where p: "handlePostQuotes h r hs s = (json_reply st hs b, s\<lparr>wb_gateway := g, wb_log := log\<rparr>)"
    using handlePostQuotes_answer [of hs s h r] unfolding json_answer_def by (elim exE)
  show "sv_audit (snd (RegisterRoutes h r hs s)) = sv_audit s"
    by (simp add: RegisterRoutes_def p handleReadyz_def split: option.split)
qed

lemmas inside_headers = auth_layer.keeps [OF cap_layer.keeps [OF RegisterRoutes_tidy]]
  auth_layer.quiet [OF cap_layer.quiet [OF RegisterRoutes_silent]]

lemma server_contract_audit:
  assumes "server_handler ops clock keys h r hs s = (resp, s')"
  shows "\<exists>us. sv_audit s' = sv_audit s @ [\<lparr>ae_Method = rq_Method r, ae_Path = rq_Path r, ae_Status = rs_Status resp,
     ae_DurationUs = us, ae_ClientID = ClientIDFromContext r\<rparr>]"
  by (rule AuditLog_entry [OF header_layer.quiet [OF inside_headers(2)] assms [unfolded server_handler_def]])

lemma fst_AuditLog: "fst (AuditLog clock h r hs s) = fst (h r hs s)"
  by (simp add: AuditLog_def case_prod_beta)

text \<open>The headers are set and the slot is given back, whatever the request.\<close>

lemma server_tidy:
  "secured (rs_Headers (fst (server_handler ops clock keys h r hs s)))"
  "sv_sem (snd (server_handler ops clock keys h r hs s)) = sv_sem s"
proof -
  let ?inner = "SecurityHeaders (RequireAPIKey ops clock (LimitConcurrency 100 (RegisterRoutes h)) keys skipPaths)"
  have "tidy ?inner" by (rule header_layer.keeps [OF inside_headers(1)])
  from audit_layer.keeps_slots [OF this] show "sv_sem (snd (server_handler ops clock keys h r hs s)) = sv_sem s"
    by (simp add: server_handler_def)
  have "secured (rs_Headers (fst (?inner r hs s)))" by (rule SecurityHeaders_secures [OF inside_headers(1)])
  then show "secured (rs_Headers (fst (server_handler ops clock keys h r hs s)))"
    by (simp add: server_handler_def fst_AuditLog)
qed

lemma gateway_AuditLog: "wb_gateway (snd (AuditLog clock h r hs s)) = wb_gateway (snd (h r hs s))"
  by (simp add: AuditLog_def case_prod_beta)

lemma LimitConcurrency_admits:
  assumes "sv_sem s < cap"
  shows "fst (LimitConcurrency cap h r hs s) = fst (h r hs (s\<lparr>sv_sem := sv_sem s + 1\<rparr>))"
    and "wb_gateway (snd (LimitConcurrency cap h r hs s)) = wb_gateway (snd (h r hs (s\<lparr>sv_sem := sv_sem s + 1\<rparr>)))"
  using assms by (simp_all add: LimitConcurrency_def try_send_def case_prod_beta split: option.split)

text \<open>An authenticated request that finds a free slot reaches its route, with its client's identifier.\<close>

lemma server_admits:
  assumes "rq_Path r \<notin> set skipPaths" and "presents keys r k"
    and "isExhausted ops (remote_ip (rq_RemoteAddr r)) (clock (wb_gateway s)) (sv_limiter s) = (False, l)"
    and "sv_sem s < 100"
  shows "\<exists>hs'. let out = RegisterRoutes h (r\<lparr>rq_ClientID := Some (key_id k)\<rparr>) hs'
        (s\<lparr>sv_limiter := l, sv_sem := sv_sem s + 1\<rparr>)
    in fst (server_handler ops clock keys h r hs s) = fst out \<and>
       wb_gateway (snd (server_handler ops clock keys h r hs s)) = wb_gateway (snd out)"
proof -
  let ?hs = "fold (\<lambda>(k, v) h. h(k \<mapsto> v)) security_headers hs"
  have "authenticate ops keys (clock (wb_gateway s)) r (sv_limiter s) = (Admitted (key_id k), l)"
    using assms(2,3)
    by (cases rule: authenticate_cases [of ops r "clock (wb_gateway s)" "sv_limiter s" keys]) (auto simp: presents_def)
  with assms(1,4) show ?thesis
    by (intro exI [of _ ?hs]) (simp add: server_handler_def fst_AuditLog gateway_AuditLog SecurityHeaders_def
        RequireAPIKey_def LimitConcurrency_admits)
qed

section \<open>Properties\<close>

text \<open>C8. Every response of the server: it carries the security headers, the slot it used is free
  again, exactly one entry with its method, path and status is added to the audit log, and unless the
  path is one of the probes or the request presents a key, it is a 401 or 429 that touched neither the
  gateway nor the request log.\<close>

theorem server_contract:
  assumes "server_handler ops clock keys h r hs s = (resp, s')"
  shows "secured (rs_Headers resp) \<and> sv_sem s' = sv_sem s \<and>
    (\<exists>us. sv_audit s' = sv_audit s @ [\<lparr>ae_Method = rq_Method r, ae_Path = rq_Path r, ae_Status = rs_Status resp,
       ae_DurationUs = us, ae_ClientID = ClientIDFromContext r\<rparr>]) \<and>
    (rq_Path r \<in> set skipPaths \<or> (\<exists>k. presents keys r k) \<or>
     rs_Status resp \<in> {401, 429} \<and> wb_gateway s' = wb_gateway s \<and> wb_log s' = wb_log s)"
proof -
  let ?auth = "\<lambda>next_handler. RequireAPIKey ops clock next_handler keys skipPaths"
  let ?in = "LimitConcurrency 100 (RegisterRoutes h)"
  let ?inner = "SecurityHeaders (?auth ?in)"
  obtain resp1 s1 where i: "?inner r hs s = (resp1, s1)" by fastforce
  with assms have r: "resp = resp1" "wb_gateway s' = wb_gateway s1" "wb_log s' = wb_log s1"
    by (auto simp: server_handler_def AuditLog_def)
  note audit = server_contract_audit [OF assms]
  have sec: "secured (rs_Headers resp)" and tidy: "sv_sem s' = sv_sem s"
    using server_tidy [of ops clock keys h r hs s] assms by simp_all
  have "rs_Status resp1 \<in> {401, 429} \<and> wb_gateway s1 = wb_gateway s \<and> wb_log s1 = wb_log s"
    if "rq_Path r \<notin> set skipPaths" "\<nexists>k. presents keys r k"
  proof (cases rule: authenticate_cases [of ops r "clock (wb_gateway s)" "sv_limiter s" keys])
    case (good l k)
    with that show ?thesis by blast
  qed (use that i in \<open>auto simp: SecurityHeaders_def RequireAPIKey_def writeTooManyRequests_def writeUnauthorized_def\<close>)
  then have "rq_Path r \<in> set skipPaths \<or> (\<exists>k. presents keys r k) \<or>
     rs_Status resp \<in> {401, 429} \<and> wb_gateway s' = wb_gateway s \<and> wb_log s' = wb_log s"
    unfolding r by argo
  with sec tidy audit show ?thesis by (intro conjI) assumption+
qed

definition server_example :: "(unit, (real \<times> gotime) option) server" where
  "server_example = \<lparr>wb_log = [], wb_gateway = (), sv_limiter = newAuthFailureLimiter bucket_example,
     sv_sem = 0, sv_audit = []\<rparr>"

theorem server_contract_witness:
  "\<exists>resp s'. server_handler bucket_example (\<lambda>g. 0) [''secret-key''] handler_example
      (auth_req_example ''Bearer wrong'') Map.empty server_example = (resp, s') \<and>
    secured (rs_Headers resp) \<and> sv_sem s' = 0 \<and> rs_Status resp \<in> {401, 429} \<and> length (sv_audit s') = 1"
proof -
  obtain resp s' where run: "server_handler bucket_example (\<lambda>g. 0) [''secret-key''] handler_example
      (auth_req_example ''Bearer wrong'') Map.empty server_example = (resp, s')" by fastforce
  have "\<nexists>k. presents [''secret-key''] (auth_req_example ''Bearer wrong'') k"
    "rq_Path (auth_req_example ''Bearer wrong'') \<notin> set skipPaths"
    by (simp_all add: presents_def auth_req_example_def skipPaths_def)
  with server_contract [OF run] have "secured (rs_Headers resp) \<and> sv_sem s' = 0 \<and> rs_Status resp \<in> {401, 429} \<and>
    length (sv_audit s') = 1"
    by (auto simp: server_example_def)
  with run show ?thesis by blast
qed

text \<open>The audit log never names the client: the entry is made from the request as it arrived, and the
  authentication stores the client in a copy of it.\<close>

lemma audit_has_no_client:
  assumes "server_handler ops clock keys h r hs s = (resp, s')" and "rq_ClientID r = None"
  shows "ae_ClientID (last (sv_audit s')) = []"
  using server_contract_audit [OF assms(1)] assms(2) by (auto simp: ClientIDFromContext_def)

end
