(* ===== verification/RF_Catalog.thy ===== *)
theory RF_Catalog
  imports RF_Orchestrator
begin

text \<open>
  The other repositories over Spanner: appetite rules (\<open>adapter/spanner/appetite_repo.go\<close>,
  \<open>domain/appetite.go\<close>) and carriers (\<open>adapter/spanner/carrier_repo.go\<close>), and the client they share
  (\<open>adapter/spanner/client.go\<close>). A nullable column is an
  \<open>option\<close>, and the \<open>WHERE\<close> clauses are read with the three truth values of SQL. JSON values are of a
  type \<open>'j\<close>; how they are marshalled and decoded are parameters, and so is the error a query may end with.
\<close>

section \<open>Conditions of SQL\<close>

text \<open>\<open>None\<close> is the unknown truth value; a row is returned if its condition is true.\<close>

type_synonym sql_bool = "bool option"

fun sql_and :: "sql_bool \<Rightarrow> sql_bool \<Rightarrow> sql_bool" where
  "sql_and (Some False) q = Some False"
| "sql_and (Some True) q = q"
| "sql_and None q = (if q = Some False then Some False else None)"

fun sql_or :: "sql_bool \<Rightarrow> sql_bool \<Rightarrow> sql_bool" where
  "sql_or (Some True) q = Some True"
| "sql_or (Some False) q = q"
| "sql_or None q = (if q = Some True then Some True else None)"

definition is_null :: "'x option \<Rightarrow> sql_bool" where
  "is_null x = Some (x = None)"

definition compared :: "('x \<Rightarrow> 'x \<Rightarrow> bool) \<Rightarrow> 'x option \<Rightarrow> 'x \<Rightarrow> sql_bool" where
  "compared rel x y = map_option (\<lambda>v. rel v y) x"

lemma sql_and_true [simp]: "sql_and p q = Some True \<longleftrightarrow> p = Some True \<and> q = Some True"
  by (cases "(p, q)" rule: sql_and.cases) auto

lemma null_or_compared [simp]:
  "sql_or (is_null x) (compared rel x y) = Some True \<longleftrightarrow> (\<forall>v. x = Some v \<longrightarrow> rel v y)"
  by (cases x) (auto simp: is_null_def compared_def)

section \<open>Appetite rules\<close>

record AppetiteRule =
  ar_RuleID :: string
  ar_CarrierID :: string
  ar_State :: string
  ar_LineOfBusiness :: string
  ar_ClassCode :: string
  ar_MinPremium :: real
  ar_MaxPremium :: real
  ar_IsActive :: bool
  ar_EligibilityCriteria :: string

record RiskClassification =
  rc_State :: string
  rc_LineOfBusiness :: string
  rc_ClassCode :: string
  rc_EstimatedPremium :: real

record 'j appetite_row =
  aw_RuleId :: string
  aw_CarrierId :: string
  aw_State :: string
  aw_LineOfBusiness :: string
  aw_ClassCode :: "string option"
  aw_MinPremium :: "real option"
  aw_MaxPremium :: "real option"
  aw_EligibilityCriteria :: "'j option"
  aw_IsActive :: bool

definition appetite_where :: "RiskClassification \<Rightarrow> 'j appetite_row \<Rightarrow> sql_bool" where
  "appetite_where risk row =
     (let cond = sql_and (Some (aw_IsActive row)) (sql_and (Some (aw_State row = rc_State risk))
                   (Some (aw_LineOfBusiness row = rc_LineOfBusiness risk)));
          cond = (if rc_ClassCode risk \<noteq> []
                  then sql_and cond (sql_or (is_null (aw_ClassCode row)) (compared (=) (aw_ClassCode row) (rc_ClassCode risk)))
                  else cond);
          cond = (if rc_EstimatedPremium risk > 0
                  then sql_and cond (sql_and
                         (sql_or (is_null (aw_MinPremium row)) (compared (\<le>) (aw_MinPremium row) (rc_EstimatedPremium risk)))
                         (sql_or (is_null (aw_MaxPremium row)) (compared (\<ge>) (aw_MaxPremium row) (rc_EstimatedPremium risk))))
                  else cond)
      in cond)"

definition appetite_rule :: "('j \<Rightarrow> string) \<Rightarrow> 'j appetite_row \<Rightarrow> AppetiteRule" where
  "appetite_rule marshal row =
     \<lparr>ar_RuleID = aw_RuleId row, ar_CarrierID = aw_CarrierId row, ar_State = aw_State row,
      ar_LineOfBusiness = aw_LineOfBusiness row,
      ar_ClassCode = (case aw_ClassCode row of Some v \<Rightarrow> v | None \<Rightarrow> []),
      ar_MinPremium = (case aw_MinPremium row of Some v \<Rightarrow> v | None \<Rightarrow> 0),
      ar_MaxPremium = (case aw_MaxPremium row of Some v \<Rightarrow> v | None \<Rightarrow> 0),
      ar_IsActive = True,
      ar_EligibilityCriteria = (case aw_EligibilityCriteria row of Some v \<Rightarrow> marshal v | None \<Rightarrow> [])\<rparr>"

definition queryRules ::
  "('j \<Rightarrow> string) \<Rightarrow> go_error option \<Rightarrow> ('j appetite_row \<Rightarrow> sql_bool) \<Rightarrow> 'j appetite_row list \<Rightarrow>
     go_error + AppetiteRule list" where
  "queryRules marshal fails cond rows =
     (case fails of
        Some err \<Rightarrow> Inl (Wrapped ''query appetite rules'' err)
      | None \<Rightarrow> Inr (map (appetite_rule marshal) (filter (\<lambda>row. cond row = Some True) rows)))"

definition FindMatchingRules ::
  "('j \<Rightarrow> string) \<Rightarrow> go_error option \<Rightarrow> RiskClassification \<Rightarrow> 'j appetite_row list \<Rightarrow> go_error + AppetiteRule list" where
  "FindMatchingRules marshal fails risk rows = queryRules marshal fails (appetite_where risk) rows"

definition ListAll ::
  "('j \<Rightarrow> string) \<Rightarrow> go_error option \<Rightarrow> 'j appetite_row list \<Rightarrow> go_error + AppetiteRule list" where
  "ListAll marshal fails rows = queryRules marshal fails (\<lambda>row. Some (aw_IsActive row)) rows"

section \<open>Carriers\<close>

record 'j carrier_row =
  cw_CarrierId :: string
  cw_Name :: string
  cw_Code :: string
  cw_Config :: "'j option"
  cw_IsActive :: bool

text \<open>\<open>decode\<close> marshals a JSON value and unmarshals it into a \<open>CarrierConfig\<close>, if it can.\<close>

definition carrier_of_row :: "('j \<Rightarrow> CarrierConfig option) \<Rightarrow> 'j carrier_row \<Rightarrow> Carrier" where
  "carrier_of_row decode row =
     \<lparr>c_ID = cw_CarrierId row, c_Code = cw_Code row, c_Name = cw_Name row, c_IsActive = True, c_Capabilities = [],
      c_Config = (case cw_Config row of
                    Some v \<Rightarrow> (case decode v of Some cfg \<Rightarrow> cfg | None \<Rightarrow> zero_config)
                  | None \<Rightarrow> zero_config)\<rparr>"

definition ListActive ::
  "('j \<Rightarrow> CarrierConfig option) \<Rightarrow> go_error option \<Rightarrow> 'j carrier_row list \<Rightarrow> go_error + Carrier list" where
  "ListActive decode fails rows =
     (case fails of
        Some err \<Rightarrow> Inl (Wrapped ''list carriers'' err)
      | None \<Rightarrow> Inr (map (carrier_of_row decode) (take 10000 (filter cw_IsActive rows))))"

section \<open>What the queries return\<close>

text \<open>The rules that match a risk: NULL columns accept everything, and an empty class code or a premium
  of zero asks nothing. The class code and premium of the risk only ever narrow the answer.\<close>

definition matches :: "RiskClassification \<Rightarrow> 'j appetite_row \<Rightarrow> bool" where
  "matches risk row \<longleftrightarrow> aw_IsActive row \<and> aw_State row = rc_State risk \<and>
     aw_LineOfBusiness row = rc_LineOfBusiness risk \<and>
     (rc_ClassCode risk = [] \<or> aw_ClassCode row \<in> {None, Some (rc_ClassCode risk)}) \<and>
     (rc_EstimatedPremium risk \<le> 0 \<or>
       (\<forall>m. aw_MinPremium row = Some m \<longrightarrow> m \<le> rc_EstimatedPremium risk) \<and>
       (\<forall>m. aw_MaxPremium row = Some m \<longrightarrow> rc_EstimatedPremium risk \<le> m))"

lemma appetite_where_matches: "appetite_where risk row = Some True \<longleftrightarrow> matches risk row"
  by (cases "aw_ClassCode row") (auto simp: appetite_where_def matches_def Let_def)

lemma FindMatchingRules_exact:
  "FindMatchingRules marshal None risk rows = Inr (map (appetite_rule marshal) (filter (matches risk) rows))"
  by (simp add: FindMatchingRules_def queryRules_def appetite_where_matches)

lemma FindMatchingRules_subset_ListAll:
  assumes "FindMatchingRules marshal None risk rows = Inr found" and "ListAll marshal None rows = Inr listed"
  shows "subseq found listed"
proof -
  have "filter (matches risk) rows = filter (matches risk) (filter aw_IsActive rows)"
    by (auto simp: matches_def intro: filter_cong)
  then have "subseq (filter (matches risk) rows) (filter aw_IsActive rows)" by (metis subseq_filter_left)
  with assms show ?thesis
    by (auto simp: FindMatchingRules_exact ListAll_def queryRules_def intro!: subseq_map)
qed

text \<open>A rule without an upper limit is read back as one with the limit 0.\<close>

lemma null_limit_reads_zero: "aw_MaxPremium row = None \<Longrightarrow> ar_MaxPremium (appetite_rule marshal row) = 0"
  by (simp add: appetite_rule_def)

text \<open>Carriers from Spanner have no capabilities, so none of them is ever eligible.\<close>

lemma spanner_carriers_never_eligible:
  assumes "ListActive decode fails rows = Inr carriers"
  shows "filterEligibleCarriers carriers breakers lines = []"
proof -
  have "c_Capabilities c = []" if "c \<in> set carriers" for c
    using assms that by (auto simp: ListActive_def carrier_of_row_def split: option.splits)
  then show ?thesis by (auto simp: filterEligibleCarriers_eq filter_empty_conv)
qed

section \<open>The Spanner client\<close>

text \<open>\<open>NewClient\<close> of \<open>adapter/spanner/client.go\<close>; \<open>open_db\<close> is the library's function of the same name.\<close>

definition NewClient :: "(string \<Rightarrow> go_error + 'c) \<Rightarrow> string \<Rightarrow> string \<Rightarrow> string \<Rightarrow> go_error + 'c" where
  "NewClient open_db project instanceID database =
     (let db = ''projects/'' @ project @ ''/instances/'' @ instanceID @ ''/databases/'' @ database in
      case open_db db of Inl err \<Rightarrow> Inl (Wrapped ''spanner client'' err) | Inr client \<Rightarrow> Inr client)"

end
