(* ===== verification/RF_Wiring.thy ===== *)
theory RF_Wiring
  imports RF_GetQuotes RF_Server RF_Catalog
begin

text \<open>
  The wiring of \<open>internal/cli/run.go\<close>: the environment, the API keys, the choice of carriers, and the
  loop that gives every carrier its breaker, limiter, tracker and adapter, and the settings of the server.
  What opening Spanner and listing its carriers answer, the token buckets and the random draws of the
  simulated carriers are parameters. Listening, signals and logging are not modelled here; how \<open>Run\<close> ends is
  \<open>Run_exit\<close>.
\<close>

section \<open>Environment and API keys\<close>

definition envOrDefault :: "(string \<Rightarrow> string) \<Rightarrow> string \<Rightarrow> string \<Rightarrow> string" where
  "envOrDefault getenv key fallback = (if getenv key \<noteq> [] then getenv key else fallback)"

fun api_keys :: "string list \<Rightarrow> string list" where
  "api_keys [] = []"
| "api_keys (k # ks) = (let k = TrimSpace k in if k \<noteq> [] then k # api_keys ks else api_keys ks)"

definition parse_api_keys :: "(string \<Rightarrow> string) \<Rightarrow> string list" where
  "parse_api_keys getenv = api_keys (Split1 (envOrDefault getenv ''API_KEYS'' []) CHR '','')"

section \<open>Carriers\<close>

definition standard_config :: "duration \<Rightarrow> int \<Rightarrow> real \<Rightarrow> int \<Rightarrow> CarrierConfig" where
  "standard_config hint priority tps burst =
     \<lparr>cc_TimeoutHint = hint, cc_OpenTimeout = 30 * Second, cc_FailureThreshold = 5, cc_SuccessThreshold = 2,
      cc_HedgeMultiplier = 3 / 2, cc_EMAAlpha = 0, cc_EMAWindowSize = 19, cc_EMAWarmupObservations = 10,
      cc_RateLimit = \<lparr>TokensPerSecond = tps, Burst = burst\<rparr>, cc_Priority = priority\<rparr>"

definition buildCarriers :: "Carrier list" where
  "buildCarriers =
     [\<lparr>c_ID = ''alpha'', c_Code = [], c_Name = ''Alpha Insurance'', c_IsActive = False,
       c_Capabilities = [CoverageLineAuto, CoverageLineHomeowners],
       c_Config = standard_config (100 * Millisecond) 1 100 10\<rparr>,
      \<lparr>c_ID = ''beta'', c_Code = [], c_Name = ''Beta Insurance'', c_IsActive = False,
       c_Capabilities = [CoverageLineAuto, CoverageLineHomeowners, CoverageLineUmbrella],
       c_Config = standard_config (200 * Millisecond) 2 50 5\<rparr>,
      \<lparr>c_ID = ''gamma'', c_Code = [], c_Name = ''Gamma Insurance'', c_IsActive = False,
       c_Capabilities = [CoverageLineHomeowners, CoverageLineUmbrella],
       c_Config = standard_config (800 * Millisecond) 3 100 10\<rparr>]"

text \<open>
  What \<open>NewClient\<close> and then \<open>ListActive\<close> answer, if all three variables are set; the flag says
  whether there is a repository.
\<close>

definition spanner_configured :: "(string \<Rightarrow> string) \<Rightarrow> bool" where
  "spanner_configured getenv \<longleftrightarrow> getenv ''SPANNER_PROJECT'' \<noteq> [] \<and> getenv ''SPANNER_INSTANCE'' \<noteq> [] \<and>
     getenv ''SPANNER_DATABASE'' \<noteq> []"

definition connect_spanner ::
  "(string \<Rightarrow> go_error + 'c) \<Rightarrow> ('c \<Rightarrow> go_error + Carrier list) \<Rightarrow> (string \<Rightarrow> string) \<Rightarrow>
     go_error + (go_error + Carrier list)" where
  "connect_spanner open_db listActive getenv =
     (case NewClient open_db (getenv ''SPANNER_PROJECT'') (getenv ''SPANNER_INSTANCE'') (getenv ''SPANNER_DATABASE'') of
        Inl err \<Rightarrow> Inl err
      | Inr client \<Rightarrow> Inr (listActive client))"

definition choose_carriers ::
  "(string \<Rightarrow> string) \<Rightarrow> go_error + (go_error + Carrier list) \<Rightarrow> go_error + Carrier list \<times> bool" where
  "choose_carriers getenv spanner =
     (if spanner_configured getenv
      then (case spanner of
              Inl err \<Rightarrow> Inl (Wrapped ''spanner connect'' err)
            | Inr (Inl err) \<Rightarrow> Inr (buildCarriers, True)
            | Inr (Inr dbCarriers) \<Rightarrow>
                if length dbCarriers = 0 then Inr (buildCarriers, True) else Inr (dbCarriers, True))
      else Inr (buildCarriers, False))"

definition default_config :: "CarrierConfig \<Rightarrow> CarrierConfig" where
  "default_config cfg =
     (let cfg = (if cc_FailureThreshold cfg = 0 then cfg\<lparr>cc_FailureThreshold := 5\<rparr> else cfg);
          cfg = (if cc_SuccessThreshold cfg = 0 then cfg\<lparr>cc_SuccessThreshold := 2\<rparr> else cfg);
          cfg = (if cc_OpenTimeout cfg = 0 then cfg\<lparr>cc_OpenTimeout := 30 * Second\<rparr> else cfg);
          cfg = (if cc_TimeoutHint cfg = 0 then cfg\<lparr>cc_TimeoutHint := 200 * Millisecond\<rparr> else cfg);
          cfg = (if cc_HedgeMultiplier cfg = 0 then cfg\<lparr>cc_HedgeMultiplier := 3 / 2\<rparr> else cfg);
          cfg = (if cc_EMAWindowSize cfg = 0 then cfg\<lparr>cc_EMAWindowSize := 19\<rparr> else cfg);
          cfg = (if cc_EMAWarmupObservations cfg = 0 then cfg\<lparr>cc_EMAWarmupObservations := 10\<rparr> else cfg);
          rl = cc_RateLimit cfg;
          rl = (if TokensPerSecond rl = 0 then rl\<lparr>TokensPerSecond := 100\<rparr> else rl);
          rl = (if Burst rl = 0 then rl\<lparr>Burst := 10\<rparr> else rl)
      in cfg\<lparr>cc_RateLimit := rl\<rparr>)"

text \<open>
  One turn of the wiring loop. \<open>draw\<close> gives the random draws of each call of a simulated carrier.
\<close>

definition wire_carrier ::
  "(real \<Rightarrow> int \<Rightarrow> 'l) \<Rightarrow> (string \<Rightarrow> 'l orch \<Rightarrow> draws) \<Rightarrow> Carrier \<Rightarrow>
     'l orch_ext1 Registry \<times> 'l orch \<Rightarrow> 'l orch_ext1 Registry \<times> 'l orch" where
  "wire_carrier newLimiter draw c st =
     (case st of (registry, w) \<Rightarrow>
        let cfg = default_config (c_Config c);
            (b, w) = New_breaker (c_ID c)
                       \<lparr>FailureThreshold = cc_FailureThreshold cfg, SuccessThreshold = cc_SuccessThreshold cfg,
                        OpenTimeout = cc_OpenTimeout cfg\<rparr> w;
            w = w\<lparr>o_breakers := (o_breakers w)(c_ID c \<mapsto> b)\<rparr>;
            w = w\<lparr>o_limiters := (o_limiters w)(c_ID c \<mapsto> New_limiter newLimiter (c_ID c) (cc_RateLimit cfg))\<rparr>;
            w = w\<lparr>o_trackers := (o_trackers w)(c_ID c \<mapsto> NewEMATracker (c_ID c) (cc_TimeoutHint cfg) cfg)\<rparr>;
            mock = \<lparr>m_id = c_ID c,
                    m_cfg = \<lparr>mc_BaseLatency = cc_TimeoutHint cfg, mc_JitterMs = 10, mc_FailureRate = 0\<rparr>\<rparr>;
            fn = (\<lambda>ctx q w. RegisterMockCarrier mock (draw (c_ID c) w) ctx q w)
        in (Registry_Register registry (c_ID c) fn, w))"

fun wire_loop ::
  "(real \<Rightarrow> int \<Rightarrow> 'l) \<Rightarrow> (string \<Rightarrow> 'l orch \<Rightarrow> draws) \<Rightarrow> Carrier list \<Rightarrow>
     'l orch_ext1 Registry \<times> 'l orch \<Rightarrow> 'l orch_ext1 Registry \<times> 'l orch" where
  "wire_loop newLimiter draw [] st = st"
| "wire_loop newLimiter draw (c # cs) st = wire_loop newLimiter draw cs (wire_carrier newLimiter draw c st)"

definition start_world :: "gotime \<Rightarrow> 'l orch" where
  "start_world now = \<lparr>w_now = now, w_metrics = [], o_breakers = Map.empty, o_limiters = Map.empty,
     o_trackers = Map.empty, o_results = [], o_panicked = False\<rparr>"

definition wire_orchestrator ::
  "'l rate_wait \<Rightarrow> 'l rate_allow \<Rightarrow> (real \<Rightarrow> int \<Rightarrow> 'l) \<Rightarrow> (string \<Rightarrow> 'l orch \<Rightarrow> draws) \<Rightarrow> Carrier list \<Rightarrow> gotime \<Rightarrow>
     'l Orchestrator \<times> 'l orch" where
  "wire_orchestrator rwait allow newLimiter draw carriers now =
     (case wire_loop newLimiter draw carriers (NewRegistry, start_world now) of (registry, w) \<Rightarrow>
        (New_orchestrator \<lparr>oc_carriers = carriers, oc_registry = registry, oc_wait = rwait, oc_allow = allow,
           oc_HedgePollInterval = 0\<rparr>, w))"

text \<open>The server \<open>Run\<close> listens with.\<close>

record http_server =
  hs_Addr :: string
  hs_ReadTimeout :: duration
  hs_WriteTimeout :: duration
  hs_IdleTimeout :: duration

definition new_http_server :: "string \<Rightarrow> http_server" where
  "new_http_server port = \<lparr>hs_Addr = '':'' @ port, hs_ReadTimeout = 30 * Second, hs_WriteTimeout = 30 * Second,
     hs_IdleTimeout = 120 * Second\<rparr>"

text \<open>Everything \<open>Run\<close> sets up before it listens: the server, the keys, the orchestrator and its state.\<close>

record 'l service =
  sr_httpSrv :: http_server
  sr_apiKeys :: "string list"
  sr_orch :: "'l Orchestrator"
  sr_world :: "'l orch"
  sr_repo :: bool

definition Run_setup ::
  "'l rate_wait \<Rightarrow> 'l rate_allow \<Rightarrow> (real \<Rightarrow> int \<Rightarrow> 'l) \<Rightarrow> (string \<Rightarrow> 'l orch \<Rightarrow> draws) \<Rightarrow> gotime \<Rightarrow>
     (string \<Rightarrow> string) \<Rightarrow> go_error + (go_error + Carrier list) \<Rightarrow> go_error + 'l service" where
  "Run_setup rwait allow newLimiter draw now getenv spanner =
     (let port = envOrDefault getenv ''PORT'' ''8080''; apiKeys = parse_api_keys getenv in
      if length apiKeys = 0 then Inl (OtherError ''API_KEYS environment variable required'')
      else (case choose_carriers getenv spanner of
              Inl err \<Rightarrow> Inl err
            | Inr (carriers, hasRepo) \<Rightarrow>
                (case wire_orchestrator rwait allow newLimiter draw carriers now of (orc, w) \<Rightarrow>
                   Inr \<lparr>sr_httpSrv = new_http_server port, sr_apiKeys = apiKeys, sr_orch = orc, sr_world = w, sr_repo = hasRepo\<rparr>)))"

text \<open>How \<open>Run\<close> returns: by a signal, by a failure of the server, or by the server's own close.\<close>

datatype run_end = Signalled | ServerFailed go_error | ServerClosed

definition Run_exit :: "run_end \<Rightarrow> go_error option \<Rightarrow> go_error option" where
  "Run_exit ending shutdown =
     (case ending of
        ServerFailed err \<Rightarrow> Some (Wrapped ''server error'' err)
      | _ \<Rightarrow> map_option (Wrapped ''shutdown'') shutdown)"

text \<open>A valid request may take as long as the server lets a response take.\<close>

lemma timeout_can_use_up_the_write_timeout:
  "\<exists>req. request_ok req \<and> req_Timeout (buildDomainRequest req) = hs_WriteTimeout (new_http_server port)"
proof -
  let ?req = "quoteRequest_example\<lparr>qr_TimeoutMs := 30000\<rparr>"
  have "request_ok ?req" using quoteRequest_example_ok by (simp add: request_ok_def quoteRequest_example_def)
  moreover have "req_Timeout (buildDomainRequest ?req) = 30 * Second"
    by (simp add: buildDomainRequest_def Let_def quoteRequest_example_def Second_def Millisecond_def wrap64_id is_int64_def
        int64_min_def int64_max_def)
  ultimately show ?thesis by (intro exI [of _ ?req]) (simp add: new_http_server_def)
qed

section \<open>API keys\<close>

lemma api_keys_iff: "k \<in> set (api_keys ks) \<longleftrightarrow> k \<noteq> [] \<and> (\<exists>p \<in> set ks. k = TrimSpace p)"
  by (induction ks) (auto simp: Let_def)

lemma sublist_set: "sublist xs ys \<Longrightarrow> set xs \<subseteq> set ys"
  by (auto simp: sublist_def)

lemma parse_api_keys_clean:
  assumes "k \<in> set (parse_api_keys getenv)" shows "k \<noteq> [] \<and> CHR '','' \<notin> set k"
proof -
  from assms obtain p where k: "k \<noteq> []" "k = TrimSpace p"
    and p: "p \<in> set (Split1 (envOrDefault getenv ''API_KEYS'' []) CHR '','')"
    by (auto simp: parse_api_keys_def api_keys_iff)
  then show ?thesis using Split1_clean [OF p] sublist_set [OF TrimSpace_sublist [of p]] by auto
qed

section \<open>What the loop establishes\<close>

text \<open>A carrier is ready if its adapter, breaker, limiter and tracker are there, are its own, and satisfy
  the invariants of their components.\<close>

definition ready :: "'l orch_ext1 Registry \<Rightarrow> 'l orch \<Rightarrow> string \<Rightarrow> bool" where
  "ready registry w i \<longleftrightarrow>
     (\<exists>fn. registry i = Some fn \<and> timely_adapter fn i) \<and>
     (\<exists>b. o_breakers w i = Some b \<and> b_carrierID b = i \<and> State b = CBStateClosed \<and> breaker_inv b) \<and>
     (\<exists>l. o_limiters w i = Some l \<and> l_carrierID l = i) \<and>
     (\<exists>t. o_trackers w i = Some t \<and> t_carrierID t = i \<and> tracker_ok t)"

text \<open>Configurations that make sense: thresholds that fit an \<open>int32\<close>, no negative latency.\<close>

definition plausible :: "Carrier \<Rightarrow> bool" where
  "plausible c \<longleftrightarrow> cc_FailureThreshold (c_Config c) < 2 ^ 31 \<and> cc_SuccessThreshold (c_Config c) < 2 ^ 31 \<and>
     0 \<le> cc_TimeoutHint (c_Config c)"

lemma default_config_fields:
  "cc_FailureThreshold (default_config cfg) = (if cc_FailureThreshold cfg = 0 then 5 else cc_FailureThreshold cfg)"
  "cc_SuccessThreshold (default_config cfg) = (if cc_SuccessThreshold cfg = 0 then 2 else cc_SuccessThreshold cfg)"
  "cc_TimeoutHint (default_config cfg) = (if cc_TimeoutHint cfg = 0 then 200 * Millisecond else cc_TimeoutHint cfg)"
  by (simp_all add: default_config_def Let_def)

text \<open>Drawing anew for every call keeps the adapter's contract, which is about single calls.\<close>

lemma timely_adapter_draws:
  assumes t: "\<And>d. timely_adapter (f d) i" shows "timely_adapter (\<lambda>c q w. f (draw w) c q w) i"
proof unfold_locales
  note assms = timely_adapter.axioms(1) [OF t]
  fix c q w and d :: gotime
  show "ctx_done_at c = Some d \<Longrightarrow> w_now w \<le> d \<Longrightarrow> w_now (snd (f (draw w) c q w)) \<le> d"
    by (rule timely_adapter.heeds_deadline [OF t])
next
  note assms = timely_adapter.axioms(1) [OF t]
  fix c q w
  show "snd (f (draw w) c q w) = w\<lparr>w_now := w_now (snd (f (draw w) c q w))\<rparr>"
    by (rule carrier_adapter.only_time [OF assms])
  show "w_now w \<le> w_now (snd (f (draw w) c q w))"
    by (rule carrier_adapter.time_passes [OF assms])
next
  note assms = timely_adapter.axioms(1) [OF t]
  fix c q w r w'
  assume run: "f (draw w) c q w = (Inr r, w')"
  show "res_CarrierID r = i" by (rule carrier_adapter.stamped [OF assms run])
  show "Currency (res_Premium r) = ''USD''" by (rule carrier_adapter.dollars [OF assms run])
  show "w_now w' < res_ExpiresAt r" by (rule carrier_adapter.unexpired [OF assms run])
  show "res_RequestID r = [] \<and> res_Latency r = 0 \<and> \<not> res_IsHedged r"
    by (rule carrier_adapter.unfilled [OF assms run])
qed

lemma wire_carrier_ready:
  assumes "plausible c" and "wire_carrier newLimiter draw c (registry, w) = (registry', w')"
  shows "ready registry' w' (c_ID c) \<and> (i \<noteq> c_ID c \<longrightarrow> ready registry' w' i = ready registry w i)"
    and "dom registry' = insert (c_ID c) (dom registry)" "dom (o_breakers w') = insert (c_ID c) (dom (o_breakers w))"
    and "w_metrics w' = w_metrics w @ [SetCBState (c_ID c) CBStateClosed]"
    and "o_panicked w' = o_panicked w" "w_now w' = w_now w"
proof -
  let ?cfg = "default_config (c_Config c)"
  let ?b = "\<lparr>FailureThreshold = cc_FailureThreshold ?cfg, SuccessThreshold = cc_SuccessThreshold ?cfg,
    OpenTimeout = cc_OpenTimeout ?cfg\<rparr>"
  let ?mock = "\<lparr>m_id = c_ID c, m_cfg = \<lparr>mc_BaseLatency = cc_TimeoutHint ?cfg, mc_JitterMs = 10, mc_FailureRate = 0\<rparr>\<rparr>"
  let ?fn = "\<lambda>ctx q w. RegisterMockCarrier ?mock (draw (c_ID c) w) ctx q w"
  have fn: "timely_adapter ?fn (c_ID c)"
    by (rule timely_adapter_draws) (use mock.timely_adapter_axioms [of ?mock] in simp)
  have b: "breaker_inv (fst (New_breaker (c_ID c) ?b w))"
    using assms(1) by (intro breaker_inv_New) (simp_all add: plausible_def default_config_fields)
  have t: "tracker_ok (NewEMATracker (c_ID c) (cc_TimeoutHint ?cfg) ?cfg)"
    using assms(1) by (intro tracker_ok_New) (simp add: plausible_def default_config_fields Millisecond_def)
  obtain b' w1 where nb: "New_breaker (c_ID c) ?b w = (b', w1)" by fastforce
  have b': "b_carrierID b' = c_ID c" "State b' = CBStateClosed" "breaker_inv b'"
    using nb b by (auto simp: New_breaker_def State_def)
  have w1: "w1 = emit (SetCBState (c_ID c) CBStateClosed) w" using nb by (simp add: New_breaker_def)
  have st: "registry' = registry(c_ID c \<mapsto> ?fn)"
    "o_breakers w' = (o_breakers w)(c_ID c \<mapsto> b')"
    "o_limiters w' = (o_limiters w)(c_ID c \<mapsto> New_limiter newLimiter (c_ID c) (cc_RateLimit ?cfg))"
    "o_trackers w' = (o_trackers w)(c_ID c \<mapsto> NewEMATracker (c_ID c) (cc_TimeoutHint ?cfg) ?cfg)"
    "w_metrics w' = w_metrics w @ [SetCBState (c_ID c) CBStateClosed]" "o_panicked w' = o_panicked w" "w_now w' = w_now w"
    using assms(2) nb w1 by (auto simp: wire_carrier_def Let_def Registry_Register_def)
  show "ready registry' w' (c_ID c) \<and> (i \<noteq> c_ID c \<longrightarrow> ready registry' w' i = ready registry w i)"
    using fn b' t by (simp add: ready_def st New_limiter_def NewEMATracker_def)
  show "dom registry' = insert (c_ID c) (dom registry)" "dom (o_breakers w') = insert (c_ID c) (dom (o_breakers w))"
    "w_metrics w' = w_metrics w @ [SetCBState (c_ID c) CBStateClosed]" "o_panicked w' = o_panicked w" "w_now w' = w_now w"
    by (simp_all add: st)
qed

lemma wire_loop_ready:
  assumes "list_all plausible cs" and "wire_loop newLimiter draw cs (registry, w) = (registry', w')"
  shows "(\<forall>i. i \<in> c_ID ` set cs \<or> ready registry w i \<longrightarrow> ready registry' w' i) \<and>
    dom registry' = c_ID ` set cs \<union> dom registry \<and> dom (o_breakers w') = c_ID ` set cs \<union> dom (o_breakers w) \<and>
    w_metrics w' = w_metrics w @ map (\<lambda>c. SetCBState (c_ID c) CBStateClosed) cs \<and>
    o_panicked w' = o_panicked w \<and> w_now w' = w_now w"
  using assms
proof (induction cs arbitrary: registry w)
  case (Cons c cs)
  obtain registry1 w1 where c: "wire_carrier newLimiter draw c (registry, w) = (registry1, w1)" by fastforce
  have p: "plausible c" "list_all plausible cs" using Cons(2) by auto
  note step = wire_carrier_ready [OF p(1) c]
  from c Cons(3) have "wire_loop newLimiter draw cs (registry1, w1) = (registry', w')" by simp
  note ih = Cons.IH [OF p(2) this]
  have keep: "i = c_ID c \<or> ready registry w i \<Longrightarrow> ready registry1 w1 i" for i using step(1) [of i] by auto
  have "i \<in> c_ID ` set (c # cs) \<or> ready registry w i \<Longrightarrow> ready registry' w' i" for i
    using ih keep [of i] by auto
  with ih step(2-) show ?case by auto
qed simp

lemma buildCarriers_plausible: "list_all plausible buildCarriers \<and> buildCarriers \<noteq> []"
  by (simp add: buildCarriers_def plausible_def standard_config_def Millisecond_def)

lemma choose_carriers_plausible:
  assumes "choose_carriers getenv spanner = Inr (cs, hasRepo)"
    and "\<And>dbCarriers. spanner = Inr (Inr dbCarriers) \<Longrightarrow> list_all plausible dbCarriers"
  shows "list_all plausible cs \<and> cs \<noteq> [] \<and> (hasRepo \<longleftrightarrow> spanner_configured getenv)"
  using assms buildCarriers_plausible by (auto simp: choose_carriers_def split: sum.splits if_splits)

lemma startup_facts:
  assumes "Run_setup rwait allow newLimiter draw now getenv spanner = Inr sv"
    and "\<And>dbCarriers. spanner = Inr (Inr dbCarriers) \<Longrightarrow> list_all plausible dbCarriers"
  shows "sr_apiKeys sv \<noteq> [] \<and> (\<forall>k \<in> set (sr_apiKeys sv). k \<noteq> [] \<and> CHR '','' \<notin> set k) \<and>
    oc_carriers (sr_orch sv) \<noteq> [] \<and> wired (sr_orch sv) (sr_world sv) \<and>
    (\<forall>i. i \<in> c_ID ` set (oc_carriers (sr_orch sv)) \<longleftrightarrow> ready (oc_registry (sr_orch sv)) (sr_world sv) i) \<and>
    w_metrics (sr_world sv) = map (\<lambda>c. SetCBState (c_ID c) CBStateClosed) (oc_carriers (sr_orch sv)) \<and>
    0 < oc_HedgePollInterval (sr_orch sv) \<and> \<not> o_panicked (sr_world sv)"
proof -
  from assms(1) have k: "parse_api_keys getenv \<noteq> []" by (auto simp: Run_setup_def Let_def split: if_splits)
  with assms(1) obtain cs hasRepo where c: "choose_carriers getenv spanner = Inr (cs, hasRepo)"
    by (auto simp: Run_setup_def Let_def split: sum.splits)
  obtain registry w where l: "wire_loop newLimiter draw cs (NewRegistry, start_world now) = (registry, w)" by fastforce
  have sv: "sr_apiKeys sv = parse_api_keys getenv" "oc_carriers (sr_orch sv) = cs" "oc_registry (sr_orch sv) = registry"
    "sr_world sv = w" "oc_HedgePollInterval (sr_orch sv) = defaultHedgePollInterval"
    using assms(1) k c l by (auto simp: Run_setup_def Let_def wire_orchestrator_def New_orchestrator_def)
  have cs: "list_all plausible cs" "cs \<noteq> []" using choose_carriers_plausible [OF c assms(2)] by auto
  note loop = wire_loop_ready [OF cs(1) l]
  have r: "ready registry w i \<longleftrightarrow> i \<in> c_ID ` set cs" for i
  proof
    assume "ready registry w i"
    then have "i \<in> dom registry" by (auto simp: ready_def)
    with loop show "i \<in> c_ID ` set cs" by (simp add: NewRegistry_def)
  qed (use loop in blast)
  then have "wired (sr_orch sv) (sr_world sv)"
    by (auto simp: wired_def sv list_all_iff ready_def)
  with r cs(2) k parse_api_keys_clean loop show ?thesis
    by (auto simp: sv start_world_def defaultHedgePollInterval_def Millisecond_def)
qed

lemma Run_setup_wait:
  "Run_setup rwait allow newLimiter draw now getenv spanner = Inr sv \<Longrightarrow> oc_wait (sr_orch sv) = rwait"
  by (auto simp: Run_setup_def Let_def wire_orchestrator_def New_orchestrator_def split: if_splits sum.splits prod.splits)

section \<open>Properties\<close>

text \<open>C17. What a successful start has established, whatever the environment and for any plausible
  carriers Spanner lists: at least one API key, none empty or with a comma; at least one carrier; every
  carrier is wired and ready, with exactly one state announcement each, and nothing else is registered.\<close>

theorem startup_establishes_invariants:
  assumes "Run_setup rwait allow newLimiter draw now getenv spanner = Inr sv"
    and "\<And>dbCarriers. spanner = Inr (Inr dbCarriers) \<Longrightarrow> list_all plausible dbCarriers"
  shows "sr_apiKeys sv \<noteq> [] \<and> (\<forall>k \<in> set (sr_apiKeys sv). k \<noteq> [] \<and> CHR '','' \<notin> set k) \<and>
    oc_carriers (sr_orch sv) \<noteq> [] \<and> wired (sr_orch sv) (sr_world sv) \<and>
    (\<forall>i. i \<in> c_ID ` set (oc_carriers (sr_orch sv)) \<longleftrightarrow> ready (oc_registry (sr_orch sv)) (sr_world sv) i) \<and>
    w_metrics (sr_world sv) = map (\<lambda>c. SetCBState (c_ID c) CBStateClosed) (oc_carriers (sr_orch sv)) \<and>
    0 < oc_HedgePollInterval (sr_orch sv) \<and> \<not> o_panicked (sr_world sv)"
  by (rule startup_facts [OF assms])

definition env_example :: "string \<Rightarrow> string" where
  "env_example k = (if k = ''API_KEYS'' then '' key-one,,key-two '' else [])"

lemma env_example_keys: "parse_api_keys env_example = [''key-one'', ''key-two'']"
  by code_simp

theorem startup_establishes_invariants_witness:
  "\<exists>sv. Run_setup (\<lambda>c t l. (None, 0, l)) (\<lambda>t l. (True, l)) (\<lambda>r b. ()) (\<lambda>i w. draws_example) 0 env_example
      (Inl ErrCarrierUnavailable) = Inr sv \<and>
    wired (sr_orch sv) (sr_world sv) \<and> oc_carriers (sr_orch sv) = buildCarriers \<and>
    ready (oc_registry (sr_orch sv)) (sr_world sv) ''alpha''"
proof -
  let ?run = "Run_setup (\<lambda>c t l. (None, 0, l)) (\<lambda>t l. (True, l)) (\<lambda>r b. ()) (\<lambda>i w. draws_example) 0 env_example
    (Inl ErrCarrierUnavailable)"
  have c: "choose_carriers env_example (Inl ErrCarrierUnavailable) = Inr (buildCarriers, False)"
    by (simp add: choose_carriers_def spanner_configured_def env_example_def)
  obtain registry and w :: "unit orch" where
    "wire_loop (\<lambda>r b. ()) (\<lambda>i w. draws_example) buildCarriers (NewRegistry, start_world 0) = (registry, w)"
    by fastforce
  then obtain sv where sv: "?run = Inr sv" "oc_carriers (sr_orch sv) = buildCarriers"
    by (simp add: Run_setup_def Let_def env_example_keys c wire_orchestrator_def New_orchestrator_def)
  have "''alpha'' \<in> c_ID ` set buildCarriers" by (simp add: buildCarriers_def)
  with startup_establishes_invariants [OF sv(1)] sv show ?thesis by auto
qed

end
