(* ===== verification/RF_Schedule.thy ===== *)
theory RF_Schedule
  imports RF_GetQuotes
begin

text \<open>
  The concurrent phase of a fan-out computed from the code of its parts: carrier calls, polls of the hedge
  monitor and hedges, in any order a schedule gives, each as one block, until every call has ended; what is
  left of the hedges then is cancelled. What this leaves is a finished run of the step relation of
  \<open>RF_FanOut\<close>, so the hypothesis \<open>phase\<close> of the properties of whole requests holds for it.
\<close>

section \<open>Schedules\<close>

text \<open>
  A call of the carrier at an index ends; the monitor's ticker fires and the pending slots are visited in an
  order; the hedge at an index ends; time passes. The flag of an end is the choice of its \<open>select\<close>.
\<close>

datatype fan_event = CallEnds nat bool | Poll "string list" | HedgeEnds nat bool | Pause nat

record 'l fan_world =
  fw_monitor :: "'l orch_ext1 monitor"
  fw_resolved :: bool
  fw_calls :: "nat set"
  fw_hedges :: "nat set"

abbreviation fw_world :: "'l fan_world \<Rightarrow> 'l orch" where
  "fw_world s \<equiv> m_world (fw_monitor s)"

definition in_world :: "('l orch \<Rightarrow> 'l orch) \<Rightarrow> 'l fan_world \<Rightarrow> 'l fan_world" where
  "in_world f s = s\<lparr>fw_monitor := (fw_monitor s)\<lparr>m_world := f (fw_world s)\<rparr>\<rparr>"

fun run_event ::
  "'l Orchestrator \<Rightarrow> ctx \<Rightarrow> Carrier list \<Rightarrow> 'l orch hedgeCarrier list \<Rightarrow> (string \<rightharpoonup> pendingCarrier) \<Rightarrow> QuoteRequest \<Rightarrow>
     fan_event \<Rightarrow> 'l fan_world \<Rightarrow> 'l fan_world" where
  "run_event orc c eligible hedgeable pending req (CallEnds i pick) s =
     (if i < length eligible \<and> i \<notin> fw_calls s
      then (in_world (callCarrier orc pick c (eligible ! i) req) s)\<lparr>fw_calls := insert i (fw_calls s)\<rparr> else s)"
| "run_event orc c eligible hedgeable pending req (Poll order) s =
     (if fw_resolved s then s
      else (let m = hedge_poll (w_now (fw_world s)) hedgeable (map (\<lambda>i. (i, the (pending i))) order) (fw_monitor s)
            in s\<lparr>fw_monitor := m, fw_resolved := m_allResolved m\<rparr>))"
| "run_event orc c eligible hedgeable pending req (HedgeEnds j pick) s =
     (if j < length (m_fired (fw_monitor s)) \<and> j \<notin> fw_hedges s
      then (case Registry_Get (oc_registry orc) (hc_ID (snd (m_fired (fw_monitor s) ! j))) of
              None \<Rightarrow> s
            | Some execFn \<Rightarrow> (in_world (hedge_call pick c execFn req) s)\<lparr>fw_hedges := insert j (fw_hedges s)\<rparr>)
      else s)"
| "run_event orc c eligible hedgeable pending req (Pause d) s = in_world (\<lambda>w. w\<lparr>w_now := w_now w + int d\<rparr>) s"

definition fan_world_init :: "'l orch \<Rightarrow> 'l fan_world" where
  "fan_world_init w = \<lparr>fw_monitor = monitor_init w, fw_resolved = False, fw_calls = {}, fw_hedges = {}\<rparr>"

definition run_schedule :: "'l Orchestrator \<Rightarrow> fan_event list \<Rightarrow> 'l fan_run_fn" where
  "run_schedule orc sched c eligible hedgeable pending req w =
     fw_world (fold (run_event orc c eligible hedgeable pending req) sched (fan_world_init w))"

text \<open>Every call ends, and a poll visits every pending slot once.\<close>

definition complete :: "Carrier list \<Rightarrow> fan_event list \<Rightarrow> bool" where
  "complete eligible sched \<longleftrightarrow>
     (\<forall>i < length eligible. \<exists>pick. CallEnds i pick \<in> set sched) \<and>
     (\<forall>order. Poll order \<in> set sched \<longrightarrow> distinct order \<and> set order = c_ID ` set eligible)"

section \<open>The goroutines after some blocks\<close>

text \<open>The calls in \<open>C\<close> and, of the \<open>m\<close> hedges, those in \<open>D\<close> have ended; nothing is received yet.\<close>

definition ended :: "nat set \<Rightarrow> nat \<Rightarrow> call_pc list" where
  "ended C n = map (\<lambda>i. if i \<in> C then Finished else Calling) [0..<n]"

definition settled :: "nat \<Rightarrow> nat set \<Rightarrow> nat \<Rightarrow> nat set \<Rightarrow> QuoteResult list \<Rightarrow> fan \<Rightarrow> bool" where
  "settled n C m D rs f \<longleftrightarrow>
     f_primaries f = ended C n \<and> f_hedges f = ended D m \<and> f_closer f = CWaitPrimaries \<and> \<not> f_closed f \<and>
     \<not> f_main_done f \<and> f_chan f = rs \<and> f_received f = [] \<and> \<not> f_timed_out f"

lemma ended_simps [simp]: "length (ended C n) = n" "i < n \<Longrightarrow> ended C n ! i = (if i \<in> C then Finished else Calling)"
  by (simp_all add: ended_def)

lemma ended_insert: "i < n \<Longrightarrow> (ended C n)[i := Finished] = ended (insert i C) n"
  by (rule nth_equalityI) (auto simp: nth_list_update)

lemma ended_Suc: "m \<notin> D \<Longrightarrow> ended D m @ [Calling] = ended D (Suc m)"
  by (simp add: ended_def)

lemma ended_all: "{..<n} \<subseteq> C \<Longrightarrow> list_all (\<lambda>p. p = Finished) (ended C n)"
  by (auto simp: ended_def list_all_iff)

lemma room_for_answer:
  assumes "fan_reachable n P H f" and "i < length (f_primaries f) \<and> f_primaries f ! i = Sending r \<or>
    i < length (f_hedges f) \<and> f_hedges f ! i = Sending r"
  shows "length (f_chan f) < 2 * n"
proof -
  have "fan_count n f" using fan_reachable_inv [OF assms(1)] by (simp add: fan_inv_def)
  moreover have "0 < busy (f_primaries f) + busy (f_hedges f)"
    using assms(2) busy_pos [of i "f_primaries f"] busy_pos [of i "f_hedges f"] by fastforce
  ultimately show ?thesis by (rule room_to_send)
qed

lemma call_fails:
  assumes "fan_reachable n P H f" and "settled n C m D rs f" and "i < n" and "i \<notin> C"
  shows "\<exists>f'. fan_reachable n P H f' \<and> settled n (insert i C) m D rs f' \<and>
    f_monitor f' = f_monitor f \<and> f_hedged f' = f_hedged f"
proof -
  let ?f = "f\<lparr>f_primaries := (f_primaries f)[i := Finished]\<rparr>"
  have "fan_reachable n P H ?f"
    by (rule reach_step [OF assms(1) primary_fails]) (use assms(2-4) in \<open>simp_all add: settled_def\<close>)
  then show ?thesis using assms(2,3) by (intro exI [of _ ?f]) (simp add: settled_def ended_insert)
qed

lemma call_answers:
  assumes "fan_reachable n P H f" and "settled n C m D rs f" and "i < n" and "i \<notin> C" and "P i r"
  shows "\<exists>f'. fan_reachable n P H f' \<and> settled n (insert i C) m D (rs @ [r]) f' \<and>
    f_monitor f' = f_monitor f \<and> f_hedged f' = f_hedged f"
proof -
  let ?f1 = "f\<lparr>f_primaries := (f_primaries f)[i := Sending r], f_answered := f_answered f @ [r]\<rparr>"
  let ?f2 = "chan_send r (?f1\<lparr>f_primaries := (f_primaries ?f1)[i := Finished]\<rparr>)"
  have r1: "fan_reachable n P H ?f1"
    by (rule reach_step [OF assms(1) primary_answers]) (use assms(2-5) in \<open>simp_all add: settled_def\<close>)
  have i: "i < length (f_primaries ?f1)" "f_primaries ?f1 ! i = Sending r" using assms(2,3) by (simp_all add: settled_def)
  have "fan_reachable n P H ?f2"
    by (rule reach_step [OF r1 primary_sends [OF i]]) (use room_for_answer [OF r1] i in blast)
  then show ?thesis
    using assms(2,3) by (intro exI [of _ ?f2]) (simp add: settled_def chan_send_def ended_insert)
qed

lemma hedge_fails:
  assumes "fan_reachable n P H f" and "settled n C m D rs f" and "j < m" and "j \<notin> D"
  shows "\<exists>f'. fan_reachable n P H f' \<and> settled n C m (insert j D) rs f' \<and>
    f_monitor f' = f_monitor f \<and> f_hedged f' = f_hedged f"
proof -
  let ?f = "f\<lparr>f_hedges := (f_hedges f)[j := Finished]\<rparr>"
  have "fan_reachable n P H ?f"
    by (rule reach_step [OF assms(1) fan_step.hedge_fails]) (use assms(2-4) in \<open>simp_all add: settled_def\<close>)
  then show ?thesis using assms(2,3) by (intro exI [of _ ?f]) (simp add: settled_def ended_insert)
qed

lemma hedge_answers:
  assumes "fan_reachable n P H f" and "settled n C m D rs f" and "j < m" and "j \<notin> D" and "H r"
  shows "\<exists>f'. fan_reachable n P H f' \<and> settled n C m (insert j D) (rs @ [r]) f' \<and>
    f_monitor f' = f_monitor f \<and> f_hedged f' = f_hedged f"
proof -
  let ?f1 = "f\<lparr>f_hedges := (f_hedges f)[j := Sending r]\<rparr>"
  let ?f2 = "chan_send r (?f1\<lparr>f_hedges := (f_hedges ?f1)[j := Finished]\<rparr>)"
  have r1: "fan_reachable n P H ?f1"
    by (rule reach_step [OF assms(1) fan_step.hedge_answers]) (use assms(2-5) in \<open>simp_all add: settled_def\<close>)
  have j: "j < length (f_hedges ?f1)" "f_hedges ?f1 ! j = Sending r" using assms(2,3) by (simp_all add: settled_def)
  have "fan_reachable n P H ?f2"
    by (rule reach_step [OF r1 hedge_sends [OF j]]) (use room_for_answer [OF r1] j in blast)
  then show ?thesis
    using assms(2,3) by (intro exI [of _ ?f2]) (simp add: settled_def chan_send_def ended_insert)
qed

lemma visit_passes:
  assumes "fan_reachable n P H f" and "settled n C m D rs f" and "f_monitor f = MVisit (i # is) all"
  shows "\<exists>f'. fan_reachable n P H f' \<and> settled n C m D rs f' \<and>
    f_monitor f' = MVisit is (all \<and> i \<in> f_hedged f) \<and> f_hedged f' = f_hedged f"
  using reach_step [OF assms(1) monitor_passes [OF assms(3)]] assms(2)
  by (intro exI [of _ "f\<lparr>f_monitor := MVisit is (all \<and> i \<in> f_hedged f)\<rparr>"]) (simp add: settled_def)

lemma visit_fires:
  assumes "fan_reachable n P H f" and "settled n C m D rs f" and "f_monitor f = MVisit (i # is) all" and "i \<notin> f_hedged f"
    and "m \<notin> D"
  shows "\<exists>f'. fan_reachable n P H f' \<and> settled n C (Suc m) D rs f' \<and>
    f_monitor f' = MVisit is False \<and> f_hedged f' = insert i (f_hedged f)"
  using reach_step [OF assms(1) monitor_fires [OF assms(3,4)]] assms(2) ended_Suc [OF assms(5)]
  by (intro exI [of _ "f\<lparr>f_monitor := MVisit is False, f_hedged := insert i (f_hedged f), f_hedges := f_hedges f @ [Calling]\<rparr>"])
    (simp add: settled_def)

section \<open>A poll\<close>

text \<open>The slots that were hedged are slots of carriers the monitor has marked.\<close>

definition marked :: "Carrier list \<Rightarrow> fan \<Rightarrow> 'a monitor \<Rightarrow> bool" where
  "marked e f mon \<longleftrightarrow> (\<forall>i \<in> f_hedged f. c_ID (e ! i) \<in> m_alreadyHedged mon)"

lemma hedge_visit_cases:
  obtains (seen) "fst slot \<in> m_alreadyHedged m" "hedge_visit now hs slot m = m"
  | (passed) w where "fst slot \<notin> m_alreadyHedged m"
      "hedge_visit now hs slot m = m\<lparr>m_allResolved := False, m_world := w\<rparr>"
      "w = m_world m \<or> (\<exists>h \<in> set hs. \<exists>ok. hc_tryAcquire h (m_world m) = (ok, w))"
  | (fired) h w where "fst slot \<notin> m_alreadyHedged m" "h \<in> set hs" "hc_tryAcquire h (m_world m) = (True, w)"
      "hedge_visit now hs slot m = m\<lparr>m_allResolved := False, m_alreadyHedged := insert (fst slot) (m_alreadyHedged m),
         m_fired := m_fired m @ [(fst slot, h)], m_world := emit (RecordHedge (hc_ID h) (fst slot)) w\<rparr>"
proof -
  obtain i p where slot: "slot = (i, p)" by fastforce
  let ?m = "m\<lparr>m_allResolved := False\<rparr>"
  have same: "?m = m\<lparr>m_allResolved := False, m_world := m_world m\<rparr>" by simp
  show ?thesis
  proof (cases "i \<in> m_alreadyHedged m")
    case True
    then show ?thesis by (intro seen) (simp_all add: slot hedge_visit_def)
  next
    case new: False
    show ?thesis
    proof (cases "duration_ms (time_sub now (pd_startTime p)) < pd_hedgeThreshold p")
      case True
      with new same show ?thesis by (intro passed [of "m_world m"]) (simp_all add: slot hedge_visit_def Let_def)
    next
      case late: False
      show ?thesis
      proof (cases "selectHedgeCandidate i hs (m_world m)")
        case None
        with new late same show ?thesis by (intro passed [of "m_world m"]) (simp_all add: slot hedge_visit_def Let_def)
      next
        case (Some h)
        obtain ok w where t: "hc_tryAcquire h (m_world m) = (ok, w)" by fastforce
        have h: "h \<in> set hs" by (rule selectHedgeCandidate_Some(1) [OF Some])
        show ?thesis
        proof (cases ok)
          case True
          with new late Some t h show ?thesis by (intro fired [of h w]) (simp_all add: slot hedge_visit_def Let_def)
        next
          case False
          with new late Some t have "hedge_visit now hs slot m = m\<lparr>m_allResolved := False, m_world := w\<rparr>"
            by (simp add: slot hedge_visit_def Let_def)
          then show ?thesis by (rule passed [rotated]) (use new slot t h in auto)
        qed
      qed
    qed
  qed
qed

definition visiting ::
  "nat \<Rightarrow> (nat \<Rightarrow> QuoteResult \<Rightarrow> bool) \<Rightarrow> (QuoteResult \<Rightarrow> bool) \<Rightarrow> Carrier list \<Rightarrow> nat set \<Rightarrow> nat set \<Rightarrow> QuoteResult list \<Rightarrow>
     nat list \<Rightarrow> 'a monitor \<Rightarrow> fan \<Rightarrow> bool" where
  "visiting n P H e C D rs is mon f \<longleftrightarrow> fan_reachable n P H f \<and> settled n C (length (m_fired mon)) D rs f \<and>
     marked e f mon \<and> D \<subseteq> {..<length (m_fired mon)} \<and> (\<exists>all. f_monitor f = MVisit is all \<and> (all \<longrightarrow> m_allResolved mon))"

lemma visiting_visit:
  assumes "visiting n P H e C D rs (i # is) mon f" and "c_ID (e ! i) = fst slot"
  shows "\<exists>f'. visiting n P H e C D rs is (hedge_visit now hs slot mon) f'"
proof -
  from assms(1) obtain all where f: "fan_reachable n P H f" "settled n C (length (m_fired mon)) D rs f" "marked e f mon"
    "D \<subseteq> {..<length (m_fired mon)}" "f_monitor f = MVisit (i # is) all" "all \<longrightarrow> m_allResolved mon"
    unfolding visiting_def by auto
  note pass = visit_passes [OF f(1,2,5)]
  show ?thesis
  proof (cases rule: hedge_visit_cases [of slot mon now hs])
    case seen
    from pass obtain f' where "fan_reachable n P H f'" "settled n C (length (m_fired mon)) D rs f'"
      "f_monitor f' = MVisit is (all \<and> i \<in> f_hedged f)" "f_hedged f' = f_hedged f" by blast
    with seen f show ?thesis unfolding visiting_def marked_def by (intro exI [of _ f']) auto
  next
    case (passed w)
    then have "i \<notin> f_hedged f" using f(3) assms(2) by (auto simp: marked_def)
    moreover from pass obtain f' where "fan_reachable n P H f'" "settled n C (length (m_fired mon)) D rs f'"
      "f_monitor f' = MVisit is (all \<and> i \<in> f_hedged f)" "f_hedged f' = f_hedged f" by blast
    ultimately show ?thesis using passed(2) f unfolding visiting_def marked_def by (intro exI [of _ f']) auto
  next
    case (fired h w)
    then have i: "i \<notin> f_hedged f" using f(3) assms(2) by (auto simp: marked_def)
    have "length (m_fired mon) \<notin> D" using f(4) by auto
    from visit_fires [OF f(1,2,5) i this] obtain f' where "fan_reachable n P H f'"
      "settled n C (Suc (length (m_fired mon))) D rs f'" "f_monitor f' = MVisit is False"
      "f_hedged f' = insert i (f_hedged f)" by blast
    with fired(4) f assms(2) show ?thesis unfolding visiting_def marked_def by (intro exI [of _ f']) auto
  qed
qed

lemma visiting_slots:
  assumes "visiting n P H e C D rs (map idx (map fst slots) @ is) mon f"
    and "\<forall>i \<in> set (map fst slots). c_ID (e ! idx i) = i"
  shows "\<exists>f'. visiting n P H e C D rs is (fold (hedge_visit now hs) slots mon) f'"
  using assms
proof (induction slots arbitrary: mon f)
  case (Cons slot slots)
  have "visiting n P H e C D rs (idx (fst slot) # (map idx (map fst slots) @ is)) mon f" using Cons.prems(1) by simp
  from visiting_visit [OF this, of slot now hs] Cons.prems(2)
  obtain f' where "visiting n P H e C D rs (map idx (map fst slots) @ is) (hedge_visit now hs slot mon) f'" by auto
  from Cons.IH [OF this] Cons.prems(2) show ?case by simp
qed auto

lemma visiting_rest:
  "visiting n P H e C D rs is mon f \<Longrightarrow> \<exists>f'. visiting n P H e C D rs [] mon f'"
proof (induction "is" arbitrary: f)
  case (Cons i "is")
  then obtain all where f: "fan_reachable n P H f" "settled n C (length (m_fired mon)) D rs f" "marked e f mon"
    "D \<subseteq> {..<length (m_fired mon)}" "f_monitor f = MVisit (i # is) all" "all \<longrightarrow> m_allResolved mon"
    unfolding visiting_def by auto
  from visit_passes [OF f(1,2,5)] obtain f' where "fan_reachable n P H f'" "settled n C (length (m_fired mon)) D rs f'"
    "f_monitor f' = MVisit is (all \<and> i \<in> f_hedged f)" "f_hedged f' = f_hedged f" by blast
  with f have "visiting n P H e C D rs is mon f'" unfolding visiting_def marked_def by auto
  then show ?case by (rule Cons.IH)
qed blast

text \<open>The slots in the order of the carriers visited.\<close>

lemma slot_order:
  assumes "distinct order" and "set order = c_ID ` set e"
  obtains idx rest where "\<forall>i \<in> set order. c_ID (e ! idx i) = i" and "mset (map idx order @ rest) = mset [0..<length e]"
proof -
  have "\<forall>i \<in> set order. \<exists>k < length e. c_ID (e ! k) = i" using assms(2) by (auto simp: in_set_conv_nth)
  then obtain idx where idx: "\<forall>i \<in> set order. idx i < length e \<and> c_ID (e ! idx i) = i" by metis
  let ?rest = "filter (\<lambda>k. k \<notin> set (map idx order)) [0..<length e]"
  have "inj_on idx (set order)" using idx by (metis inj_onI)
  then have "distinct (map idx order @ ?rest)" using assms(1) by (auto simp: distinct_map)
  moreover have "set (map idx order @ ?rest) = set [0..<length e]" using idx by auto
  ultimately have "mset (map idx order @ ?rest) = mset [0..<length e]"
    using set_eq_iff_mset_eq_distinct distinct_upt by blast
  with idx that show ?thesis by blast
qed

lemma poll_steps:
  assumes "fan_reachable (length e) P H f" and "settled (length e) C (length (m_fired mon)) D rs f" and "marked e f mon"
    and "D \<subseteq> {..<length (m_fired mon)}" and "f_monitor f = MSelect"
    and "distinct order" and "set order = c_ID ` set e"
    and "mon' = hedge_poll now hs (map (\<lambda>i. (i, p i)) order) mon"
  shows "\<exists>f'. fan_reachable (length e) P H f' \<and> settled (length e) C (length (m_fired mon')) D rs f' \<and> marked e f' mon' \<and>
    D \<subseteq> {..<length (m_fired mon')} \<and>
    (f_monitor f' = MSelect \<or> f_monitor f' = MWaitHedges \<and> m_allResolved mon')"
proof -
  let ?n = "length e"
  obtain idx rest where idx: "\<forall>i \<in> set order. c_ID (e ! idx i) = i" "mset (map idx order @ rest) = mset [0..<?n]"
    by (rule slot_order [OF assms(6,7)])
  let ?f = "f\<lparr>f_monitor := MVisit (map idx order @ rest) True\<rparr>" and ?mon = "mon\<lparr>m_allResolved := True\<rparr>"
  have "fan_reachable ?n P H ?f" by (rule reach_step [OF assms(1) monitor_ticks [OF assms(5) idx(2)]])
  then have "visiting ?n P H e C D rs (map idx (map fst (map (\<lambda>i. (i, p i)) order)) @ rest) ?mon ?f"
    using assms(2-4) by (auto simp: visiting_def settled_def marked_def comp_def intro!: exI [of _ True])
  from visiting_slots [OF this, of now hs] idx(1)
  obtain f1 where "visiting ?n P H e C D rs rest mon' f1" by (auto simp: assms(8) hedge_poll_def comp_def)
  from visiting_rest [OF this] obtain f2 all where f2: "fan_reachable ?n P H f2" "settled ?n C (length (m_fired mon')) D rs f2"
    "marked e f2 mon'" "D \<subseteq> {..<length (m_fired mon')}" "f_monitor f2 = MVisit [] all" "all \<longrightarrow> m_allResolved mon'"
    unfolding visiting_def by auto
  show ?thesis
  proof (cases all)
    case True
    with f2 have "fan_reachable ?n P H (f2\<lparr>f_monitor := MWaitHedges\<rparr>)" by (auto intro: reach_step monitor_resolved)
    with f2 True show ?thesis by (intro exI [of _ "f2\<lparr>f_monitor := MWaitHedges\<rparr>"]) (simp add: settled_def marked_def)
  next
    case False
    with f2 have "fan_reachable ?n P H (f2\<lparr>f_monitor := MSelect\<rparr>)" by (auto intro: reach_step monitor_loops)
    with f2 show ?thesis by (intro exI [of _ "f2\<lparr>f_monitor := MSelect\<rparr>"]) (simp add: settled_def marked_def)
  qed
qed


section \<open>The blocks and the world\<close>

text \<open>Carriers whose calls \<open>callCarrier\<close> can make: the parts are there and keep their contracts.\<close>

definition callable :: "'l Orchestrator \<Rightarrow> 'l orch \<Rightarrow> Carrier \<Rightarrow> bool" where
  "callable orc w k \<longleftrightarrow>
     (\<exists>fn. oc_registry orc (c_ID k) = Some fn \<and> timely_adapter fn (c_ID k)) \<and>
     o_limiters w (c_ID k) \<noteq> None \<and> (\<exists>b. o_breakers w (c_ID k) = Some b \<and> breaker_inv b) \<and>
     o_trackers w (c_ID k) \<noteq> None"

lemma callable_results [simp]: "callable orc (w\<lparr>o_results := rs\<rparr>) k = callable orc w k"
  by (simp add: callable_def)

lemma callCarrier_step:
  assumes "callable orc w k"
  shows "(o_results (callCarrier orc pick c k req w) = o_results w \<or>
      (\<exists>r. o_results (callCarrier orc pick c k req w) = o_results w @ [r] \<and> res_CarrierID r = c_ID k)) \<and>
    (\<forall>k'. callable orc w k' \<longrightarrow> callable orc (callCarrier orc pick c k req w) k') \<and>
    o_panicked (callCarrier orc pick c k req w) = o_panicked w \<and>
    (\<exists>lat st. filter is_quote (w_metrics (callCarrier orc pick c k req w)) =
       filter is_quote (w_metrics w) @ [RecordQuote (c_ID k) lat st])"
proof -
  let ?w = "callCarrier orc pick c k req w"
  from assms obtain f l b t where "oc_registry orc (c_ID k) = Some f" "timely_adapter f (c_ID k)"
    "o_limiters w (c_ID k) = Some l" "o_breakers w (c_ID k) = Some b" "breaker_inv b" "o_trackers w (c_ID k) = Some t"
    unfolding callable_def by auto
  from callCarrier_accounted [OF this(1) timely_adapter.axioms(1) [OF this(2)] this(3-6), of c req pick] obtain st lat b' where a:
    "accounted c (c_ID k) req t st lat w ?w" "o_panicked ?w = o_panicked w"
    "o_breakers ?w = (o_breakers w)(c_ID k \<mapsto> b')" "breaker_inv b'" "dom (o_limiters ?w) = dom (o_limiters w)"
    by (elim exE conjE) (rule that; assumption)
  have "o_limiters ?w i \<noteq> None \<longleftrightarrow> o_limiters w i \<noteq> None" for i using a(5) by (metis domIff)
  moreover have "o_trackers w i \<noteq> None \<Longrightarrow> o_trackers ?w i \<noteq> None" for i
    using a(1) by (auto simp: accounted_def split: if_splits)
  ultimately have "callable orc w k' \<longrightarrow> callable orc ?w k'" for k'
    using a(3,4) by (auto simp: callable_def)
  moreover have "o_results ?w = o_results w \<or> (\<exists>r. o_results ?w = o_results w @ [r] \<and> res_CarrierID r = c_ID k)"
    using a(1) by (auto simp: accounted_def split: if_splits)
  moreover have "\<exists>lat st. filter is_quote (w_metrics ?w) = filter is_quote (w_metrics w) @ [RecordQuote (c_ID k) lat st]"
    using a(1) by (auto simp: accounted_def)
  ultimately show ?thesis using a(2) by simp
qed

text \<open>The carriers of the quote metrics in a world.\<close>

fun quoted_carrier :: "metric_event \<Rightarrow> string" where
  "quoted_carrier (RecordQuote i lat st) = i"
| "quoted_carrier e = []"

definition quoted :: "'l orch \<Rightarrow> string multiset" where
  "quoted w = mset (map quoted_carrier (filter is_quote (w_metrics w)))"

text \<open>What blocks other than calls do to a world: no panic, no quote metric, and every part stays there.\<close>

definition harmless :: "'l Orchestrator \<Rightarrow> 'l orch \<Rightarrow> 'l orch \<Rightarrow> bool" where
  "harmless orc w w' \<longleftrightarrow> (\<forall>k. callable orc w k \<longrightarrow> callable orc w' k) \<and> o_panicked w' = o_panicked w \<and> quoted w' = quoted w"

lemma harmless_refl [simp]: "harmless orc w w"
  by (simp add: harmless_def)

lemma harmless_trans: "harmless orc w w' \<Longrightarrow> harmless orc w' w'' \<Longrightarrow> harmless orc w w''"
  by (simp add: harmless_def)

lemma harmless_results: "harmless orc w (w\<lparr>w_now := t, o_results := rs\<rparr>)"
  by (simp add: harmless_def callable_def quoted_def)

definition hedge_parts :: "'l Orchestrator \<Rightarrow> 'l orch \<Rightarrow> 'l orch hedgeCarrier \<Rightarrow> bool" where
  "hedge_parts orc w h \<longleftrightarrow> hc_tryAcquire h = hedge_tryAcquire orc (hc_ID h) \<and> callable orc w (hc_carrier h)"

lemma tryAcquire_harmless:
  assumes "hedge_parts orc w h" and "hc_tryAcquire h w = (ok, w')"
  shows "harmless orc w w' \<and> o_results w' = o_results w \<and> w_now w' = w_now w"
  using assms by (auto simp: hedge_parts_def callable_def hedge_tryAcquire_def harmless_def quoted_def
      split: option.splits prod.splits)

lemma emit_hedge_harmless: "harmless orc w (emit (RecordHedge i j) w)"
  by (simp add: harmless_def callable_def quoted_def)

lemma hedge_call_harmless:
  assumes "timely_adapter f i"
  shows "harmless orc w (hedge_call pick c f req w) \<and>
    (o_results (hedge_call pick c f req w) = o_results w \<or>
     (\<exists>r. o_results (hedge_call pick c f req w) = o_results w @ [r] \<and> res_CarrierID r = i))"
proof (cases rule: carrier_adapter.call_cases [OF timely_adapter.axioms(1) [OF assms], of c req w])
  case (1 err d)
  then show ?thesis using harmless_results [where orc = orc and w = w and t = "w_now w + int d" and rs = "o_results w"] by (simp add: hedge_call_def)
next
  case (2 r d)
  let ?r = "r\<lparr>res_IsHedged := True\<rparr>"
  have "harmless orc w (w\<lparr>w_now := w_now w + int d, o_results := o_results w @ [?r]\<rparr>)"
    "harmless orc w (w\<lparr>w_now := w_now w + int d\<rparr>)"
    using harmless_results [where orc = orc and w = w and t = "w_now w + int d"] by (simp, simp add: harmless_def callable_def quoted_def)
  with 2 show ?thesis by (simp add: hedge_call_def send_result_def)
qed

lemma visit_harmless:
  assumes "\<forall>h \<in> set hs. hedge_parts orc (m_world m) h" and "m' = hedge_visit now hs slot m"
  shows "harmless orc (m_world m) (m_world m') \<and> o_results (m_world m') = o_results (m_world m) \<and>
    w_now (m_world m') = w_now (m_world m) \<and> set (m_fired m) \<subseteq> set (m_fired m') \<and>
    snd ` set (m_fired m') \<subseteq> snd ` set (m_fired m) \<union> set hs"
proof (cases rule: hedge_visit_cases [of slot m now hs])
  case seen
  with assms(2) show ?thesis by auto
next
  case (passed w)
  from passed(3) have "harmless orc (m_world m) w \<and> o_results w = o_results (m_world m) \<and> w_now w = w_now (m_world m)"
  proof
    assume "\<exists>h \<in> set hs. \<exists>ok. hc_tryAcquire h (m_world m) = (ok, w)"
    with tryAcquire_harmless assms(1) show ?thesis by blast
  qed simp
  with passed(2) show ?thesis by (simp add: assms(2))
next
  case (fired h w)
  have "harmless orc (m_world m) w \<and> o_results w = o_results (m_world m) \<and> w_now w = w_now (m_world m)"
    using tryAcquire_harmless fired(2,3) assms(1) by blast
  with fired harmless_trans [OF _ emit_hedge_harmless] show ?thesis by (auto simp: assms(2))
qed

lemma hedge_parts_harmless: "hedge_parts orc w h \<Longrightarrow> harmless orc w w' \<Longrightarrow> hedge_parts orc w' h"
  by (simp add: hedge_parts_def harmless_def)

lemma poll_harmless:
  assumes "\<forall>h \<in> set hs. hedge_parts orc (m_world m) h" and "m' = hedge_poll now hs slots m"
  shows "harmless orc (m_world m) (m_world m') \<and> o_results (m_world m') = o_results (m_world m) \<and>
    w_now (m_world m') = w_now (m_world m) \<and> snd ` set (m_fired m') \<subseteq> snd ` set (m_fired m) \<union> set hs"
proof -
  have "harmless orc (m_world m) (m_world (fold (hedge_visit now hs) slots m)) \<and>
      o_results (m_world (fold (hedge_visit now hs) slots m)) = o_results (m_world m) \<and>
      w_now (m_world (fold (hedge_visit now hs) slots m)) = w_now (m_world m) \<and>
      snd ` set (m_fired (fold (hedge_visit now hs) slots m)) \<subseteq> snd ` set (m_fired m) \<union> set hs"
    if "\<forall>h \<in> set hs. hedge_parts orc (m_world m) h" for m :: "'a orch_ext1 monitor"
    using that
  proof (induction slots arbitrary: m)
    case (Cons slot slots)
    note v = visit_harmless [OF Cons.prems refl, of now slot]
    have "\<forall>h \<in> set hs. hedge_parts orc (m_world (hedge_visit now hs slot m)) h"
      using v Cons.prems hedge_parts_harmless by blast
    note ih = Cons.IH [OF this]
    have "harmless orc (m_world m) (m_world (fold (hedge_visit now hs) slots (hedge_visit now hs slot m)))"
      by (rule harmless_trans [OF conjunct1 [OF v] conjunct1 [OF ih]])
    moreover have "snd ` set (m_fired (fold (hedge_visit now hs) slots (hedge_visit now hs slot m))) \<subseteq>
        snd ` set (m_fired m) \<union> set hs" using conjunct2 [OF conjunct2 [OF conjunct2 [OF conjunct2 [OF v]]]]
        conjunct2 [OF conjunct2 [OF conjunct2 [OF ih]]] by blast
    ultimately show ?case using v ih by simp
  qed simp
  from this [of "m\<lparr>m_allResolved := True\<rparr>"] assms show ?thesis by (simp add: hedge_poll_def)
qed

section \<open>The invariant of a schedule\<close>

abbreviation from_call :: "Carrier list \<Rightarrow> nat \<Rightarrow> QuoteResult \<Rightarrow> bool" where
  "from_call e i r \<equiv> res_CarrierID r = c_ID (e ! i)"

abbreviation from_hedge :: "Carrier list \<Rightarrow> QuoteResult \<Rightarrow> bool" where
  "from_hedge e r \<equiv> res_CarrierID r \<in> c_ID ` set e"

text \<open>The goroutines and the world after some blocks, and what the carriers were charged.\<close>

definition blocks_inv ::
  "Carrier list \<Rightarrow> 'l orch hedgeCarrier list \<Rightarrow> 'l fan_world \<Rightarrow> fan \<Rightarrow> bool" where
  "blocks_inv e hs s f \<longleftrightarrow>
     fan_reachable (length e) (from_call e) (from_hedge e) f \<and>
     settled (length e) (fw_calls s) (length (m_fired (fw_monitor s))) (fw_hedges s) (o_results (fw_world s)) f \<and>
     marked e f (fw_monitor s) \<and> fw_hedges s \<subseteq> {..<length (m_fired (fw_monitor s))} \<and>
     (f_monitor f = MSelect \<or> f_monitor f = MWaitHedges \<and> fw_resolved s) \<and>
     snd ` set (m_fired (fw_monitor s)) \<subseteq> set hs"

definition world_inv :: "'l Orchestrator \<Rightarrow> Carrier list \<Rightarrow> 'l orch \<Rightarrow> 'l fan_world \<Rightarrow> bool" where
  "world_inv orc e w0 s \<longleftrightarrow>
     (\<forall>k \<in> set e. callable orc (fw_world s) k) \<and> o_panicked (fw_world s) = o_panicked w0 \<and>
     fw_calls s \<subseteq> {..<length e} \<and>
     quoted (fw_world s) = quoted w0 + image_mset (\<lambda>i. c_ID (e ! i)) (mset_set (fw_calls s))"

text \<open>The hedge candidates are the eligible carriers with their limiters.\<close>

definition candidates :: "'l Orchestrator \<Rightarrow> Carrier list \<Rightarrow> 'l orch hedgeCarrier list \<Rightarrow> bool" where
  "candidates orc e hs \<longleftrightarrow> (\<forall>h \<in> set hs. hc_tryAcquire h = hedge_tryAcquire orc (hc_ID h) \<and> hc_carrier h \<in> set e)"

lemma candidates_parts: "candidates orc e hs \<Longrightarrow> \<forall>k \<in> set e. callable orc w k \<Longrightarrow> h \<in> set hs \<Longrightarrow> hedge_parts orc w h"
  by (simp add: candidates_def hedge_parts_def)

text \<open>What each block does, from any world in which the carriers can be called.\<close>

lemma event_call:
  assumes "blocks_inv e hs s f" and "\<forall>k \<in> set e. callable orc (fw_world s) k" and "i < length e" and "i \<notin> fw_calls s"
    and "s' = (in_world (callCarrier orc pick c (e ! i) req) s)\<lparr>fw_calls := insert i (fw_calls s)\<rparr>"
  shows "(\<forall>k. callable orc (fw_world s) k \<longrightarrow> callable orc (fw_world s') k) \<and>
    o_panicked (fw_world s') = o_panicked (fw_world s) \<and> quoted (fw_world s') = quoted (fw_world s) + {#c_ID (e ! i)#} \<and>
    (\<exists>f'. blocks_inv e hs s' f')"
proof -
  let ?w = "callCarrier orc pick c (e ! i) req (fw_world s)"
  have w': "fw_world s' = ?w" "m_fired (fw_monitor s') = m_fired (fw_monitor s)" "fw_calls s' = insert i (fw_calls s)"
    "fw_hedges s' = fw_hedges s" "fw_resolved s' = fw_resolved s" "m_alreadyHedged (fw_monitor s') = m_alreadyHedged (fw_monitor s)"
    by (simp_all add: assms(5) in_world_def)
  have "callable orc (fw_world s) (e ! i)" using assms(2,3) by simp
  note step = callCarrier_step [OF this, of pick c req]
  from step obtain lat st where "filter is_quote (w_metrics ?w) = filter is_quote (w_metrics (fw_world s)) @ [RecordQuote (c_ID (e ! i)) lat st]"
    by blast
  then have q: "quoted ?w = quoted (fw_world s) + {#c_ID (e ! i)#}" by (simp add: quoted_def)
  have f: "fan_reachable (length e) (from_call e) (from_hedge e) f"
    "settled (length e) (fw_calls s) (length (m_fired (fw_monitor s))) (fw_hedges s) (o_results (fw_world s)) f"
    using assms(1) by (simp_all add: blocks_inv_def)
  have "\<exists>f'. fan_reachable (length e) (from_call e) (from_hedge e) f' \<and>
      settled (length e) (insert i (fw_calls s)) (length (m_fired (fw_monitor s))) (fw_hedges s) (o_results ?w) f' \<and>
      f_monitor f' = f_monitor f \<and> f_hedged f' = f_hedged f"
  proof (cases "o_results ?w = o_results (fw_world s)")
    case True
    with call_fails [OF f assms(3,4)] show ?thesis by simp
  next
    case False
    with step obtain r where "o_results ?w = o_results (fw_world s) @ [r]" "res_CarrierID r = c_ID (e ! i)" by blast
    with call_answers [OF f assms(3,4), of r] show ?thesis by simp
  qed
  with assms(1) have "\<exists>f'. blocks_inv e hs s' f'" unfolding blocks_inv_def w' marked_def by metis
  with step q w' show ?thesis by simp
qed

lemma event_hedge:
  assumes "blocks_inv e hs s f" and "\<forall>k \<in> set e. callable orc (fw_world s) k" and "candidates orc e hs"
    and "j < length (m_fired (fw_monitor s))" and "j \<notin> fw_hedges s"
    and "Registry_Get (oc_registry orc) (hc_ID (snd (m_fired (fw_monitor s) ! j))) = Some fn"
    and "s' = (in_world (hedge_call pick c fn req) s)\<lparr>fw_hedges := insert j (fw_hedges s)\<rparr>"
  shows "harmless orc (fw_world s) (fw_world s') \<and> (\<exists>f'. blocks_inv e hs s' f')"
proof -
  let ?w = "hedge_call pick c fn req (fw_world s)" and ?h = "snd (m_fired (fw_monitor s) ! j)"
  have w': "fw_world s' = ?w" "m_fired (fw_monitor s') = m_fired (fw_monitor s)" "fw_calls s' = fw_calls s"
    "fw_hedges s' = insert j (fw_hedges s)" "fw_resolved s' = fw_resolved s"
    "m_alreadyHedged (fw_monitor s') = m_alreadyHedged (fw_monitor s)"
    by (simp_all add: assms(7) in_world_def)
  have "?h \<in> set hs" using assms(1,4) nth_mem [OF assms(4)] unfolding blocks_inv_def by blast
  then have h: "hc_carrier ?h \<in> set e" using assms(3) by (simp add: candidates_def)
  then have "callable orc (fw_world s) (hc_carrier ?h)" using assms(2) by blast
  then have "timely_adapter fn (hc_ID ?h)" using assms(6) by (auto simp: callable_def Registry_Get_def)
  note step = hedge_call_harmless [OF this, of orc "fw_world s" pick c req]
  have w: "harmless orc (fw_world s) (fw_world s')" using step w' by simp
  have f: "fan_reachable (length e) (from_call e) (from_hedge e) f"
    "settled (length e) (fw_calls s) (length (m_fired (fw_monitor s))) (fw_hedges s) (o_results (fw_world s)) f"
    using assms(1) by (simp_all add: blocks_inv_def)
  have "\<exists>f'. fan_reachable (length e) (from_call e) (from_hedge e) f' \<and>
      settled (length e) (fw_calls s) (length (m_fired (fw_monitor s))) (insert j (fw_hedges s)) (o_results ?w) f' \<and>
      f_monitor f' = f_monitor f \<and> f_hedged f' = f_hedged f"
  proof (cases "o_results ?w = o_results (fw_world s)")
    case True
    with hedge_fails [OF f assms(4,5)] show ?thesis by simp
  next
    case False
    with step obtain r where "o_results ?w = o_results (fw_world s) @ [r]" "res_CarrierID r = hc_ID ?h" by blast
    with hedge_answers [OF f assms(4,5), of r] h show ?thesis by simp
  qed
  with assms(1,4) w show ?thesis unfolding blocks_inv_def w' marked_def by (metis insert_subset lessThan_iff)
qed

lemma event_poll:
  assumes "blocks_inv e hs s f" and "\<forall>k \<in> set e. callable orc (fw_world s) k" and "candidates orc e hs" and "\<not> fw_resolved s"
    and "distinct order" and "set order = c_ID ` set e"
    and "m = hedge_poll (w_now (fw_world s)) hs (map (\<lambda>i. (i, p i)) order) (fw_monitor s)"
    and "s' = s\<lparr>fw_monitor := m, fw_resolved := m_allResolved m\<rparr>"
  shows "harmless orc (fw_world s) (fw_world s') \<and> (\<exists>f'. blocks_inv e hs s' f')"
proof -
  have "\<forall>h \<in> set hs. hedge_parts orc (m_world (fw_monitor s)) h" using candidates_parts [OF assms(3,2)] by blast
  note step = poll_harmless [OF this assms(7)]
  have w: "harmless orc (fw_world s) (fw_world s')" using step assms(8) by simp
  have f: "fan_reachable (length e) (from_call e) (from_hedge e) f"
    "settled (length e) (fw_calls s) (length (m_fired (fw_monitor s))) (fw_hedges s) (o_results (fw_world s)) f"
    "marked e f (fw_monitor s)" "fw_hedges s \<subseteq> {..<length (m_fired (fw_monitor s))}" "f_monitor f = MSelect"
    using assms(1,4) by (auto simp: blocks_inv_def)
  from poll_steps [OF f assms(5-7)] obtain f' where f': "fan_reachable (length e) (from_call e) (from_hedge e) f'"
    "settled (length e) (fw_calls s) (length (m_fired m)) (fw_hedges s) (o_results (fw_world s)) f'" "marked e f' m"
    "fw_hedges s \<subseteq> {..<length (m_fired m)}" "f_monitor f' = MSelect \<or> f_monitor f' = MWaitHedges \<and> m_allResolved m" by blast
  have "snd ` set (m_fired m) \<subseteq> set hs" using step assms(1) unfolding blocks_inv_def by blast
  with f' step w assms(8) show ?thesis unfolding blocks_inv_def by auto
qed

lemma pause_harmless: "harmless orc w (w\<lparr>w_now := t\<rparr>)"
  by (simp add: harmless_def callable_def quoted_def)

lemma run_event_blocks:
  assumes "blocks_inv e hs s f" and "\<forall>k \<in> set e. callable orc (fw_world s) k" and "candidates orc e hs"
    and "\<forall>order. ev = Poll order \<longrightarrow> distinct order \<and> set order = c_ID ` set e"
    and "s' = run_event orc c e hs p req ev s"
  shows "(\<forall>k. callable orc (fw_world s) k \<longrightarrow> callable orc (fw_world s') k) \<and>
    o_panicked (fw_world s') = o_panicked (fw_world s) \<and> (\<exists>f'. blocks_inv e hs s' f') \<and>
    (harmless orc (fw_world s) (fw_world s') \<and> fw_calls s' = fw_calls s \<or>
     (\<exists>i. i < length e \<and> i \<notin> fw_calls s \<and> fw_calls s' = insert i (fw_calls s) \<and>
        quoted (fw_world s') = quoted (fw_world s) + {#c_ID (e ! i)#}))"
proof (cases ev)
  case (CallEnds i pick)
  show ?thesis
  proof (cases "i < length e \<and> i \<notin> fw_calls s")
    case True
    with event_call [OF assms(1,2), of i s' pick c req] CallEnds assms(5) show ?thesis by auto
  next
    case False
    with CallEnds assms(1,5) show ?thesis by auto
  qed
next
  case (Poll order)
  with event_poll [OF assms(1-3) _ _ _ refl refl, of order "\<lambda>i. the (p i)"] assms(1,4,5) show ?thesis
    by (cases "fw_resolved s") (auto simp: Let_def harmless_def)
next
  case (HedgeEnds j pick)
  show ?thesis
  proof (cases "j < length (m_fired (fw_monitor s)) \<and> j \<notin> fw_hedges s \<and>
      Registry_Get (oc_registry orc) (hc_ID (snd (m_fired (fw_monitor s) ! j))) \<noteq> None")
    case True
    then obtain fn where fn: "Registry_Get (oc_registry orc) (hc_ID (snd (m_fired (fw_monitor s) ! j))) = Some fn" by blast
    with HedgeEnds True assms(5) have s': "s' = (in_world (hedge_call pick c fn req) s)\<lparr>fw_hedges := insert j (fw_hedges s)\<rparr>"
      by simp
    then have "fw_calls s' = fw_calls s" by (simp add: in_world_def)
    with event_hedge [OF assms(1-3) _ _ fn s'] True show ?thesis by (auto simp: harmless_def)
  next
    case False
    with HedgeEnds assms(1,5) show ?thesis by (auto split: option.split)
  qed
next
  case (Pause d)
  then have "blocks_inv e hs s' f" using assms(1,5) by (simp add: in_world_def blocks_inv_def marked_def)
  moreover have "harmless orc (fw_world s) (fw_world s') \<and> fw_calls s' = fw_calls s"
    using Pause assms(5) pause_harmless by (simp add: in_world_def)
  ultimately show ?thesis by (auto simp: harmless_def)
qed

lemma run_event_inv:
  assumes "blocks_inv e hs s f" and "world_inv orc e w0 s" and "candidates orc e hs"
    and "\<forall>order. ev = Poll order \<longrightarrow> distinct order \<and> set order = c_ID ` set e"
  shows "world_inv orc e w0 (run_event orc c e hs p req ev s) \<and> (\<exists>f'. blocks_inv e hs (run_event orc c e hs p req ev s) f')"
proof -
  let ?s = "run_event orc c e hs p req ev s"
  have "\<forall>k \<in> set e. callable orc (fw_world s) k" using assms(2) by (simp add: world_inv_def)
  note step = run_event_blocks [OF assms(1) this assms(3,4) refl, of c p req]
  have "finite (fw_calls s)" using assms(2) finite_subset unfolding world_inv_def by blast
  then have "quoted (fw_world ?s) = quoted w0 + image_mset (\<lambda>i. c_ID (e ! i)) (mset_set (fw_calls ?s)) \<and> fw_calls ?s \<subseteq> {..<length e}"
    using step assms(2) by (auto simp: world_inv_def harmless_def)
  with step assms(2) show ?thesis by (simp add: world_inv_def)
qed

section \<open>The end of the fan-out\<close>

text \<open>The channel is drained.\<close>

lemma drained:
  assumes "fan_reachable n P H s" and "\<not> f_main_done s"
  shows "fan_reachable n P H (s\<lparr>f_chan := [], f_received := f_received s @ f_chan s\<rparr>)"
  using assms
proof (induction "f_chan s" arbitrary: s)
  case Nil
  then have eq: "s\<lparr>f_chan := [], f_received := f_received s @ f_chan s\<rparr> = s" by (cases s) simp
  show ?case unfolding eq by (rule Nil(2))
next
  case (Cons r rs)
  let ?s = "s\<lparr>f_chan := rs, f_received := f_received s @ [r]\<rparr>"
  have chan: "f_chan s = r # rs" using Cons(2) by (rule sym)
  then have "fan_reachable n P H ?s" by (rule reach_step [OF Cons(3) main_receives]) (rule Cons(4))
  moreover have "rs = f_chan ?s" "\<not> f_main_done ?s" using Cons(4) by simp_all
  ultimately have "fan_reachable n P H (?s\<lparr>f_chan := [], f_received := f_received ?s @ f_chan ?s\<rparr>)"
    by (intro Cons(1))
  then show ?case by (simp add: chan)
qed

text \<open>The hedges left are cancelled.\<close>

lemma hedges_cancelled:
  assumes "fan_reachable n P H f" and "settled n C m D rs f" and "k \<le> m"
  shows "\<exists>f'. fan_reachable n P H f' \<and> settled n C m (D \<union> {..<k}) rs f' \<and> f_monitor f' = f_monitor f"
  using assms(3)
proof (induction k)
  case 0
  with assms(1,2) show ?case by auto
next
  case (Suc k)
  then obtain f' where f': "fan_reachable n P H f'" "settled n C m (D \<union> {..<k}) rs f'" "f_monitor f' = f_monitor f" by auto
  have ins: "insert k (D \<union> {..<k}) = D \<union> {..<Suc k}" by (auto simp: lessThan_Suc)
  show ?case
  proof (cases "k \<in> D \<union> {..<k}")
    case True
    with ins have "D \<union> {..<Suc k} = D \<union> {..<k}" by (simp add: insert_absorb)
    with f' show ?thesis by auto
  next
    case False
    with hedge_fails [OF f'(1,2) _ False] Suc.prems f'(3) ins show ?thesis by auto
  qed
qed

lemma blocks_finish:
  assumes "fan_reachable n P H f" and "settled n C m D rs f" and "{..<n} \<subseteq> C"
    and "f_monitor f = MSelect \<or> f_monitor f = MWaitHedges"
  shows "\<exists>s. fan_reachable n P H s \<and> f_main_done s \<and> f_received s = rs \<and> \<not> f_timed_out s"
proof -
  let ?R = "fan_reachable n P H"
  obtain g where g: "?R g" "settled n C m (D \<union> {..<m}) rs g" "f_monitor g = f_monitor f"
    using hedges_cancelled [OF assms(1,2) order_refl] by blast
  let ?s1 = "g\<lparr>f_closer := CCancel, f_ctx_done := True\<rparr>"
  let ?s2 = "?s1\<lparr>f_closer := CWaitMonitor, f_hedge_cancelled := True\<rparr>"
  let ?s3 = "?s2\<lparr>f_monitor := MWaitHedges\<rparr>"
  let ?s4 = "?s3\<lparr>f_monitor := MDone\<rparr>"
  let ?s5 = "?s4\<lparr>f_closer := CClose\<rparr>"
  let ?s6 = "?s5\<lparr>f_closer := CDone, f_closed := True\<rparr>"
  let ?s7 = "?s6\<lparr>f_chan := [], f_received := f_received ?s6 @ f_chan ?s6\<rparr>"
  let ?s8 = "?s7\<lparr>f_main_done := True\<rparr>"
  note d = settled_def
  have r1: "?R ?s1" by (rule reach_step [OF g(1) closer_waited]) (use g(2) ended_all [OF assms(3)] in \<open>simp_all add: d\<close>)
  have r2: "?R ?s2" by (rule reach_step [OF r1 closer_cancels]) simp
  have r3: "?R ?s3"
  proof (cases "f_monitor g = MSelect")
    case True
    show ?thesis by (rule reach_step [OF r2 monitor_stops]) (simp_all add: True hedge_ctx_done_def)
  next
    case False
    with assms(4) g(3) have "?s3 = ?s2" by (cases g) auto
    with r2 show ?thesis by simp
  qed
  have r4: "?R ?s4"
    by (rule reach_step [OF r3 monitor_exits]) (use g(2) ended_all [of m "D \<union> {..<m}"] in \<open>simp_all add: d\<close>)
  have r5: "?R ?s5" by (rule reach_step [OF r4 closer_joins]) simp_all
  have r6: "?R ?s6" by (rule reach_step [OF r5 closer_closes]) simp
  have r7: "?R ?s7" by (rule drained [OF r6]) (use g(2) in \<open>simp add: d\<close>)
  have r8: "?R ?s8" by (rule reach_step [OF r7 main_ends]) (use g(2) in \<open>simp_all add: d\<close>)
  then show ?thesis by (intro exI [of _ ?s8]) (use g(2) in \<open>simp add: d\<close>)
qed

section \<open>Whole schedules\<close>

lemma run_events_inv:
  assumes "candidates orc e hs" and "\<forall>order. Poll order \<in> set evs \<longrightarrow> distinct order \<and> set order = c_ID ` set e"
    and "blocks_inv e hs s f" and "world_inv orc e w0 s"
  shows "world_inv orc e w0 (fold (run_event orc c e hs p req) evs s) \<and>
    (\<exists>f'. blocks_inv e hs (fold (run_event orc c e hs p req) evs s) f')"
  using assms(2-4)
proof (induction evs arbitrary: s f)
  case (Cons ev evs)
  from run_event_inv [OF Cons.prems(2,3) assms(1), of ev c p req] Cons.prems(1)
  obtain f' where "world_inv orc e w0 (run_event orc c e hs p req ev s)" "blocks_inv e hs (run_event orc c e hs p req ev s) f'"
    by auto
  with Cons.IH Cons.prems(1) show ?case by simp
qed auto

lemma run_event_calls: "fw_calls s \<subseteq> fw_calls (run_event orc c e hs p req ev s)"
  by (cases ev) (auto simp: in_world_def Let_def split: option.split)

lemma run_events_keep: "fw_calls s \<subseteq> fw_calls (fold (run_event orc c e hs p req) evs s)"
proof (induction evs arbitrary: s)
  case (Cons ev evs)
  show ?case using order_trans [OF run_event_calls Cons.IH] by simp
qed simp

lemma run_events_calls:
  assumes "CallEnds i pick \<in> set evs" and "i < length e"
  shows "i \<in> fw_calls (fold (run_event orc c e hs p req) evs s)"
proof -
  from assms(1) obtain xs ys where evs: "evs = xs @ CallEnds i pick # ys" by (meson split_list)
  let ?t = "fold (run_event orc c e hs p req) xs s"
  have "i \<in> fw_calls (run_event orc c e hs p req (CallEnds i pick) ?t)" using assms(2) by simp
  then show ?thesis unfolding evs fold_append fold_simps comp_apply by (rule subsetD [OF run_events_keep])
qed

lemma fan_world_init_inv:
  assumes "\<forall>k \<in> set e. callable orc w k" and "o_results w = []"
  shows "blocks_inv e hs (fan_world_init w) (fan_init (length e)) \<and> world_inv orc e w (fan_world_init w)"
  using assms reach_start
  by (auto simp: blocks_inv_def world_inv_def fan_world_init_def monitor_init_def settled_def fan_init_def ended_def marked_def
      map_replicate_const)

lemma schedule_phase:
  assumes "\<forall>k \<in> set e. callable orc w k" and "o_results w = []" and "candidates orc e hs" and "complete e sched"
  shows "\<exists>s. phase e (run_schedule orc sched c e hs p req w) s \<and> \<not> f_timed_out s"
    and "o_panicked (run_schedule orc sched c e hs p req w) = o_panicked w"
    and "quoted (run_schedule orc sched c e hs p req w) = quoted w + mset (map c_ID e)"
proof -
  let ?s = "fold (run_event orc c e hs p req) sched (fan_world_init w)"
  note i = fan_world_init_inv [OF assms(1,2), of hs]
  have polls: "\<forall>order. Poll order \<in> set sched \<longrightarrow> distinct order \<and> set order = c_ID ` set e"
    using assms(4) by (simp add: complete_def)
  from run_events_inv [OF assms(3) polls conjunct1 [OF i] conjunct2 [OF i], of c p req]
  obtain f where w: "world_inv orc e w ?s" and f: "blocks_inv e hs ?s f" by blast
  have "{..<length e} \<subseteq> fw_calls ?s"
  proof
    fix i assume "i \<in> {..<length e}"
    then have i: "i < length e" by simp
    with assms(4) obtain pick where "CallEnds i pick \<in> set sched" by (auto simp: complete_def)
    then show "i \<in> fw_calls ?s" by (rule run_events_calls [OF _ i])
  qed
  with w have calls: "fw_calls ?s = {..<length e}" by (auto simp: world_inv_def)
  from f have b: "fan_reachable (length e) (from_call e) (from_hedge e) f"
    "settled (length e) (fw_calls ?s) (length (m_fired (fw_monitor ?s))) (fw_hedges ?s) (o_results (fw_world ?s)) f"
    "f_monitor f = MSelect \<or> f_monitor f = MWaitHedges" by (auto simp: blocks_inv_def)
  from blocks_finish [OF b(1,2) _ b(3)] calls
  show "\<exists>s. phase e (run_schedule orc sched c e hs p req w) s \<and> \<not> f_timed_out s"
    by (auto simp: phase_def run_schedule_def)
  show "o_panicked (run_schedule orc sched c e hs p req w) = o_panicked w"
    using w by (simp add: world_inv_def run_schedule_def)
  have "image_mset (\<lambda>i. c_ID (e ! i)) (mset [0..<length e]) = mset (map (\<lambda>i. c_ID (e ! i)) [0..<length e])"
    by (simp only: mset_map)
  moreover have "map (\<lambda>i. c_ID (e ! i)) [0..<length e] = map c_ID e" by (rule nth_equalityI) simp_all
  moreover have "mset_set {..<length e} = mset [0..<length e]" by (metis atLeast_upt mset_set_set distinct_upt)
  ultimately have "image_mset (\<lambda>i. c_ID (e ! i)) (mset_set {..<length e}) = mset (map c_ID e)" by metis
  with w calls show "quoted (run_schedule orc sched c e hs p req w) = quoted w + mset (map c_ID e)"
    by (simp add: world_inv_def run_schedule_def)
qed

text \<open>The candidates that \<open>fanOut\<close> builds are of this kind.\<close>

lemma build_hedgeable_candidates:
  "build_hedgeable orc w e = Some hs \<Longrightarrow> candidates orc e hs"
proof (induction e arbitrary: hs)
  case (Cons k e)
  then show ?case by (fastforce simp: candidates_def split: option.splits)
qed (simp add: candidates_def)

text \<open>The schedule in which the calls end in the configured order and no poll happens.\<close>

lemma calls_complete: "complete e (map (\<lambda>i. CallEnds i pick) [0..<length e])"
  unfolding complete_def by (intro conjI allI impI exI [of _ pick]) auto

end
