(* ===== verification/RF_Deadline.thy ===== *)
theory RF_Deadline
  imports RF_Schedule RF_HTTP_Carrier
begin

text \<open>
  The deadline of a fan-out. \<open>fanOut\<close> gives every carrier call and every hedge a context that ends
  \<open>req.Timeout\<close> after the start. The simulated carriers and the HTTP client return by the deadline of
  their context (\<open>timely_adapter\<close>), and so does \<open>Wait\<close> of the rate limiter, as documented
  (\<open>wait_heeds\<close>); here this carries over to the calls and to a whole fan-out.
\<close>

definition wait_heeds :: "'l rate_wait \<Rightarrow> bool" where
  "wait_heeds rwait \<longleftrightarrow> (\<forall>c t l d. ctx_done_at c = Some d \<longrightarrow> t \<le> d \<longrightarrow> t + int (fst (snd (rwait c t l))) \<le> d)"

lemma Wait_limiter_by_deadline:
  assumes "wait_heeds rwait" and "Wait_limiter rwait c l (w :: 'l orch) = (r, l', w1)"
    and "ctx_done_at c = Some d" and "w_now w \<le> d"
  shows "w_now w1 \<le> d"
proof -
  obtain e t inner where i: "rwait c (w_now w) (l_inner l) = (e, t, inner)" by (metis prod_cases3)
  with assms(1,3,4) have "w_now w + int t \<le> d" unfolding wait_heeds_def by (metis fst_conv snd_conv)
  with i assms(2) show ?thesis by (auto simp: Wait_limiter_def split: option.splits if_splits)
qed

lemma guarded_exec_now: "w_now (snd (guarded_exec f c i req start pick w)) = w_now (snd (f c req w))"
  by (cases "f c req w")
    (auto simp: guarded_exec_def Record_def Let_def split: sum.split option.split prod.split)

lemma hedge_call_now: "w_now (hedge_call pick c f req w) = w_now (snd (f c req w))"
  by (cases "f c req w") (auto simp: hedge_call_def split: sum.split)

lemma callCarrier_by_deadline:
  assumes "wait_heeds (oc_wait orc)" and "callable orc w k" and "ctx_done_at c = Some d" and "w_now w \<le> d"
  shows "w_now (callCarrier orc pick c k req w) \<le> d"
proof -
  let ?i = "c_ID k"
  from assms(2) obtain f l b where f: "oc_registry orc ?i = Some f" "timely_adapter f ?i"
    and l: "o_limiters w ?i = Some l" and b: "o_breakers w ?i = Some b" "breaker_inv b"
    unfolding callable_def by auto
  obtain r l' w1 where wait: "Wait_limiter (oc_wait orc) c l w = (r, l', w1)" by (metis prod_cases3)
  note w1 = Wait_limiter_by_deadline [OF assms(1) wait assms(3,4)]
  show ?thesis
  proof (cases r)
    case (Some err)
    from callCarrier_limited [where pick = pick and req = req, OF f(1) l wait [unfolded Some]] w1 show ?thesis by simp
  next
    case None
    define w2 where "w2 = w1\<lparr>o_limiters := (o_limiters w1)(?i \<mapsto> l')\<rparr>"
    have w2: "w_now w2 \<le> d" "o_breakers w2 ?i = Some b"
      using w1 Wait_limiter_orch [OF wait] b(1) by (simp_all add: w2_def)
    let ?fn = "guarded_exec f c ?i req (w_now w2) pick" and ?w = "call_world b w2"
    obtain e b' w3 where ex: "Execute b ?fn w2 = (e, b', w3)" by (metis prod_cases3)
    have "w_now ?w = w_now w2" using same_but_metrics_orch [OF same_but_metrics_call_world [of w2 b]] by simp
    then have "w_now (snd (?fn ?w)) \<le> d"
      unfolding guarded_exec_now using timely_adapter.heeds_deadline [OF f(2) assms(3)] w2(1) by simp
    moreover have "same_but_metrics (snd (?fn ?w)) w3 \<or> w3 = w2" using cb.run_or_refuse [OF b(2) ex] by blast
    ultimately have "w_now w3 \<le> d" using w2(1) same_but_metrics_orch by metis
    with callCarrier_admitted [where req = req, OF f(1) l wait [unfolded None] w2_def w2(2) ex refl] show ?thesis
      by (simp split: option.split)
  qed
qed

text \<open>A schedule without pauses: only the calls and the hedges take time.\<close>

lemma run_event_by_deadline:
  assumes "wait_heeds (oc_wait orc)" and "blocks_inv e hs s f" and "world_inv orc e w0 s" and "candidates orc e hs"
    and "\<forall>d. ev \<noteq> Pause d" and "ctx_done_at c = Some d" and "w_now (fw_world s) \<le> d"
  shows "w_now (fw_world (run_event orc c e hs p req ev s)) \<le> d"
proof (cases ev)
  case (CallEnds i pick)
  have "i < length e \<Longrightarrow> callable orc (fw_world s) (e ! i)" using assms(3) by (simp add: world_inv_def)
  with CallEnds callCarrier_by_deadline [OF assms(1) _ assms(6,7)] assms(7) show ?thesis by (simp add: in_world_def)
next
  case (Poll order)
  have "\<forall>k \<in> set e. callable orc (fw_world s) k" using assms(3) by (simp add: world_inv_def)
  then have "\<forall>h \<in> set hs. hedge_parts orc (fw_world s) h" using candidates_parts [OF assms(4)] by blast
  from poll_harmless [OF this refl] Poll assms(7) show ?thesis by (simp add: Let_def)
next
  case (HedgeEnds j pick)
  let ?h = "snd (m_fired (fw_monitor s) ! j)"
  have "timely_adapter fn (hc_ID ?h)"
    if "j < length (m_fired (fw_monitor s))" "Registry_Get (oc_registry orc) (hc_ID ?h) = Some fn" for fn
  proof -
    have "?h \<in> set hs" using assms(2) nth_mem [OF that(1)] unfolding blocks_inv_def by blast
    with assms(3,4) have "callable orc (fw_world s) (hc_carrier ?h)" by (simp add: candidates_def world_inv_def)
    with that(2) show ?thesis by (auto simp: callable_def Registry_Get_def)
  qed
  with HedgeEnds timely_adapter.heeds_deadline [OF _ assms(6,7)] assms(7) show ?thesis
    by (auto simp: in_world_def hedge_call_now split: option.split)
qed (use assms(5) in simp)

lemma run_events_by_deadline:
  assumes "wait_heeds (oc_wait orc)" and "candidates orc e hs"
    and "\<forall>order. Poll order \<in> set evs \<longrightarrow> distinct order \<and> set order = c_ID ` set e" and "\<forall>d. Pause d \<notin> set evs"
    and "blocks_inv e hs s f" and "world_inv orc e w0 s" and "ctx_done_at c = Some d" and "w_now (fw_world s) \<le> d"
  shows "w_now (fw_world (fold (run_event orc c e hs p req) evs s)) \<le> d"
  using assms(3-6,8)
proof (induction evs arbitrary: s f)
  case (Cons ev evs)
  from run_event_inv [OF Cons.prems(3,4) assms(2), of ev c p req] Cons.prems(1)
  obtain f' where f': "world_inv orc e w0 (run_event orc c e hs p req ev s)" "blocks_inv e hs (run_event orc c e hs p req ev s) f'"
    by auto
  have "\<forall>d. ev \<noteq> Pause d" using Cons.prems(2) by auto
  from run_event_by_deadline [OF assms(1) Cons.prems(3,4) assms(2) this assms(7) Cons.prems(5)]
  have "w_now (fw_world (run_event orc c e hs p req ev s)) \<le> d" .
  with Cons.IH [OF _ _ f'(2,1)] Cons.prems(1,2) show ?case by simp
qed simp

lemma fanOut_by_deadline:
  assumes "wait_heeds (oc_wait orc)" and "\<forall>k \<in> set e. callable orc w k" and "wired orc w"
    and "e = filterEligibleCarriers (oc_carriers orc) (o_breakers w) (req_CoverageLines q)" and "0 \<le> request_timeout q"
    and "complete e sched" and "\<forall>d. Pause d \<notin> set sched"
    and "w' = fst (snd (fanOut orc None (run_schedule orc sched) Background q (w, x)))"
  shows "w_now w' \<le> w_now w + request_timeout q"
proof (cases "e = []")
  case True
  with assms(4,5,8) show ?thesis by (simp add: fanOut_def Let_def)
next
  case False
  let ?run = "run_schedule orc sched" and ?c = "WithTimeout Background (w_now w) (request_timeout q)" and ?w = "w\<lparr>o_results := []\<rparr>"
  obtain hs p w1 where hs: "build_hedgeable orc w e = Some hs" and w1: "w1 = ?run ?c e hs p q ?w"
    and f: "fanOut orc None ?run Background q (w, x) = (Inr (sort_results (collect (o_results w1))),
       (emit (RecordFanOutDuration (time_sub (w_now w1) (w_now w))) w1,
        save_collected None q (sort_results (collect (o_results w1))) (w_now w1) x))"
    by (rule fanOut_wired [OF assms(3,4) False])
  have d: "ctx_done_at ?c = Some (w_now w + request_timeout q)" by (simp add: WithTimeout_def Background_def)
  have call: "\<forall>k \<in> set e. callable orc ?w k" using assms(2) by (simp add: callable_def)
  have polls: "\<forall>order. Poll order \<in> set sched \<longrightarrow> distinct order \<and> set order = c_ID ` set e"
    using assms(6) by (simp add: complete_def)
  have now: "w_now (fw_world (fan_world_init ?w)) \<le> w_now w + request_timeout q"
    using assms(5) by (simp add: fan_world_init_def monitor_init_def)
  have "o_results ?w = []" by simp
  note i = fan_world_init_inv [OF call this, of hs]
  from run_events_by_deadline [OF assms(1) build_hedgeable_candidates [OF hs] polls assms(7) conjunct1 [OF i] conjunct2 [OF i] d now, of p q]
  have "w_now w1 \<le> w_now w + request_timeout q" by (simp add: w1 run_schedule_def)
  with f assms(8) show ?thesis by simp
qed

section \<open>Properties\<close>



end
