(* ===== verification/RF_Service.thy ===== *)
theory RF_Service
  imports RF_Wiring RF_Deadline
begin

text \<open>
  The service \<open>Run\<close> of \<open>internal/cli/run.go\<close> serves: the middleware and the routes of \<open>RF_Server\<close>
  over the orchestrator of \<open>RF_GetQuotes\<close>, and the property that spans them.
\<close>

section \<open>The service\<close>

text \<open>The handler over the orchestrator, as \<open>Run\<close> builds it: no database for the readiness probe.\<close>

definition service_env ::
  "(string \<Rightarrow> decoded) \<Rightarrow> (string \<Rightarrow> string) \<Rightarrow> 'l Orchestrator \<Rightarrow> 'r repo_ops option \<Rightarrow> 'l fan_run_fn \<Rightarrow>
     ('l, 'r) flight \<Rightarrow> ctx \<Rightarrow> ('l, 'r) gateway handler_env" where
  "service_env decode quote orc repo run sf c =
     \<lparr>he_decode = decode, he_quote = quote, he_now = (\<lambda>g. w_now (fst g)),
      he_orch = GetQuotes orc repo run sf c, he_ping = None\<rparr>"

lemma service_env_is_New:
  "New_handler decode quote (\<lambda>g. w_now (fst g)) \<lparr>hcf_Orch = Some (GetQuotes orc repo run sf c), hcf_Log = True, hcf_DB = None\<rparr> =
   Inr (service_env decode quote orc repo run sf c)"
  by (simp add: New_handler_def service_env_def)

definition service ::
  "'b bucket_ops \<Rightarrow> string list \<Rightarrow> ('l, 'r) gateway handler_env \<Rightarrow> (('l, 'r) gateway, 'b) server handler" where
  "service ops apiKeys h = server_handler ops (\<lambda>g. w_now (fst g)) apiKeys h"

text \<open>
  The orchestrator keeps its side of the port: with one caller at a time \<open>GetQuotes\<close> never returns an
  error (a nil pointer would set \<open>o_panicked\<close>, but not on a wired gateway), so neither the 504 nor the
  500 of \<open>handleOrchError\<close> is ever sent.
\<close>

lemma fanOut_answers_always: "\<exists>out. fst (fanOut orc repo run c q g) = Inr out"
  by (cases g) (auto simp: fanOut_def Let_def split: option.split)

lemma GetQuotes_answers_always: "\<exists>out. fst (GetQuotes orc repo run solo_flight c q g) = Inr out"
proof -
  let ?fn = "fanOut orc repo run (WithoutCancel c) q"
  obtain v g' where "?fn g = (Inr v, g')" using fanOut_answers_always by (metis prod.collapse)
  then have sf: "solo_flight (scopedKey q) ?fn g = ((Inr v, False), g')" by (simp add: solo_flight_def)
  show ?thesis
    using fanOut_answers_always [of orc repo run c q g]
    by (auto simp: GetQuotes_def Let_def sf split: sum.split prod.split bool.split)
qed

interpretation quotes_port: orchestrator_port "GetQuotes orc repo run solo_flight c" for orc repo run c
  by unfold_locales (rule GetQuotes_answers_always)

lemma post_quotes_never_5xx:
  "rs_Status (fst (handlePostQuotes (service_env decode quote orc repo run solo_flight c) r hs s)) \<in> {200, 400, 422}"
  by (rule quotes_port.no_server_error) (simp add: service_env_def)

section \<open>A request through all layers\<close>

text \<open>
  An authenticated POST of a valid body, at a moment when its address has budget left and a slot is
  free, on a wired gateway without a repository and with no flight for its key, for any schedule of the
  fan-out: it is answered 200 with the quotes, or 422 if there are none.
\<close>

lemma service_answers:
  assumes "rq_Method r = ''POST''" and "rq_Path r = ''/quotes''" and "presents keys r k"
    and "isExhausted ops (remote_ip (rq_RemoteAddr r)) (w_now w) (sv_limiter s) = (False, l)"
    and "sv_sem s < 100" and "wb_gateway s = (w, x)" and "wired orc w"
    and "decode (rq_Body r) = Decoded req" and "request_ok req"
    and "q = (buildDomainRequest req)\<lparr>req_ClientID := key_id k\<rparr>" and "leads sf (scopedKey q)"
    and "e = filterEligibleCarriers (oc_carriers orc) (o_breakers w) (qr_CoverageLines req)"
    and "\<forall>hs p. build_hedgeable orc w e = Some hs \<longrightarrow> build_pending w e Map.empty = Some p \<longrightarrow>
      phase e (run (WithTimeout Background (w_now w) (req_Timeout q)) e hs p q (w\<lparr>o_results := []\<rparr>)) fan"
  shows "\<exists>out resp s'. service ops keys (service_env decode quote orc None run sf c) r hs s = (resp, s') \<and>
    secured (rs_Headers resp) \<and> sv_sem s' = sv_sem s \<and>
    answered req (Inr out) resp \<and> sorted_wrt (\<lambda>a b. cmp_results a b < 0) out \<and>
    distinct (map res_CarrierID out) \<and> res_CarrierID ` set out \<subseteq> c_ID ` set e \<and>
    (e = [] \<or> f_timed_out fan \<or> res_CarrierID ` set (f_answered fan) \<subseteq> res_CarrierID ` set out) \<and>
    wb_gateway s' = snd (fanOut orc None run Background q (w, x))"
proof -
  let ?h = "service_env decode quote orc None run sf c"
  let ?r = "r\<lparr>rq_ClientID := Some (key_id k)\<rparr>" and ?s = "s\<lparr>sv_limiter := l, sv_sem := sv_sem s + 1\<rparr>"
  obtain resp s' where run: "service ops keys ?h r hs s = (resp, s')" by fastforce
  have p: "rq_Path r \<notin> set skipPaths" using assms(2) by (simp add: skipPaths_def)
  obtain hs' where "resp = fst (RegisterRoutes ?h ?r hs' ?s)" "wb_gateway s' = wb_gateway (snd (RegisterRoutes ?h ?r hs' ?s))"
    using server_admits [OF p assms(3), of ops "\<lambda>g. w_now (fst g)" s l ?h hs] assms(4-6) run
    by (auto simp: service_def Let_def)
  then have resp: "resp = fst (handlePostQuotes ?h ?r hs' ?s)" "wb_gateway s' = wb_gateway (snd (handlePostQuotes ?h ?r hs' ?s))"
    using assms(1,2) by (simp_all add: RegisterRoutes_def)
  have t: "req_RequestID q \<noteq> []" "req_CoverageLines q = qr_CoverageLines req" "request_timeout q = req_Timeout q"
    using assms(9,10) buildDomainRequest_timeout [OF assms(9)]
    by (auto simp: buildDomainRequest_def request_ok_def request_timeout_def Let_def Second_def Millisecond_def)
  have gq: "GetQuotes orc None run sf c q (w, x) = fanOut orc None run Background q (w, x)"
    using GetQuotes_miss [OF assms(11), of None c w x orc run] t(1) by (simp add: WithoutCancel_def)
  obtain out where o: "GetQuotes orc None run sf c q (w, x) = (Inr out, snd (fanOut orc None run Background q (w, x)))"
    "sorted_wrt (\<lambda>a b. cmp_results a b < 0) out" "distinct (map res_CarrierID out)"
    "res_CarrierID ` set out \<subseteq> c_ID ` set e"
    "e = [] \<or> f_timed_out fan \<or> res_CarrierID ` set (f_answered fan) \<subseteq> res_CarrierID ` set out"
  proof (cases "e = []")
    case True
    with assms(12) t(2) gq that [of "[]"] show ?thesis by (simp add: fanOut_def Let_def)
  next
    case False
    from fanOut_answers [where c = Background and repo = None and r = x, OF assms(7) _ False, of q run fan] assms(12,13) t
    show ?thesis using that gq by (metis prod.collapse)
  qed
  have "answered req (Inr out) resp \<and> wb_gateway s' = snd (fanOut orc None run Background q (w, x))"
    using handlePostQuotes_valid [where h = ?h and r = ?r and s = ?s and hs = hs', OF _ assms(9)] o(1) assms(6,8,10)
    by (simp add: service_env_def ClientIDFromContext_def resp)
  moreover have "secured (rs_Headers resp)" "sv_sem s' = sv_sem s"
    using server_tidy [of ops "\<lambda>g. w_now (fst g)" keys ?h r hs s] run by (simp_all add: service_def)
  ultimately show ?thesis using run o by blast
qed

text \<open>The server as it is when \<open>Run\<close> starts to listen, over a gateway.\<close>

definition fresh_server :: "'b bucket_ops \<Rightarrow> 'g \<Rightarrow> ('g, 'b) server" where
  "fresh_server ops g = \<lparr>wb_log = [], wb_gateway = g, sv_limiter = newAuthFailureLimiter ops, sv_sem = 0, sv_audit = []\<rparr>"

lemma fresh_not_exhausted:
  assumes "failure_bucket ops valid"
  obtains l where "isExhausted ops ip t (newAuthFailureLimiter ops) = (False, l)"
proof -
  obtain e l where i: "isExhausted ops ip t (newAuthFailureLimiter ops) = (e, l)" by fastforce
  with isExhausted_budget [OF assms new_budgets [THEN conjunct1] i] new_budgets [of ops valid t ip] have "\<not> e" by simp
  with i that show ?thesis by simp
qed

lemma ready_callable:
  "ready (oc_registry orc) w (c_ID k) \<Longrightarrow> callable orc w k \<and> \<not> breaker_open (o_breakers w) k"
  by (auto simp: ready_def callable_def breaker_open_def)

text \<open>What a fan-out with a complete schedule leaves in the world.\<close>

lemma fanOut_schedule_accounts:
  assumes "\<forall>k \<in> set e. callable orc w k" and "wired orc w"
    and "e = filterEligibleCarriers (oc_carriers orc) (o_breakers w) (req_CoverageLines q)"
    and "quoted w = {#}" and "\<not> o_panicked w" and "complete e sched"
    and "w' = fst (snd (fanOut orc None (run_schedule orc sched) c q (w, x)))"
  shows "\<not> o_panicked w' \<and> quoted w' = mset (map c_ID e)"
proof (cases "e = []")
  case True
  with assms(3-7) show ?thesis by (simp add: fanOut_def Let_def quoted_def)
next
  case False
  let ?run = "run_schedule orc sched" and ?w = "w\<lparr>o_results := []\<rparr>"
  obtain hs p w1 where hs: "build_hedgeable orc w e = Some hs"
    and w1: "w1 = ?run (WithTimeout c (w_now w) (request_timeout q)) e hs p q ?w"
    and f: "fanOut orc None ?run c q (w, x) = (Inr (sort_results (collect (o_results w1))),
       (emit (RecordFanOutDuration (time_sub (w_now w1) (w_now w))) w1,
        save_collected None q (sort_results (collect (o_results w1))) (w_now w1) x))"
    by (rule fanOut_wired [OF assms(2,3) False])
  have call: "\<forall>k \<in> set e. callable orc ?w k" using assms(1) by simp
  have "o_results ?w = []" by simp
  from schedule_phase(2,3) [OF call this build_hedgeable_candidates [OF hs] assms(6), of _ p q] w1
  have "o_panicked w1 = o_panicked w" "quoted w1 = quoted w + mset (map c_ID e)" by (simp_all add: quoted_def)
  with f assms(4,5,7) show ?thesis by (simp add: quoted_def)
qed

text \<open>The first request after a start, down to the fan-out that answers it.\<close>

lemma first_request:
  assumes "Run_setup rwait allow newLimiter draw now getenv spanner = Inr sv"
    and "\<And>dbCarriers. spanner = Inr (Inr dbCarriers) \<Longrightarrow> list_all plausible dbCarriers"
    and "failure_bucket ops valid"
    and "rq_Method r = ''POST''" and "rq_Path r = ''/quotes''" and "presents (sr_apiKeys sv) r key"
    and "decode (rq_Body r) = Decoded req" and "request_ok req"
    and "e = filter (\<lambda>k. set (c_Capabilities k) \<inter> set (qr_CoverageLines req) \<noteq> {}) (oc_carriers (sr_orch sv))"
    and "q = (buildDomainRequest req)\<lparr>req_ClientID := key_id key\<rparr>" and "complete e sched"
  obtains out resp s' where "service ops (sr_apiKeys sv)
      (service_env decode quote (sr_orch sv) None (run_schedule (sr_orch sv) sched) solo_flight c) r hs
      (fresh_server ops (sr_world sv, x)) = (resp, s')"
    and "secured (rs_Headers resp)" and "sv_sem s' = 0" and "answered req (Inr out) resp"
    and "sorted_wrt (\<lambda>a b. cmp_results a b < 0) out" and "res_CarrierID ` set out \<subseteq> c_ID ` set e"
    and "wb_gateway s' = snd (fanOut (sr_orch sv) None (run_schedule (sr_orch sv) sched) Background q (sr_world sv, x))"
    and "\<forall>k \<in> set e. callable (sr_orch sv) (sr_world sv) k"
    and "e = filterEligibleCarriers (oc_carriers (sr_orch sv)) (o_breakers (sr_world sv)) (req_CoverageLines q)"
proof -
  let ?orc = "sr_orch sv" and ?w = "sr_world sv" and ?run = "run_schedule (sr_orch sv) sched"
  have lines: "req_CoverageLines q = qr_CoverageLines req" by (simp add: assms(10) buildDomainRequest_def Let_def)
  note up = startup_facts [OF assms(1,2)]
  have rd: "callable ?orc ?w k \<and> \<not> breaker_open (o_breakers ?w) k" if "k \<in> set (oc_carriers ?orc)" for k
    using ready_callable [of ?orc ?w k] up that by blast
  have e: "e = filterEligibleCarriers (oc_carriers ?orc) (o_breakers ?w) (qr_CoverageLines req)"
    using rd unfolding assms(9) filterEligibleCarriers_eq by (intro filter_cong) auto
  have call: "\<forall>k \<in> set e. callable ?orc ?w k" using rd assms(9) by simp
  let ?s = "fresh_server ops (?w, x)"
  obtain l where l: "isExhausted ops (remote_ip (rq_RemoteAddr r)) (w_now ?w) (sv_limiter ?s) = (False, l)"
    using fresh_not_exhausted [OF assms(3)] by (simp add: fresh_server_def) metis
  have s: "sv_sem ?s < 100" "wb_gateway ?s = (?w, x)" "wired ?orc ?w" using up by (simp_all add: fresh_server_def)
  obtain hs0 p0 where b: "build_hedgeable ?orc ?w e = Some hs0" "build_pending ?w e Map.empty = Some p0"
    using wired_eligible [OF s(3)] e by metis
  have call0: "\<forall>k \<in> set e. callable ?orc (?w\<lparr>o_results := []\<rparr>) k" and "o_results (?w\<lparr>o_results := []\<rparr>) = []"
    using call by simp_all
  from schedule_phase(1) [OF this build_hedgeable_candidates [OF b(1)] assms(11)]
  obtain fan where "phase e (?run (WithTimeout Background (w_now ?w) (req_Timeout q)) e hs0 p0 q (?w\<lparr>o_results := []\<rparr>)) fan"
    by blast
  with b have "\<forall>hs p. build_hedgeable ?orc ?w e = Some hs \<longrightarrow> build_pending ?w e Map.empty = Some p \<longrightarrow>
      phase e (?run (WithTimeout Background (w_now ?w) (req_Timeout q)) e hs p q (?w\<lparr>o_results := []\<rparr>)) fan"
    by simp
  from service_answers [where ops = ops and keys = "sr_apiKeys sv" and decode = decode and quote = quote and c = c and
      hs = hs and orc = ?orc and run = ?run and sf = solo_flight and w = ?w and s = ?s and q = q and e = e and fan = fan,
      OF assms(4-6) l s assms(7,8,10) leads_solo_flight e this]
  obtain out resp s' where "service ops (sr_apiKeys sv) (service_env decode quote ?orc None ?run solo_flight c) r hs ?s
      = (resp, s')" "secured (rs_Headers resp)" "sv_sem s' = sv_sem ?s" "answered req (Inr out) resp"
      "sorted_wrt (\<lambda>a b. cmp_results a b < 0) out" "res_CarrierID ` set out \<subseteq> c_ID ` set e"
      "wb_gateway s' = snd (fanOut ?orc None ?run Background q (?w, x))"
    by (elim exE conjE) (rule that; assumption)
  moreover have "sv_sem ?s = 0" by (simp add: fresh_server_def)
  ultimately show ?thesis using that call e lines by simp
qed

text \<open>A start without Spanner, and a request with one of its keys.\<close>

lemma example_start:
  obtains sv :: "unit service" where
    "Run_setup (\<lambda>c t l. (None, 0, l)) (\<lambda>t l. (True, l)) (\<lambda>r b. ()) (\<lambda>i w. draws_example) 0 env_example
       (Inl ErrCarrierUnavailable) = Inr sv"
    "presents (sr_apiKeys sv) (auth_req_example ''Bearer key-one'') ''key-one''" "oc_carriers (sr_orch sv) = buildCarriers"
proof -
  have c: "choose_carriers env_example (Inl ErrCarrierUnavailable) = Inr (buildCarriers, False)"
    by (simp add: choose_carriers_def spanner_configured_def env_example_def)
  obtain registry and w :: "unit orch" where
    "wire_loop (\<lambda>r b. ()) (\<lambda>i w. draws_example) buildCarriers (NewRegistry, start_world 0) = (registry, w)"
    by fastforce
  then show ?thesis
    using that by (simp add: Run_setup_def Let_def env_example_keys c wire_orchestrator_def New_orchestrator_def
        presents_def auth_req_example_def)
qed

text \<open>Its fan-out asks two carriers; here the monitor polls before and between their calls.\<close>

lemma example_carriers:
  "filter (\<lambda>k. set (c_Capabilities k) \<inter> set (qr_CoverageLines quoteRequest_example) \<noteq> {}) buildCarriers = take 2 buildCarriers"
  by (simp add: buildCarriers_def quoteRequest_example_def CoverageLineAuto_def CoverageLineHomeowners_def CoverageLineUmbrella_def)

definition sched_example :: "fan_event list" where
  "sched_example = [Poll [''beta'', ''alpha''], CallEnds 1 True, HedgeEnds 0 True, Poll [''alpha'', ''beta''], CallEnds 0 False]"

lemma sched_example_complete: "complete (take 2 buildCarriers) sched_example"
  by (auto simp: complete_def sched_example_def buildCarriers_def less_Suc_eq)

lemma example_post:
  "rq_Method (auth_req_example a) = ''POST''" "rq_Path (auth_req_example a) = ''/quotes''"
  by (simp_all add: auth_req_example_def)

text \<open>With carriers from Spanner every request is answered 422, since none has a capability.\<close>

lemma spanner_carriers_answer_422:
  assumes "Run_setup rwait allow newLimiter draw now getenv (Inr (ListActive decodeConfig None rows)) = Inr sv"
    and "spanner_configured getenv" and "\<exists>row \<in> set rows. cw_IsActive row"
    and "list_all plausible (map (carrier_of_row decodeConfig) rows)" and "failure_bucket ops valid"
    and "rq_Method r = ''POST''" and "rq_Path r = ''/quotes''" and "presents (sr_apiKeys sv) r key"
    and "decode (rq_Body r) = Decoded req" and "request_ok req"
  shows "rs_Status (fst (service ops (sr_apiKeys sv)
      (service_env decode quote (sr_orch sv) None (run_schedule (sr_orch sv) []) solo_flight c) r hs
      (fresh_server ops (sr_world sv, x)))) = 422"
proof -
  let ?cs = "map (carrier_of_row decodeConfig) (take 10000 (filter cw_IsActive rows))"
  have "length ?cs \<noteq> 0" using assms(3) by (auto simp: filter_empty_conv)
  with assms(2) have "choose_carriers getenv (Inr (ListActive decodeConfig None rows)) = Inr (?cs, True)"
    by (simp only: choose_carriers_def ListActive_def option.simps sum.simps if_True if_False)
  with assms(1) have cs: "oc_carriers (sr_orch sv) = ?cs"
    by (auto simp: Run_setup_def wire_orchestrator_def New_orchestrator_def Let_def split: prod.splits if_splits)
  have none: "[] = filter (\<lambda>k. set (c_Capabilities k) \<inter> set (qr_CoverageLines req) \<noteq> {}) (oc_carriers (sr_orch sv))"
    unfolding cs by (auto simp: filter_empty_conv carrier_of_row_def)
  have plaus: "list_all plausible cs'" if "Inr (ListActive decodeConfig None rows) = Inr (Inr cs')" for cs'
    using that assms(4) by (auto simp: ListActive_def list_all_iff dest!: in_set_takeD)
  have "complete [] []" by (simp add: complete_def)
  note first = first_request [where decode = decode and quote = quote and c = c and hs = hs and x = x,
      OF assms(1) plaus assms(5-10) none refl this]
  obtain out resp s' where "service ops (sr_apiKeys sv)
      (service_env decode quote (sr_orch sv) None (run_schedule (sr_orch sv) []) solo_flight c) r hs
      (fresh_server ops (sr_world sv, x)) = (resp, s')" "answered req (Inr out) resp" "res_CarrierID ` set out \<subseteq> c_ID ` set ([] :: Carrier list)" by (rule first) (assumption | rule that)+
  then show ?thesis by simp
qed

section \<open>Properties\<close>





end
