(* ===== verification/RF_Flights.thy ===== *)
theory RF_Flights
  imports RF_Schedule
begin

text \<open>
  The flight group of \<open>golang.org/x/sync/singleflight\<close> as concurrent callers of \<open>Do\<close> see it. The
  package is not part of the repository: which function it runs and whom it answers are parameters, its
  documented behaviour is the hypotheses \<open>deduplicates\<close> and \<open>serves\<close>, and a concrete group shows that they can hold.
\<close>

section \<open>Flights\<close>

type_synonym answer = "go_error + QuoteResult list"

text \<open>
  What happens at a flight group, in order: a goroutine calls \<open>Do\<close> with a key, its function is run, the
  function ends with a value, \<open>Do\<close> returns a value to it. Every goroutine calls it at most once.
\<close>

datatype flight_event = Calls nat string | Runs nat | Ends nat answer | Gives nat answer

text \<open>The group decides, after a history, whose function is run and to whom a value is returned.\<close>

record flight_group =
  fg_runs :: "flight_event list \<Rightarrow> nat \<Rightarrow> bool"
  fg_gives :: "flight_event list \<Rightarrow> nat \<Rightarrow> answer \<Rightarrow> bool"

fun since :: "'e \<Rightarrow> 'e list \<Rightarrow> 'e list" where
  "since e [] = []"
| "since e (x # xs) = (if x = e then xs else since e xs)"

fun calls_key :: "string \<Rightarrow> flight_event \<Rightarrow> nat option" where
  "calls_key k (Calls g k') = (if k' = k then Some g else None)"
| "calls_key k _ = None"

fun is_end :: "nat \<Rightarrow> flight_event \<Rightarrow> bool" where
  "is_end g (Ends g' v) = (g' = g)"
| "is_end g _ = False"

fun is_given :: "nat \<Rightarrow> flight_event \<Rightarrow> bool" where
  "is_given g (Gives g' v) = (g' = g)"
| "is_given g _ = False"

definition callers :: "flight_event list \<Rightarrow> string \<Rightarrow> nat list" where
  "callers h k = List.map_filter (calls_key k) h"

definition running :: "flight_event list \<Rightarrow> nat \<Rightarrow> bool" where
  "running h g \<longleftrightarrow> Runs g \<in> set h \<and> \<not> list_ex (is_end g) h"

definition key_in_flight :: "flight_event list \<Rightarrow> string \<Rightarrow> bool" where
  "key_in_flight h k \<longleftrightarrow> list_ex (running h) (callers h k)"

text \<open>
  The package documentation of \<open>Do\<close>: it executes and returns the results of the given function,
  making sure that only one execution is in-flight for a given key at a time; if a duplicate comes in, the
  duplicate caller waits for the original to complete and receives the same results. So a function is run
  only when none is in flight for its key, and a caller is given what its own function returned or, if it
  was not run, what another with its key returned since it called.
\<close>

definition deduplicates :: "flight_group \<Rightarrow> bool" where
  "deduplicates sf \<longleftrightarrow>
     (\<forall>h g. fg_runs sf h g \<longrightarrow> Runs g \<notin> set h \<and> (\<forall>k. g \<in> set (callers h k) \<longrightarrow> \<not> key_in_flight h k)) \<and>
     (\<forall>h g v. fg_gives sf h g v \<longrightarrow>
        (if Runs g \<in> set h then Ends g v \<in> set h
         else \<exists>k. g \<in> set (callers h k) \<and> (\<exists>g' \<in> set (callers h k). Ends g' v \<in> set (since (Calls g k) h))))"

text \<open>
  Nobody waits for nothing: with no function in flight for a key, one of its callers goes on, when every
  goroutine has called with one key only.
\<close>

definition serves :: "flight_group \<Rightarrow> bool" where
  "serves sf \<longleftrightarrow>
     (\<forall>h k g. (\<forall>g k k'. Calls g k \<in> set h \<longrightarrow> Calls g k' \<in> set h \<longrightarrow> k = k') \<longrightarrow>
        g \<in> set (callers h k) \<and> \<not> list_ex (is_given g) h \<and> \<not> key_in_flight h k \<longrightarrow>
        (\<exists>g' \<in> set (callers h k). \<not> list_ex (is_given g') h \<and> (fg_runs sf h g' \<or> (\<exists>v. fg_gives sf h g' v))))"

lemma callers_iff [simp]: "g \<in> set (callers h k) \<longleftrightarrow> Calls g k \<in> set h"
proof -
  have c: "calls_key k e = Some g \<longleftrightarrow> e = Calls g k" for e by (cases e) auto
  have "g \<in> set (List.map_filter f h) \<longleftrightarrow> (\<exists>e \<in> set h. f e = Some g)" for f :: "flight_event \<Rightarrow> nat option"
    by (induction h) (auto simp: List.map_filter_simps split: option.splits)
  then show ?thesis using c by (simp add: callers_def)
qed

lemma since_subset: "set (since e h) \<subseteq> set h"
  by (induction h) auto

section \<open>A flight group\<close>

text \<open>A group that runs the first caller that finds nothing to share, to show that the documented
  behaviour can be had.\<close>

fun keys_of :: "nat \<Rightarrow> flight_event list \<Rightarrow> string list" where
  "keys_of g [] = []"
| "keys_of g (Calls g' k # h) = (if g' = g then k # keys_of g h else keys_of g h)"
| "keys_of g (e # h) = keys_of g h"

fun values_of :: "nat list \<Rightarrow> flight_event list \<Rightarrow> answer list" where
  "values_of gs [] = []"
| "values_of gs (Ends g v # h) = (if g \<in> set gs then v # values_of gs h else values_of gs h)"
| "values_of gs (e # h) = values_of gs h"

definition shared_values :: "flight_event list \<Rightarrow> nat \<Rightarrow> string \<Rightarrow> answer list" where
  "shared_values h g k = values_of (callers h k) (since (Calls g k) h)"

definition flight_example :: flight_group where
  "flight_example = \<lparr>
     fg_runs = (\<lambda>h g. Runs g \<notin> set h \<and> list_all (\<lambda>k. \<not> key_in_flight h k \<and> shared_values h g k = []) (keys_of g h)),
     fg_gives = (\<lambda>h g v. if Runs g \<in> set h then Ends g v \<in> set h
                         else list_ex (\<lambda>k. v \<in> set (shared_values h g k)) (keys_of g h))\<rparr>"

lemma keys_of_iff [simp]: "k \<in> set (keys_of g h) \<longleftrightarrow> Calls g k \<in> set h"
proof (induction h)
  case (Cons e h)
  then show ?case by (cases e) auto
qed simp

lemma values_of_iff: "v \<in> set (values_of gs h) \<longleftrightarrow> (\<exists>g \<in> set gs. Ends g v \<in> set h)"
proof (induction h)
  case (Cons e h)
  then show ?case by (cases e) auto
qed simp

lemma deduplicates_example: "deduplicates flight_example"
  by (auto simp: deduplicates_def flight_example_def list_all_iff list_ex_iff shared_values_def values_of_iff)

lemma is_end_iff: "list_ex (is_end g) h \<longleftrightarrow> (\<exists>v. Ends g v \<in> set h)"
proof -
  have "is_end g e \<longleftrightarrow> (\<exists>v. e = Ends g v)" for e by (cases e) auto
  then show ?thesis by (auto simp: list_ex_iff)
qed

lemma is_given_iff: "list_ex (is_given g) h \<longleftrightarrow> (\<exists>v. Gives g v \<in> set h)"
proof -
  have "is_given g e \<longleftrightarrow> (\<exists>v. e = Gives g v)" for e by (cases e) auto
  then show ?thesis by (auto simp: list_ex_iff)
qed

lemma key_in_flight_iff:
  "key_in_flight h k \<longleftrightarrow> (\<exists>g. Calls g k \<in> set h \<and> Runs g \<in> set h \<and> (\<forall>v. Ends g v \<notin> set h))"
  unfolding key_in_flight_def running_def is_end_iff by (auto simp: list_ex_iff)

lemma serves_example: "serves flight_example"
  unfolding serves_def
proof (intro allI impI, elim conjE)
  fix h k g
  assume once: "\<forall>g k k'. Calls g k \<in> set h \<longrightarrow> Calls g k' \<in> set h \<longrightarrow> k = k'"
    and g: "g \<in> set (callers h k)" "\<not> list_ex (is_given g) h" and free: "\<not> key_in_flight h k"
  have keys: "Calls g k' \<in> set h \<longleftrightarrow> k' = k" for k' using once g(1) by auto
  have "fg_runs flight_example h g \<or> (\<exists>v. fg_gives flight_example h g v)"
  proof (cases "Runs g \<in> set h")
    case True
    with free g(1) obtain v where "Ends g v \<in> set h" by (auto simp: key_in_flight_iff)
    with True show ?thesis by (auto simp: flight_example_def)
  next
    case False
    show ?thesis
    proof (cases "shared_values h g k")
      case Nil
      with False free keys show ?thesis by (simp add: flight_example_def list_all_iff)
    next
      case (Cons v vs)
      with False keys show ?thesis by (auto simp: flight_example_def list_ex_iff)
    qed
  qed
  with g show "\<exists>g' \<in> set (callers h k). \<not> list_ex (is_given g') h \<and>
      (fg_runs flight_example h g' \<or> (\<exists>v. fg_gives flight_example h g' v))" by blast
qed

end
