(* ===== verification/RF_Gateway.thy ===== *)
theory RF_Gateway
  imports RF_Flights
begin

text \<open>
  Concurrent requests through the orchestrator: any number of goroutines in \<open>GetQuotes\<close> of
  \<open>internal/orchestrator/orchestrator.go\<close>, over one set of breakers, limiters and trackers, one flight
  group and one table of quotes. A step is a lookup, a call of \<open>Do\<close> or its return, the start of a
  fan-out, one event of it (a carrier call, a poll or a hedge, each as one block as in \<open>RF_Schedule\<close>), the
  collection of its results, or the save. The flight group is that of \<open>RF_Flights\<close>.
\<close>

section \<open>The gateway\<close>

text \<open>A fan-out between its start and the collection: what \<open>fanOut\<close> has computed, and its goroutines.\<close>

record 'l fan_locals =
  fl_start :: gotime
  fl_ctx :: ctx
  fl_eligible :: "Carrier list"
  fl_hedgeable :: "'l orch hedgeCarrier list"
  fl_pending :: "string \<rightharpoonup> pendingCarrier"
  fl_fan :: "'l fan_world"

text \<open>
  Where a goroutine stands in \<open>GetQuotes\<close>: before the lookup; after a miss; in \<open>Do\<close>; at the start of
  \<open>fanOut\<close> with its context; in its concurrent phase; with the results collected; after the save; back in
  \<open>Do\<close> with the value of its function; returned.
\<close>

datatype 'l caller =
    Arrived
  | Missed
  | Waiting
  | Starting ctx
  | Fanning "'l fan_locals"
  | Collected gotime "QuoteResult list"
  | Saved gotime "QuoteResult list"
  | FnEnded answer
  | Answered answer

text \<open>\<open>gw_collected\<close> is not in the code: what the fan-out of a goroutine collected, for the properties.\<close>

record 'l gw =
  gw_world :: "'l orch"
  gw_table :: quotes_table
  gw_pc :: "nat \<Rightarrow> 'l caller"
  gw_flights :: "flight_event list"
  gw_collected :: "nat \<Rightarrow> QuoteResult list option"

definition moves :: "nat \<Rightarrow> 'l caller \<Rightarrow> 'l gw \<Rightarrow> 'l gw" where
  "moves g p s = s\<lparr>gw_pc := (gw_pc s)(g := p)\<rparr>"

definition log_flight :: "flight_event \<Rightarrow> 'l gw \<Rightarrow> 'l gw" where
  "log_flight e s = s\<lparr>gw_flights := gw_flights s @ [e]\<rparr>"

definition lookup_cache ::
  "quotes_table repo_ops option \<Rightarrow> ctx \<Rightarrow> QuoteRequest \<Rightarrow> 'l gw \<Rightarrow> go_error + QuoteResult list \<times> bool" where
  "lookup_cache repo c req s =
     (case repo of
        None \<Rightarrow> Inr ([], False)
      | Some ops \<Rightarrow> (if req_RequestID req \<noteq> [] then rp_find ops c (scopedKey req) (w_now (gw_world s)) (gw_table s)
                     else Inr ([], False)))"

text \<open>The function of a fan-out returns: to \<open>Do\<close>, or to the caller of a request without identifier.\<close>

definition fan_returns :: "nat \<Rightarrow> QuoteRequest \<Rightarrow> gotime \<Rightarrow> QuoteResult list \<Rightarrow> 'l gw \<Rightarrow> 'l gw" where
  "fan_returns g req start out s =
     (let w = gw_world s;
          s = s\<lparr>gw_world := emit (RecordFanOutDuration (time_sub (w_now w) start)) w\<rparr>
      in if req_RequestID req \<noteq> [] then log_flight (Ends g (Inr out)) (moves g (FnEnded (Inr out)) s)
         else moves g (Answered (Inr out)) s)"

definition fan_starts :: "'l Orchestrator \<Rightarrow> nat \<Rightarrow> QuoteRequest \<Rightarrow> ctx \<Rightarrow> 'l gw \<Rightarrow> 'l gw" where
  "fan_starts orc g req c s =
     (let w = gw_world s;
          start = w_now w;
          reqCtx = WithTimeout c (w_now w) (request_timeout req);
          eligible = filterEligibleCarriers (oc_carriers orc) (o_breakers w) (req_CoverageLines req)
      in if length eligible = 0 then fan_returns g req start [] (s\<lparr>gw_collected := (gw_collected s)(g \<mapsto> [])\<rparr>)
         else (case (build_hedgeable orc w eligible, build_pending w eligible Map.empty) of
             (Some hedgeable, Some pending) \<Rightarrow>
               moves g (Fanning \<lparr>fl_start = start, fl_ctx = reqCtx, fl_eligible = eligible, fl_hedgeable = hedgeable,
                 fl_pending = pending, fl_fan = fan_world_init (w\<lparr>o_results := []\<rparr>)\<rparr>) s
           | _ \<Rightarrow> s\<lparr>gw_world := w\<lparr>o_panicked := True\<rparr>\<rparr>))"

text \<open>An event of one fan-out happens in the shared world, with the channel of that fan-out.\<close>

definition enter_world :: "'l orch \<Rightarrow> 'l fan_world \<Rightarrow> 'l fan_world" where
  "enter_world w f = in_world (\<lambda>own. w\<lparr>o_results := o_results own\<rparr>) f"

definition fan_happens ::
  "'l Orchestrator \<Rightarrow> nat \<Rightarrow> QuoteRequest \<Rightarrow> 'l fan_locals \<Rightarrow> fan_event \<Rightarrow> 'l gw \<Rightarrow> 'l gw" where
  "fan_happens orc g req l ev s =
     (let f = run_event orc (fl_ctx l) (fl_eligible l) (fl_hedgeable l) (fl_pending l) req ev
                (enter_world (gw_world s) (fl_fan l))
      in moves g (Fanning (l\<lparr>fl_fan := f\<rparr>)) (s\<lparr>gw_world := (fw_world f)\<lparr>o_results := []\<rparr>\<rparr>))"

definition fan_collects :: "nat \<Rightarrow> 'l fan_locals \<Rightarrow> 'l gw \<Rightarrow> 'l gw" where
  "fan_collects g l s =
     (let out = sort_results (collect (o_results (fw_world (fl_fan l))))
      in moves g (Collected (fl_start l) out) (s\<lparr>gw_collected := (gw_collected s)(g \<mapsto> out)\<rparr>))"

text \<open>The events a schedule may have: a poll visits every pending slot once.\<close>

definition possible_event :: "Carrier list \<Rightarrow> fan_event \<Rightarrow> bool" where
  "possible_event e ev = (case ev of Poll order \<Rightarrow> distinct order \<and> set order = c_ID ` set e | _ \<Rightarrow> True)"

inductive gw_step ::
  "'l Orchestrator \<Rightarrow> quotes_table repo_ops option \<Rightarrow> flight_group \<Rightarrow> (nat \<Rightarrow> ctx) \<Rightarrow> (nat \<Rightarrow> QuoteRequest) \<Rightarrow>
     'l gw \<Rightarrow> 'l gw \<Rightarrow> bool"
  for orc repo sf ctxs req where
  hit: "gw_pc s g = Arrived \<Longrightarrow> lookup_cache repo (ctxs g) (req g) s = Inr (cached, True) \<Longrightarrow>
    gw_step orc repo sf ctxs req s (moves g (Answered (Inr cached)) s)"
| miss: "gw_pc s g = Arrived \<Longrightarrow> \<forall>cached. lookup_cache repo (ctxs g) (req g) s \<noteq> Inr (cached, True) \<Longrightarrow>
    gw_step orc repo sf ctxs req s (moves g (if req_RequestID (req g) \<noteq> [] then Missed else Starting (ctxs g)) s)"
| calls_do: "gw_pc s g = Missed \<Longrightarrow>
    gw_step orc repo sf ctxs req s (log_flight (Calls g (scopedKey (req g))) (moves g Waiting s))"
| leads: "gw_pc s g = Waiting \<Longrightarrow> fg_runs sf (gw_flights s) g \<Longrightarrow>
    gw_step orc repo sf ctxs req s (log_flight (Runs g) (moves g (Starting (WithoutCancel (ctxs g))) s))"
| starts: "gw_pc s g = Starting c \<Longrightarrow> gw_step orc repo sf ctxs req s (fan_starts orc g (req g) c s)"
| happens: "gw_pc s g = Fanning l \<Longrightarrow> possible_event (fl_eligible l) ev \<Longrightarrow>
    gw_step orc repo sf ctxs req s (fan_happens orc g (req g) l ev s)"
| collects: "gw_pc s g = Fanning l \<Longrightarrow> {..<length (fl_eligible l)} \<subseteq> fw_calls (fl_fan l) \<Longrightarrow>
    gw_step orc repo sf ctxs req s (fan_collects g l s)"
| saves: "gw_pc s g = Collected start out \<Longrightarrow>
    gw_step orc repo sf ctxs req s
      (moves g (Saved start out) (s\<lparr>gw_table := save_collected repo (req g) out (w_now (gw_world s)) (gw_table s)\<rparr>))"
| returns: "gw_pc s g = Saved start out \<Longrightarrow> gw_step orc repo sf ctxs req s (fan_returns g (req g) start out s)"
| gives: "gw_pc s g = Waiting \<or> gw_pc s g = FnEnded u \<Longrightarrow> fg_gives sf (gw_flights s) g v \<Longrightarrow>
    gw_step orc repo sf ctxs req s (log_flight (Gives g v) (moves g (Answered v) s))"
| tick: "gw_step orc repo sf ctxs req s (s\<lparr>gw_world := (gw_world s)\<lparr>w_now := w_now (gw_world s) + int d\<rparr>\<rparr>)"
| sweep: "gw_step orc repo sf ctxs req s
    (s\<lparr>gw_table := snd (DeleteExpired outcome (w_now (gw_world s)) (gw_table s))\<rparr>)"

inductive gw_steps ::
  "'l Orchestrator \<Rightarrow> quotes_table repo_ops option \<Rightarrow> flight_group \<Rightarrow> (nat \<Rightarrow> ctx) \<Rightarrow> (nat \<Rightarrow> QuoteRequest) \<Rightarrow>
     'l gw \<Rightarrow> 'l gw \<Rightarrow> bool"
  for orc repo sf ctxs req s0 where
  none: "gw_steps orc repo sf ctxs req s0 s0"
| more: "gw_steps orc repo sf ctxs req s0 s \<Longrightarrow> gw_step orc repo sf ctxs req s s' \<Longrightarrow> gw_steps orc repo sf ctxs req s0 s'"

text \<open>The callers below \<open>n\<close> arrive; the others have nothing to do.\<close>

definition gw_init :: "nat \<Rightarrow> 'l orch \<Rightarrow> quotes_table \<Rightarrow> 'l gw" where
  "gw_init n w t = \<lparr>gw_world = w, gw_table = t, gw_pc = (\<lambda>g. if g < n then Arrived else Answered (Inr [])),
     gw_flights = [], gw_collected = Map.empty\<rparr>"


section \<open>The history and where the callers stand\<close>

fun event_of :: "flight_event \<Rightarrow> nat" where
  "event_of (Calls g k) = g"
| "event_of (Runs g) = g"
| "event_of (Ends g v) = g"
| "event_of (Gives g v) = g"

text \<open>What the history holds of a caller at each point; a request without identifier never calls \<open>Do\<close>.\<close>

definition in_fn :: "QuoteRequest \<Rightarrow> nat \<Rightarrow> flight_event list" where
  "in_fn q g = (if req_RequestID q \<noteq> [] then [Calls g (scopedKey q), Runs g] else [])"

fun history_ok :: "QuoteRequest \<Rightarrow> nat \<Rightarrow> 'l caller \<Rightarrow> flight_event list \<Rightarrow> bool" where
  "history_ok q g Arrived es = (es = [])"
| "history_ok q g Missed es = (es = [] \<and> req_RequestID q \<noteq> [])"
| "history_ok q g Waiting es = (es = [Calls g (scopedKey q)] \<and> req_RequestID q \<noteq> [])"
| "history_ok q g (Starting c) es = (es = in_fn q g)"
| "history_ok q g (Fanning l) es = (es = in_fn q g)"
| "history_ok q g (Collected st out) es = (es = in_fn q g)"
| "history_ok q g (Saved st out) es = (es = in_fn q g)"
| "history_ok q g (FnEnded v) es = (es = in_fn q g @ [Ends g v] \<and> req_RequestID q \<noteq> [])"
| "history_ok q g (Answered v) es =
     (es = [] \<or> req_RequestID q \<noteq> [] \<and>
        (es = [Calls g (scopedKey q), Gives g v] \<or> (\<exists>u. es = in_fn q g @ [Ends g u, Gives g v])))"

definition logged :: "(nat \<Rightarrow> QuoteRequest) \<Rightarrow> 'l gw \<Rightarrow> bool" where
  "logged req s \<longleftrightarrow> (\<forall>g. history_ok (req g) g (gw_pc s g) (filter (\<lambda>e. event_of e = g) (gw_flights s)))"

lemma gw_simps [simp]:
  "gw_world (moves g p s) = gw_world s" "gw_table (moves g p s) = gw_table s" "gw_pc (moves g p s) = (gw_pc s)(g := p)"
  "gw_flights (moves g p s) = gw_flights s" "gw_collected (moves g p s) = gw_collected s"
  "gw_world (log_flight e s) = gw_world s" "gw_table (log_flight e s) = gw_table s" "gw_pc (log_flight e s) = gw_pc s"
  "gw_flights (log_flight e s) = gw_flights s @ [e]" "gw_collected (log_flight e s) = gw_collected s"
  by (simp_all add: moves_def log_flight_def)

lemma fan_returns_simps [simp]:
  "gw_table (fan_returns g q st out s) = gw_table s" "gw_collected (fan_returns g q st out s) = gw_collected s"
  "gw_world (fan_returns g q st out s) = emit (RecordFanOutDuration (time_sub (w_now (gw_world s)) st)) (gw_world s)"
  "gw_pc (fan_returns g q st out s) =
     (gw_pc s)(g := if req_RequestID q \<noteq> [] then FnEnded (Inr out) else Answered (Inr out))"
  "gw_flights (fan_returns g q st out s) = gw_flights s @ (if req_RequestID q \<noteq> [] then [Ends g (Inr out)] else [])"
  by (simp_all add: fan_returns_def Let_def)

text \<open>A fan-out starts in one of three ways.\<close>

lemma fan_starts_cases:
  obtains (none) "fan_starts orc g q c s =
      fan_returns g q (w_now (gw_world s)) [] (s\<lparr>gw_collected := (gw_collected s)(g \<mapsto> [])\<rparr>)"
  | (fan) e hs p where "e = filterEligibleCarriers (oc_carriers orc) (o_breakers (gw_world s)) (req_CoverageLines q)"
      "build_hedgeable orc (gw_world s) e = Some hs" "build_pending (gw_world s) e Map.empty = Some p"
      "fan_starts orc g q c s = moves g (Fanning \<lparr>fl_start = w_now (gw_world s),
         fl_ctx = WithTimeout c (w_now (gw_world s)) (request_timeout q), fl_eligible = e, fl_hedgeable = hs,
         fl_pending = p, fl_fan = fan_world_init ((gw_world s)\<lparr>o_results := []\<rparr>)\<rparr>) s"
  | (panic) "fan_starts orc g q c s = s\<lparr>gw_world := (gw_world s)\<lparr>o_panicked := True\<rparr>\<rparr>"
      "\<not> wired orc (gw_world s)"
proof -
  let ?e = "filterEligibleCarriers (oc_carriers orc) (o_breakers (gw_world s)) (req_CoverageLines q)"
  show ?thesis
  proof (cases "?e = []")
    case True
    then show ?thesis by (intro none) (simp add: fan_starts_def Let_def)
  next
    case False
    show ?thesis
    proof (cases "build_hedgeable orc (gw_world s) ?e = None \<or> build_pending (gw_world s) ?e Map.empty = None")
      case True
      then have "\<not> wired orc (gw_world s)" using wired_eligible [of orc "gw_world s" "req_CoverageLines q"] by fastforce
      with True False show ?thesis by (intro panic) (auto simp: fan_starts_def Let_def split: option.split)
    next
      case parts: False
      then obtain hs p where "build_hedgeable orc (gw_world s) ?e = Some hs" "build_pending (gw_world s) ?e Map.empty = Some p"
        by auto
      with False show ?thesis by (intro fan [of ?e hs p]) (simp_all add: fan_starts_def Let_def)
    qed
  qed
qed

lemma loggedD: "logged req s \<Longrightarrow> gw_pc s g = p \<Longrightarrow> history_ok (req g) g p (filter (\<lambda>e. event_of e = g) (gw_flights s))"
  by (auto simp: logged_def)

text \<open>A step of a caller: it moves and adds events of its own.\<close>

lemma logged_upd:
  assumes "logged req s" and "gw_pc s' = (gw_pc s)(g := p)" and "gw_flights s' = gw_flights s @ es"
    and "\<forall>e \<in> set es. event_of e = g"
    and "history_ok (req g) g p (filter (\<lambda>e. event_of e = g) (gw_flights s) @ es)"
  shows "logged req s'"
proof -
  have "filter (\<lambda>e. event_of e = g) es = es" "g' \<noteq> g \<Longrightarrow> filter (\<lambda>e. event_of e = g') es = []" for g'
    using assms(4) by (auto simp: filter_id_conv filter_empty_conv)
  with assms(1-3,5) show ?thesis by (auto simp: logged_def)
qed

lemma logged_step:
  assumes "gw_step orc repo sf ctxs req s s'" and "logged req s"
  shows "logged req s'"
  using assms(1)
proof cases
  case (hit g cached)
  with assms(2) show ?thesis by (intro logged_upd [OF assms(2), of s' g _ "[]"]) (auto dest: loggedD)
next
  case (miss g)
  with assms(2) show ?thesis by (intro logged_upd [OF assms(2), of s' g _ "[]"]) (auto dest: loggedD simp: in_fn_def)
next
  case (calls_do g)
  with assms(2) show ?thesis
    by (intro logged_upd [OF assms(2), of s' g Waiting "[Calls g (scopedKey (req g))]"]) (auto dest: loggedD)
next
  case (leads g)
  with assms(2) show ?thesis
    by (intro logged_upd [OF assms(2), of s' g "Starting (WithoutCancel (ctxs g))" "[Runs g]"])
      (auto dest: loggedD simp: in_fn_def)
next
  case (starts g c)
  from loggedD [OF assms(2) starts(2)] have l: "filter (\<lambda>e. event_of e = g) (gw_flights s) = in_fn (req g) g" by simp
  show ?thesis
  proof (cases rule: fan_starts_cases [of orc g "req g" c s])
    case none
    with starts(1) l show ?thesis
      by (intro logged_upd [OF assms(2), of s' g]) (auto simp: in_fn_def)
  next
    case (fan e hs p)
    with starts(1) l show ?thesis by (intro logged_upd [OF assms(2), of s' g _ "[]"]) auto
  next
    case panic
    with starts(1) assms(2) show ?thesis by (simp add: logged_def)
  qed
next
  case (happens g l ev)
  with loggedD [OF assms(2) happens(2)] show ?thesis
    by (intro logged_upd [OF assms(2), of s' g _ "[]"]) (auto simp: fan_happens_def Let_def)
next
  case (collects g l)
  with loggedD [OF assms(2) collects(2)] show ?thesis
    by (intro logged_upd [OF assms(2), of s' g _ "[]"]) (auto simp: fan_collects_def Let_def)
next
  case (saves g st out)
  with loggedD [OF assms(2) saves(2)] show ?thesis by (intro logged_upd [OF assms(2), of s' g _ "[]"]) auto
next
  case (returns g st out)
  with loggedD [OF assms(2) returns(2)] show ?thesis
    by (intro logged_upd [OF assms(2), of s' g]) (auto simp: in_fn_def)
next
  case (gives g u v)
  from gives(2) have "history_ok (req g) g (Answered v) (filter (\<lambda>e. event_of e = g) (gw_flights s) @ [Gives g v])"
    by (elim disjE) (drule loggedD [OF assms(2)], simp add: in_fn_def)+
  then show ?thesis unfolding gives(1)
    by (intro logged_upd [OF assms(2), of _ g "Answered v" "[Gives g v]"]) auto
qed (use assms(2) in \<open>simp_all add: logged_def\<close>)

end
