(* ===== verification/RF_Gateway_Quotes.thy ===== *)
theory RF_Gateway_Quotes
  imports RF_Gateway
begin

text \<open>
  What holds at every moment of concurrent requests: where the quotes in the table and in the answers come from,
  and that the carriers behind the callers keep their contracts.
\<close>

section \<open>Where quotes come from\<close>

lemma history_at:
  assumes "logged req s"
  obtains es where "history_ok (req g) g (gw_pc s g) es"
    and "\<And>e. event_of e = g \<Longrightarrow> e \<in> set es \<longleftrightarrow> e \<in> set (gw_flights s)"
  using assms that [of "filter (\<lambda>e. event_of e = g) (gw_flights s)"] by (simp add: logged_def)

lemma history_of:
  assumes "logged req s" and "e \<in> set (gw_flights s)" and "event_of e = g"
  obtains es where "history_ok (req g) g (gw_pc s g) es" and "e \<in> set es"
  using assms that [of "filter (\<lambda>e. event_of e = g) (gw_flights s)"] by (simp add: logged_def)

lemma in_fn_Calls: "Calls g k \<in> set (in_fn q g') \<Longrightarrow> k = scopedKey q \<and> req_RequestID q \<noteq> []"
  by (auto simp: in_fn_def split: if_splits)

lemma in_fn_others [simp]: "Ends g v \<notin> set (in_fn q g')" "Gives g v \<notin> set (in_fn q g')"
  by (simp_all add: in_fn_def)

lemma called_key:
  assumes "logged req s" and "Calls g k \<in> set (gw_flights s)"
  shows "k = scopedKey (req g) \<and> req_RequestID (req g) \<noteq> []"
proof -
  obtain es where "history_ok (req g) g (gw_pc s g) es" "Calls g k \<in> set es" by (rule history_of [OF assms]) simp_all
  then show ?thesis by (cases "gw_pc s g") (auto dest: in_fn_Calls)
qed

fun collected_ok :: "'l caller \<Rightarrow> QuoteResult list option \<Rightarrow> bool" where
  "collected_ok (Collected st out) x = (x = Some out)"
| "collected_ok (Saved st out) x = (x = Some out)"
| "collected_ok (FnEnded v) x = (\<exists>out. v = Inr out \<and> x = Some out)"
| "collected_ok (Answered v) x = True"
| "collected_ok p x = (x = None)"

text \<open>
  \<open>traced\<close>: a quote that a caller may get was collected by the fan-out of a request with the same key, as
  it was or as a lookup returns it, or was stored under the key from the start.
\<close>

definition traced ::
  "(nat \<Rightarrow> QuoteRequest) \<Rightarrow> quotes_table \<Rightarrow> 'l gw \<Rightarrow> string \<Rightarrow> QuoteResult \<Rightarrow> bool" where
  "traced req t0 s k q \<longleftrightarrow>
     stored_quote t0 k (res_CarrierID q) = Some q \<or>
     (\<exists>g out. scopedKey (req g) = k \<and> gw_collected s g = Some out \<and> (q \<in> set out \<or> q \<in> as_stored k ` set out))"

definition provenance :: "(nat \<Rightarrow> QuoteRequest) \<Rightarrow> quotes_table \<Rightarrow> 'l gw \<Rightarrow> bool" where
  "provenance req t0 s \<longleftrightarrow>
     logged req s \<and> table_ok (gw_table s) \<and>
     (\<forall>g. collected_ok (gw_pc s g) (gw_collected s g)) \<and>
     (\<forall>g v. Ends g v \<in> set (gw_flights s) \<longrightarrow> (\<exists>out. v = Inr out \<and> gw_collected s g = Some out)) \<and>
     (\<forall>k c q. stored_quote (gw_table s) k c = Some q \<longrightarrow> traced req t0 s k q) \<and>
     (\<forall>g v. gw_pc s g = Answered v \<longrightarrow> (\<exists>out. v = Inr out \<and> (\<forall>q \<in> set out. traced req t0 s (scopedKey (req g)) q)))"

definition over_spanner :: "quotes_table repo_ops option \<Rightarrow> bool" where
  "over_spanner repo \<longleftrightarrow> (\<forall>ops. repo = Some ops \<longrightarrow> (\<exists>commit query. ops = spanner_ops commit query))"

lemma found_is_stored:
  assumes "table_ok t" and "FindByRequestID f k now t = Inr (qs, hit)" and "q \<in> set qs"
  shows "stored_quote t k (res_CarrierID q) = Some q"
proof -
  obtain err tie where f: "f = (err, tie)" by fastforce
  with assms(2,3) have "q \<in> row_result k ` set (select_quotes tie k now t)"
    by (auto simp: FindByRequestID_def Let_def split: option.splits if_splits)
  then obtain r where r: "r \<in> set (select_quotes tie k now t)" and q: "q = row_result k r" by blast
  from in_set_takeD [OF r [unfolded select_quotes_def]] have "r \<in> snd ` set t" and "q_RequestID r = k" by simp_all
  then have "map_of t (k, q_CarrierID r) = Some r" by (simp only: table_ok_lookup [OF assms(1)])
  with q show ?thesis by (simp add: stored_quote_def row_result_def)
qed

lemma hit_is_stored:
  assumes "over_spanner repo" and "table_ok (gw_table s)" and "lookup_cache repo c q s = Inr (cached, True)" and "x \<in> set cached"
  shows "stored_quote (gw_table s) (scopedKey q) (res_CarrierID x) = Some x"
proof -
  obtain ops where "repo = Some ops" using assms(3) by (cases repo) (auto simp: lookup_cache_def)
  with assms(1) obtain commit query where repo: "repo = Some (spanner_ops commit query)" by (auto simp: over_spanner_def)
  with assms(3) have "FindByRequestID (query (w_now (gw_world s))) (scopedKey q) (w_now (gw_world s)) (gw_table s) = Inr (cached, True)"
    by (auto simp: lookup_cache_def spanner_ops_def split: if_splits)
  from found_is_stored [OF assms(2) this assms(4)] show ?thesis .
qed

lemma saved_table:
  assumes "over_spanner repo" and "table_ok t" and "t' = save_collected repo q out now t"
  shows "table_ok t' \<and>
    (\<forall>k c x. stored_quote t' k c = Some x \<longrightarrow> stored_quote t k c = Some x \<or> k = scopedKey q \<and> x \<in> as_stored k ` set out)"
proof (cases "t' = t")
  case False
  with assms(1,3) obtain commit query where "repo = Some (spanner_ops commit query)"
    by (auto simp: over_spanner_def save_collected_def split: option.splits)
  with assms(3) have "t' = t \<or> (\<exists>now. t' = snd (Save (commit now) now (scopedKey q) out t))"
    by (auto simp: save_collected_def spanner_ops_def split: if_splits)
  with False obtain now where "t' = snd (Save (commit now) now (scopedKey q) out t)" by blast
  with False have "t' = fold (upsert now (scopedKey q)) out t"
    by (cases "commit now") (auto simp: Save_def Let_def split: if_splits)
  then obtain now where t': "t' = fold (upsert now (scopedKey q)) out t" by blast
  show ?thesis unfolding t' using table_ok_saves [OF assms(2)]
    by (auto simp: stored_saves overlay_def split: option.splits if_splits dest!: last_for_carrier)
qed (use assms(2) in auto)

lemma traced_mono:
  assumes "traced req t0 s k q" and "\<forall>g out. gw_collected s g = Some out \<longrightarrow> gw_collected s' g = Some out"
  shows "traced req t0 s' k q"
  using assms unfolding traced_def by metis

lemma provenance_upd:
  assumes "provenance req t0 s" and "logged req s'" and "table_ok (gw_table s')"
    and "gw_pc s' = (gw_pc s)(g := p)" and "gw_collected s' = (gw_collected s)(g := x)"
    and "x = gw_collected s g \<or> gw_collected s g = None" and "collected_ok p x"
    and "\<forall>h v. Ends h v \<in> set (gw_flights s') \<longrightarrow> Ends h v \<in> set (gw_flights s) \<or> h = g \<and> (\<exists>out. v = Inr out \<and> x = Some out)"
    and "\<forall>k c q. stored_quote (gw_table s') k c = Some q \<longrightarrow> stored_quote (gw_table s) k c = Some q \<or> traced req t0 s' k q"
    and "\<forall>v. p = Answered v \<longrightarrow> (\<exists>out. v = Inr out \<and> (\<forall>q \<in> set out. traced req t0 s' (scopedKey (req g)) q))"
  shows "provenance req t0 s'"
proof -
  have keep: "\<forall>h out. gw_collected s h = Some out \<longrightarrow> gw_collected s' h = Some out" using assms(5,6) by auto
  note mono = traced_mono [OF _ keep]
  show ?thesis unfolding provenance_def
  proof (intro conjI)
    show "\<forall>h v. Ends h v \<in> set (gw_flights s') \<longrightarrow> (\<exists>out. v = Inr out \<and> gw_collected s' h = Some out)"
      using assms(1,5,8) keep unfolding provenance_def by (metis fun_upd_same)
    show "\<forall>k c q. stored_quote (gw_table s') k c = Some q \<longrightarrow> traced req t0 s' k q"
      using assms(1,9) mono unfolding provenance_def by blast
    show "\<forall>h v. gw_pc s' h = Answered v \<longrightarrow> (\<exists>out. v = Inr out \<and> (\<forall>q \<in> set out. traced req t0 s' (scopedKey (req h)) q))"
    proof (intro allI impI)
      fix h v assume h: "gw_pc s' h = Answered v"
      show "\<exists>out. v = Inr out \<and> (\<forall>q \<in> set out. traced req t0 s' (scopedKey (req h)) q)"
      proof (cases "h = g")
        case True
        with h assms(4,10) show ?thesis by simp
      next
        case False
        with h assms(1,4) mono show ?thesis unfolding provenance_def by simp metis
      qed
    qed
  qed (use assms(1-5,7) in \<open>simp_all add: provenance_def\<close>)
qed


lemma provenanceD:
  assumes "provenance req t0 s"
  shows "logged req s" "table_ok (gw_table s)" "collected_ok (gw_pc s g) (gw_collected s g)"
    "Ends g v \<in> set (gw_flights s) \<Longrightarrow> \<exists>out. v = Inr out \<and> gw_collected s g = Some out"
    "stored_quote (gw_table s) k c = Some q \<Longrightarrow> traced req t0 s k q"
  using assms by (auto simp: provenance_def)

text \<open>What \<open>Do\<close> returns to a caller was returned by the function of a caller with the same key.\<close>

lemma given_by:
  assumes "deduplicates sf" and "logged req s" and "fg_gives sf (gw_flights s) g v"
    and "gw_pc s g = Waiting \<or> gw_pc s g = FnEnded u"
  obtains g' where "scopedKey (req g') = scopedKey (req g)" and "req_RequestID (req g') \<noteq> []" and "Ends g' v \<in> set (gw_flights s)"
proof (cases "Runs g \<in> set (gw_flights s)")
  case True
  with assms(1,3) have "Ends g v \<in> set (gw_flights s)" unfolding deduplicates_def by metis
  moreover have "req_RequestID (req g) \<noteq> []" using assms(4) by (auto dest: loggedD [OF assms(2)])
  ultimately show ?thesis using that by blast
next
  case False
  with assms(1,3) obtain k g' where "Calls g k \<in> set (gw_flights s)" "Calls g' k \<in> set (gw_flights s)"
    "Ends g' v \<in> set (since (Calls g k) (gw_flights s))"
    unfolding deduplicates_def by (metis callers_iff)
  then show ?thesis using that [of g'] called_key [OF assms(2)] since_subset by (metis subsetD)
qed

lemma provenance_step:
  assumes "gw_step orc repo sf ctxs req s s'" and "provenance req t0 s"
    and "deduplicates sf" and "over_spanner repo"
  shows "provenance req t0 s'"
proof -
  note p = provenanceD [OF assms(2)]
  have log: "logged req s'" by (rule logged_step [OF assms(1) p(1)])
  note upd = provenance_upd [OF assms(2) log]
  from assms(1) show ?thesis
  proof cases
    case (hit g cached)
    have "traced req t0 s' (scopedKey (req g)) q" if "q \<in> set cached" for q
      using p(5) [OF hit_is_stored [OF assms(4) p(2) hit(3) that]] hit(1) by (simp add: traced_def)
    with p(2) p(3) [of g] hit show ?thesis
      by (intro upd [of g "Answered (Inr cached)" "gw_collected s g"]) auto
  next
    case (miss g)
    with p(2) p(3) [of g] show ?thesis by (intro upd [of g _ "gw_collected s g"]) auto
  next
    case (calls_do g)
    with p(2) p(3) [of g] show ?thesis by (intro upd [of g Waiting "gw_collected s g"]) auto
  next
    case (leads g)
    with p(2) p(3) [of g] show ?thesis
      by (intro upd [of g "Starting (WithoutCancel (ctxs g))" "gw_collected s g"]) auto
  next
    case (starts g c)
    then have none: "gw_collected s g = None" using p(3) [of g] by simp
    show ?thesis
    proof (cases rule: fan_starts_cases [of orc g "req g" c s])
      case none': none
      with starts(1) p(2) none show ?thesis
        by (intro upd [of g _ "Some []"]) (auto split: if_splits)
    next
      case (fan e hs q)
      with starts(1) p(2) none show ?thesis by (intro upd [of g _ None]) (auto simp: fun_upd_idem)
    next
      case panic
      with starts(1) assms(2) log show ?thesis by (simp add: provenance_def traced_def)
    qed
  next
    case (happens g l ev)
    with p(2) p(3) [of g] show ?thesis
      by (intro upd [of g _ "gw_collected s g"]) (auto simp: fan_happens_def Let_def)
  next
    case (collects g l)
    with p(2) p(3) [of g] show ?thesis
      by (intro upd [of g _ "Some (sort_results (collect (o_results (fw_world (fl_fan l)))))"])
        (auto simp: fan_collects_def Let_def)
  next
    case (saves g st out)
    then have out: "gw_collected s g = Some out" using p(3) [of g] by simp
    note t = saved_table [OF assms(4) p(2) refl, of "req g" out "w_now (gw_world s)"]
    have "traced req t0 s' (scopedKey (req g)) x" if "x \<in> as_stored (scopedKey (req g)) ` set out" for x
      using that out saves(1) unfolding traced_def by auto
    moreover have "gw_table s' = save_collected repo (req g) out (w_now (gw_world s)) (gw_table s)" using saves(1) by simp
    ultimately have "\<forall>k c q. stored_quote (gw_table s') k c = Some q \<longrightarrow>
        stored_quote (gw_table s) k c = Some q \<or> traced req t0 s' k q" and "table_ok (gw_table s')"
      using t by (metis, simp)
    with saves(1) out show ?thesis by (intro upd [of g "Saved st out" "gw_collected s g"]) auto
  next
    case (returns g st out)
    then have out: "gw_collected s g = Some out" using p(3) [of g] by simp
    then have "traced req t0 s' (scopedKey (req g)) x" if "x \<in> set out" for x
      using that returns(1) unfolding traced_def by auto
    with returns out p(2) show ?thesis by (intro upd [of g _ "gw_collected s g"]) (auto split: if_splits)
  next
    case (gives g u v)
    obtain g' where g': "scopedKey (req g') = scopedKey (req g)" "Ends g' v \<in> set (gw_flights s)"
      using given_by [OF assms(3) p(1) gives(3,2)] by metis
    with p(4) obtain out where out: "v = Inr out" "gw_collected s g' = Some out" by blast
    then have "traced req t0 s' (scopedKey (req g)) x" if "x \<in> set out" for x
      using that g'(1) gives(1) unfolding traced_def by auto
    with gives(1) out p(2) show ?thesis by (intro upd [of g "Answered v" "gw_collected s g"]) auto
  next
    case (tick d)
    with assms(2) log show ?thesis by (simp add: provenance_def traced_def)
  next
    case (sweep outcome)
    note t = spanner.purge_keeps [OF p(2), of outcome "w_now (gw_world s)"]
      spanner.purge_only [OF p(2), of outcome "w_now (gw_world s)"]
    have "traced req t0 s' = traced req t0 s" using sweep by (simp add: traced_def fun_eq_iff)
    with assms(2) log t(1) show ?thesis unfolding provenance_def sweep by (auto dest: t(2))
  qed
qed


section \<open>The carriers behind the callers\<close>

definition asked :: "'l Orchestrator \<Rightarrow> QuoteRequest \<Rightarrow> Carrier set" where
  "asked orc q = {k \<in> set (oc_carriers orc). set (c_Capabilities k) \<inter> set (req_CoverageLines q) \<noteq> {}}"

definition fan_ok :: "'l Orchestrator \<Rightarrow> QuoteRequest \<Rightarrow> 'l fan_locals \<Rightarrow> bool" where
  "fan_ok orc q l \<longleftrightarrow>
     set (fl_eligible l) \<subseteq> asked orc q \<and> candidates orc (fl_eligible l) (fl_hedgeable l) \<and>
     (\<exists>f. blocks_inv (fl_eligible l) (fl_hedgeable l) (fl_fan l) f)"

definition proper_answer :: "'l Orchestrator \<Rightarrow> QuoteRequest \<Rightarrow> QuoteResult list \<Rightarrow> bool" where
  "proper_answer orc q out \<longleftrightarrow>
     sorted_wrt (\<lambda>a b. cmp_results a b < 0) out \<and> distinct (map res_CarrierID out) \<and>
     res_CarrierID ` set out \<subseteq> c_ID ` asked orc q"

definition gateway_ok :: "'l Orchestrator \<Rightarrow> (nat \<Rightarrow> QuoteRequest) \<Rightarrow> 'l gw \<Rightarrow> bool" where
  "gateway_ok orc req s \<longleftrightarrow>
     (\<forall>k \<in> set (oc_carriers orc). callable orc (gw_world s) k) \<and> \<not> o_panicked (gw_world s) \<and>
     (\<forall>g l. gw_pc s g = Fanning l \<longrightarrow> fan_ok orc (req g) l) \<and>
     (\<forall>g out. gw_collected s g = Some out \<longrightarrow> proper_answer orc (req g) out)"

lemma callable_wired: "\<forall>k \<in> set (oc_carriers orc). callable orc w k \<Longrightarrow> wired orc w"
  by (auto simp: wired_def callable_def list_all_iff)

lemma callable_emit [simp]: "callable orc (emit e w) k = callable orc w k"
  by (simp add: callable_def)

lemma blocks_inv_enter [simp]: "blocks_inv e hs (enter_world w f) x = blocks_inv e hs f x"
  by (simp add: blocks_inv_def enter_world_def in_world_def marked_def)

lemma enter_world_simps [simp]:
  "fw_world (enter_world w f) = w\<lparr>o_results := o_results (fw_world f)\<rparr>" "fw_calls (enter_world w f) = fw_calls f"
  by (simp_all add: enter_world_def in_world_def)

lemma gateway_ok_upd:
  assumes "gateway_ok orc req s" and "\<forall>k. callable orc (gw_world s) k \<longrightarrow> callable orc (gw_world s') k"
    and "o_panicked (gw_world s') = o_panicked (gw_world s)" and "gw_pc s' = (gw_pc s)(g := p)"
    and "gw_collected s' = (gw_collected s)(g := x)"
    and "\<forall>l. p = Fanning l \<longrightarrow> fan_ok orc (req g) l"
    and "x = gw_collected s g \<or> (\<exists>out. x = Some out \<and> proper_answer orc (req g) out)"
  shows "gateway_ok orc req s'"
  using assms unfolding gateway_ok_def by (auto split: if_splits)

lemma proper_collection:
  assumes "fan_ok orc q l" and "{..<length (fl_eligible l)} \<subseteq> fw_calls (fl_fan l)"
  shows "proper_answer orc q (sort_results (collect (o_results (fw_world (fl_fan l)))))"
proof -
  let ?w = "fw_world (fl_fan l)" and ?e = "fl_eligible l"
  from assms(1) obtain f where "fan_reachable (length ?e) (from_call ?e) (from_hedge ?e) f"
    "settled (length ?e) (fw_calls (fl_fan l)) (length (m_fired (fw_monitor (fl_fan l)))) (fw_hedges (fl_fan l)) (o_results ?w) f"
    "f_monitor f = MSelect \<or> f_monitor f = MWaitHedges" by (auto simp: fan_ok_def blocks_inv_def)
  from blocks_finish [OF this(1,2) assms(2) this(3)] obtain s where "phase ?e ?w s" unfolding phase_def by metis
  from phase_carriers [OF this] assms(1) have "res_CarrierID ` set (o_results ?w) \<subseteq> c_ID ` asked orc q"
    by (auto simp: fan_ok_def)
  with collect_spec(1,2) [of "o_results ?w"] sort_results_strict show ?thesis by (simp add: proper_answer_def)
qed

lemma gateway_ok_step:
  assumes "gw_step orc repo sf ctxs req s s'" and "gateway_ok orc req s"
  shows "gateway_ok orc req s'"
proof -
  note upd = gateway_ok_upd [OF assms(2)]
  have call: "\<forall>k \<in> set (oc_carriers orc). callable orc (gw_world s) k" using assms(2) by (simp add: gateway_ok_def)
  from assms(1) show ?thesis
  proof cases
    case (hit g cached)
    then show ?thesis by (intro upd [of s' g _ "gw_collected s g"]) auto
  next
    case (miss g)
    then show ?thesis by (intro upd [of s' g _ "gw_collected s g"]) (auto split: if_splits)
  next
    case (calls_do g)
    then show ?thesis by (intro upd [of s' g _ "gw_collected s g"]) auto
  next
    case (leads g)
    then show ?thesis by (intro upd [of s' g _ "gw_collected s g"]) auto
  next
    case (starts g c)
    show ?thesis
    proof (cases rule: fan_starts_cases [of orc g "req g" c s])
      case none
      with starts(1) show ?thesis by (intro upd [of s' g _ "Some []"]) (auto simp: proper_answer_def split: if_splits)
    next
      case (fan e hs q)
      let ?w = "(gw_world s)\<lparr>o_results := []\<rparr>"
      have e: "set e \<subseteq> asked orc (req g)" unfolding fan(1) filterEligibleCarriers_eq by (auto simp: asked_def)
      then have "\<forall>k \<in> set e. callable orc ?w k" using call by (auto simp: asked_def)
      from fan_world_init_inv [OF this, of hs] build_hedgeable_candidates [OF fan(2)] e
      have "fan_ok orc (req g) \<lparr>fl_start = w_now (gw_world s), fl_ctx = WithTimeout c (w_now (gw_world s)) (request_timeout (req g)),
          fl_eligible = e, fl_hedgeable = hs, fl_pending = q, fl_fan = fan_world_init ?w\<rparr>"
        by (auto simp: fan_ok_def)
      with starts(1) fan(4) show ?thesis by (intro upd [of s' g _ "gw_collected s g"]) auto
    next
      case panic
      with callable_wired [OF call] show ?thesis by simp
    qed
  next
    case (happens g l ev)
    let ?f = "enter_world (gw_world s) (fl_fan l)"
    let ?f' = "run_event orc (fl_ctx l) (fl_eligible l) (fl_hedgeable l) (fl_pending l) (req g) ev ?f"
    have l: "fan_ok orc (req g) l" using assms(2) happens(2) by (simp add: gateway_ok_def)
    then obtain f where "blocks_inv (fl_eligible l) (fl_hedgeable l) ?f f" by (auto simp: fan_ok_def)
    moreover have "\<forall>k \<in> set (fl_eligible l). callable orc (fw_world ?f) k" using l call by (auto simp: fan_ok_def asked_def)
    moreover have "\<forall>order. ev = Poll order \<longrightarrow> distinct order \<and> set order = c_ID ` set (fl_eligible l)"
      using happens(3) by (auto simp: possible_event_def)
    ultimately have step: "\<forall>k. callable orc (gw_world s) k \<longrightarrow> callable orc (fw_world ?f') k"
      "o_panicked (fw_world ?f') = o_panicked (gw_world s)" "\<exists>f'. blocks_inv (fl_eligible l) (fl_hedgeable l) ?f' f'"
      using run_event_blocks [where s' = ?f', OF _ _ _ _ refl] l by (auto simp: fan_ok_def)
    from step(3) l have "fan_ok orc (req g) (l\<lparr>fl_fan := ?f'\<rparr>)" by (simp add: fan_ok_def)
    with happens(1) step(1,2) show ?thesis
      by (intro upd [of s' g _ "gw_collected s g"]) (auto simp: fan_happens_def Let_def)
  next
    case (collects g l)
    then have "fan_ok orc (req g) l" using assms(2) by (simp add: gateway_ok_def)
    from proper_collection [OF this collects(3)] collects(1) show ?thesis
      by (intro upd [of s' g]) (auto simp: fan_collects_def Let_def)
  next
    case (saves g st out)
    then show ?thesis by (intro upd [of s' g _ "gw_collected s g"]) auto
  next
    case (returns g st out)
    then show ?thesis by (intro upd [of s' g _ "gw_collected s g"]) (auto split: if_splits)
  next
    case (gives g u v)
    then show ?thesis by (intro upd [of s' g _ "gw_collected s g"]) auto
  next
    case (tick d)
    with assms(2) show ?thesis by (simp add: gateway_ok_def callable_def)
  next
    case (sweep outcome)
    with assms(2) show ?thesis by (simp add: gateway_ok_def)
  qed
qed


lemma gw_init_ok:
  "logged req (gw_init n w t)"
  "table_ok t \<Longrightarrow> provenance req t (gw_init n w t)"
  "\<forall>k \<in> set (oc_carriers orc). callable orc w k \<Longrightarrow> \<not> o_panicked w \<Longrightarrow> gateway_ok orc req (gw_init n w t)"
proof -
  show l: "logged req (gw_init n w t)" by (simp add: gw_init_def logged_def)
  have "stored_quote t k c = Some q \<Longrightarrow> table_ok t \<Longrightarrow> res_CarrierID q = c" for k c q
    using spanner.stored_carrier by blast
  with l show "table_ok t \<Longrightarrow> provenance req t (gw_init n w t)"
    unfolding provenance_def by (auto simp: gw_init_def traced_def split: if_splits)
  show "\<forall>k \<in> set (oc_carriers orc). callable orc w k \<Longrightarrow> \<not> o_panicked w \<Longrightarrow> gateway_ok orc req (gw_init n w t)"
    by (simp add: gw_init_def gateway_ok_def)
qed

lemma gw_steps_logged:
  assumes "gw_steps orc repo sf ctxs req (gw_init n w t) s" shows "logged req s"
  using assms by induction (auto intro: gw_init_ok logged_step)

lemma gw_steps_provenance:
  assumes "gw_steps orc repo sf ctxs req (gw_init n w t) s" and "deduplicates sf" and "over_spanner repo" and "table_ok t"
  shows "provenance req t s"
  using assms(1) by induction (use assms(2-4) in \<open>auto intro: gw_init_ok provenance_step\<close>)

lemma gw_steps_gateway:
  assumes "gw_steps orc repo sf ctxs req (gw_init n w t) s"
    and "\<forall>k \<in> set (oc_carriers orc). callable orc w k" and "\<not> o_panicked w"
  shows "gateway_ok orc req s"
  using assms(1) by induction (use assms(2,3) in \<open>auto intro: gw_init_ok gateway_ok_step\<close>)

end
