(* ===== verification/RF_Gateway_Runs.thy ===== *)
theory RF_Gateway_Runs
  imports RF_Gateway_Quotes
begin

text \<open>
  Runs of concurrent requests: nobody waits for ever, one caller alone computes \<open>GetQuotes\<close>, and the properties
  of \<open>RF_Gateway\<close>.
\<close>

section \<open>Every caller is answered\<close>

text \<open>What is left to do: for a caller with \<open>m\<close> carriers configured, and for the first \<open>n\<close>.\<close>

fun left :: "nat \<Rightarrow> 'l caller \<Rightarrow> nat" where
  "left m Arrived = m + 8"
| "left m Missed = m + 7"
| "left m Waiting = m + 6"
| "left m (Starting c) = m + 5"
| "left m (Fanning l) = card ({..<length (fl_eligible l)} - fw_calls (fl_fan l)) + 4"
| "left m (Collected st out) = 3"
| "left m (Saved st out) = 2"
| "left m (FnEnded v) = 1"
| "left m (Answered v) = 0"

definition work :: "nat \<Rightarrow> nat \<Rightarrow> 'l gw \<Rightarrow> nat" where
  "work m n s = (\<Sum>g < n. left m (gw_pc s g))"

lemma work_upd:
  assumes "gw_pc s' = (gw_pc s)(g := p)"
  shows "left m p \<le> left m (gw_pc s g) \<Longrightarrow> work m n s' \<le> work m n s"
    and "g < n \<Longrightarrow> left m p < left m (gw_pc s g) \<Longrightarrow> work m n s' < work m n s"
proof -
  assume "left m p \<le> left m (gw_pc s g)"
  with assms show "work m n s' \<le> work m n s" unfolding work_def by (intro sum_mono) simp
next
  assume "g < n" "left m p < left m (gw_pc s g)"
  with assms show "work m n s' < work m n s"
    unfolding work_def by (intro sum_strict_mono_ex1) (auto intro: bexI [of _ g])
qed

lemma fan_starts_left:
  assumes "\<not> o_panicked (gw_world (fan_starts orc g q c s))"
  obtains p where "gw_pc (fan_starts orc g q c s) = (gw_pc s)(g := p)"
    and "left (length (oc_carriers orc)) p < left (length (oc_carriers orc)) (Starting c)"
proof (cases rule: fan_starts_cases [of orc g q c s])
  case none
  then show ?thesis
    by (intro that [of "if req_RequestID q \<noteq> [] then FnEnded (Inr []) else Answered (Inr [])"]) simp_all
next
  case (fan e hs p)
  have "length e \<le> length (oc_carriers orc)" unfolding fan(1) filterEligibleCarriers_eq by (rule length_filter_le)
  moreover obtain l where l: "fan_starts orc g q c s = moves g (Fanning l) s" "fl_eligible l = e"
    using fan(4) by (metis fan_locals.select_convs(3))
  moreover have "card ({..<length e} - fw_calls (fl_fan l)) \<le> length e"
    using card_mono [of "{..<length e}" "{..<length e} - fw_calls (fl_fan l)"] by simp
  ultimately show ?thesis by (intro that [of "Fanning l"]) simp_all
next
  case panic
  with assms show ?thesis by simp
qed

lemma work_step:
  assumes "gw_step orc repo sf ctxs req s s'"
  shows "work (length (oc_carriers orc)) n s' \<le> work (length (oc_carriers orc)) n s"
  using assms
proof cases
  case (starts g c)
  show ?thesis
  proof (cases rule: fan_starts_cases [of orc g "req g" c s])
    case panic
    with starts(1) show ?thesis by (simp add: work_def)
  next
    case none
    with starts show ?thesis by (intro work_upd(1) [of s' s g]) auto
  next
    case (fan e hs p)
    have "length e \<le> length (oc_carriers orc)" unfolding fan(1) filterEligibleCarriers_eq by (rule length_filter_le)
    with starts fan(4) show ?thesis
      by (intro work_upd(1) [of s' s g]) (auto simp: fan_world_init_def)
  qed
next
  case (happens g l ev)
  have "fw_calls (fl_fan l) \<subseteq> fw_calls (run_event orc (fl_ctx l) (fl_eligible l) (fl_hedgeable l) (fl_pending l) (req g) ev
      (enter_world (gw_world s) (fl_fan l)))"
    using run_event_calls [of "enter_world (gw_world s) (fl_fan l)"] by simp
  then have "card ({..<length (fl_eligible l)} - fw_calls (run_event orc (fl_ctx l) (fl_eligible l) (fl_hedgeable l)
      (fl_pending l) (req g) ev (enter_world (gw_world s) (fl_fan l)))) \<le> card ({..<length (fl_eligible l)} - fw_calls (fl_fan l))"
    by (intro card_mono) auto
  with happens(1,2) show ?thesis by (intro work_upd(1) [of s' s g]) (auto simp: fan_happens_def Let_def)
next
  case (hit g cached)
  then show ?thesis by (intro work_upd(1) [of s' s g]) (auto simp: fan_collects_def Let_def)
next
  case (miss g)
  then show ?thesis by (intro work_upd(1) [of s' s g]) (auto simp: fan_collects_def Let_def)
next
  case (calls_do g)
  then show ?thesis by (intro work_upd(1) [of s' s g]) (auto simp: fan_collects_def Let_def)
next
  case (leads g)
  then show ?thesis by (intro work_upd(1) [of s' s g]) (auto simp: fan_collects_def Let_def)
next
  case (collects g l)
  then show ?thesis by (intro work_upd(1) [of s' s g]) (auto simp: fan_collects_def Let_def)
next
  case (saves g st out)
  then show ?thesis by (intro work_upd(1) [of s' s g]) (auto simp: fan_collects_def Let_def)
next
  case (returns g st out)
  then show ?thesis by (intro work_upd(1) [of s' s g]) (auto simp: fan_collects_def Let_def)
next
  case (gives g u v)
  then show ?thesis by (intro work_upd(1) [of s' s g]) (auto simp: fan_collects_def Let_def)
qed (simp_all add: work_def)


definition works :: "nat \<Rightarrow> nat \<Rightarrow> 'l gw \<Rightarrow> 'l gw \<Rightarrow> bool" where
  "works m g s s' \<longleftrightarrow> (\<exists>p. gw_pc s' = (gw_pc s)(g := p) \<and> left m p < left m (gw_pc s g))"

lemma worksI: "gw_pc s' = (gw_pc s)(g := p) \<Longrightarrow> left m p < left m (gw_pc s g) \<Longrightarrow> works m g s s'"
  unfolding works_def by blast

lemma goes_onI:
  assumes "gw_step orc repo sf ctxs req s s'" and "gw_pc s' = (gw_pc s)(g := p)" and "left m p < left m (gw_pc s g)"
  shows "\<exists>s'. gw_step orc repo sf ctxs req s s' \<and> works m g s s'"
  using assms worksI by blast

lemma fan_goes_on:
  assumes "gw_pc s g = Fanning l"
  shows "\<exists>s'. gw_step orc repo sf ctxs req s s' \<and> works m g s s'"
proof (cases "{..<length (fl_eligible l)} \<subseteq> fw_calls (fl_fan l)")
  case True
  have "works m g s (fan_collects g l s)"
    by (rule worksI [where p = "Collected (fl_start l) (sort_results (collect (o_results (fw_world (fl_fan l)))))"])
      (simp_all add: fan_collects_def Let_def assms)
  with collects [OF assms True] show ?thesis by blast
next
  case False
  then obtain i where i: "i < length (fl_eligible l)" "i \<notin> fw_calls (fl_fan l)" by auto
  let ?s = "fan_happens orc g (req g) l (CallEnds i True) s"
  let ?f = "run_event orc (fl_ctx l) (fl_eligible l) (fl_hedgeable l) (fl_pending l) (req g) (CallEnds i True)
      (enter_world (gw_world s) (fl_fan l))"
  have "gw_step orc repo sf ctxs req s ?s" by (rule happens [OF assms]) (simp add: possible_event_def)
  moreover have "fw_calls ?f = insert i (fw_calls (fl_fan l))" using i by (simp add: in_world_def)
  then have "{..<length (fl_eligible l)} - fw_calls ?f \<subset> {..<length (fl_eligible l)} - fw_calls (fl_fan l)"
    using i by auto
  then have "card ({..<length (fl_eligible l)} - fw_calls ?f) < card ({..<length (fl_eligible l)} - fw_calls (fl_fan l))"
    by (intro psubset_card_mono) simp_all
  then have "works m g s ?s" using assms
    by (intro worksI [where p = "Fanning (l\<lparr>fl_fan := ?f\<rparr>)"]) (simp_all add: fan_happens_def Let_def)
  ultimately show ?thesis by blast
qed

text \<open>A caller that neither waits nor is done with its function can go on by itself.\<close>

lemma caller_goes_on:
  assumes "gateway_ok orc req s" and "gw_pc s g \<noteq> Waiting" and "\<forall>v. gw_pc s g \<noteq> Answered v" and "\<forall>v. gw_pc s g \<noteq> FnEnded v"
  shows "\<exists>s'. gw_step orc repo sf ctxs req s s' \<and> works (length (oc_carriers orc)) g s s'"
proof (cases "gw_pc s g")
  case Arrived
  show ?thesis
  proof (cases "\<exists>cached. lookup_cache repo (ctxs g) (req g) s = Inr (cached, True)")
    case True
    then obtain cached where "lookup_cache repo (ctxs g) (req g) s = Inr (cached, True)" by blast
    then show ?thesis
      by (intro goes_onI [OF hit [OF Arrived], where p = "Answered (Inr cached)"]) (simp_all add: Arrived)
  next
    case False
    then show ?thesis
      by (intro goes_onI [OF miss [OF Arrived], where p = "if req_RequestID (req g) \<noteq> [] then Missed else Starting (ctxs g)"])
        (simp_all add: Arrived)
  qed
next
  case Missed
  then show ?thesis by (intro goes_onI [OF calls_do, where p = "Waiting"]) simp_all
next
  case (Starting c)
  have "\<forall>k \<in> set (oc_carriers orc). callable orc (gw_world s) k" using assms(1) by (simp add: gateway_ok_def)
  note wired = callable_wired [OF this]
  have step: "gw_step orc repo sf ctxs req s (fan_starts orc g (req g) c s)" by (rule starts [OF Starting])
  then have "gateway_ok orc req (fan_starts orc g (req g) c s)" by (rule gateway_ok_step [OF _ assms(1)])
  then have "\<not> o_panicked (gw_world (fan_starts orc g (req g) c s))" by (simp add: gateway_ok_def)
  then obtain p where "gw_pc (fan_starts orc g (req g) c s) = (gw_pc s)(g := p)"
    "left (length (oc_carriers orc)) p < left (length (oc_carriers orc)) (gw_pc s g)"
    unfolding Starting by (rule fan_starts_left)
  with step worksI show ?thesis by blast
next
  case (Fanning l)
  then show ?thesis by (rule fan_goes_on)
next
  case (Collected st out)
  then show ?thesis by (intro goes_onI [OF saves, where p = "Saved st out"]) simp_all
next
  case (Saved st out)
  then show ?thesis by (intro goes_onI [OF returns, where p = "if req_RequestID (req g) \<noteq> [] then FnEnded (Inr out) else Answered (Inr out)"]) simp_all
qed (use assms(2-4) in simp_all)

text \<open>The caller whose function is in flight for a key goes on by itself.\<close>

lemma flight_goes_on:
  assumes "logged req s" and "gateway_ok orc req s" and "key_in_flight (gw_flights s) k"
  shows "\<exists>g s'. gw_step orc repo sf ctxs req s s' \<and> works (length (oc_carriers orc)) g s s'"
proof -
  obtain g where g: "Calls g k \<in> set (gw_flights s)" "Runs g \<in> set (gw_flights s)" "\<forall>v. Ends g v \<notin> set (gw_flights s)"
    using assms(3) by (auto simp: key_in_flight_iff)
  obtain es where es: "history_ok (req g) g (gw_pc s g) es"
    "\<And>e. event_of e = g \<Longrightarrow> e \<in> set es \<longleftrightarrow> e \<in> set (gw_flights s)" by (rule history_at [OF assms(1)]) blast
  have "Runs g \<in> set es" "\<forall>v. Ends g v \<notin> set es" using g es(2) by simp_all
  with es(1) have "gw_pc s g \<noteq> Waiting \<and> (\<forall>v. gw_pc s g \<noteq> Answered v) \<and> (\<forall>v. gw_pc s g \<noteq> FnEnded v)"
    by (cases "gw_pc s g") auto
  with caller_goes_on [OF assms(2)] show ?thesis by blast
qed

lemma someone_goes_on:
  assumes "logged req s" and "gateway_ok orc req s" and "deduplicates sf" and "serves sf"
    and "\<forall>v. gw_pc s g \<noteq> Answered v"
  shows "\<exists>g s'. gw_step orc repo sf ctxs req s s' \<and> works (length (oc_carriers orc)) g s s'"
proof (cases "gw_pc s g = Waiting \<or> (\<exists>v. gw_pc s g = FnEnded v)")
  case False
  with caller_goes_on [OF assms(2) _ assms(5)] show ?thesis by blast
next
  case True
  let ?h = "gw_flights s" and ?k = "scopedKey (req g)"
  show ?thesis
  proof (cases "key_in_flight ?h ?k")
    case True
    then show ?thesis by (rule flight_goes_on [OF assms(1,2)])
  next
    case False
    obtain es where es: "history_ok (req g) g (gw_pc s g) es"
      "\<And>e. event_of e = g \<Longrightarrow> e \<in> set es \<longleftrightarrow> e \<in> set ?h" by (rule history_at [OF assms(1)]) blast
    have "\<forall>g k k'. Calls g k \<in> set ?h \<longrightarrow> Calls g k' \<in> set ?h \<longrightarrow> k = k'" using called_key [OF assms(1)] by metis
    moreover have "Calls g ?k \<in> set es \<and> (\<forall>v. Gives g v \<notin> set es)"
      using \<open>gw_pc s g = Waiting \<or> (\<exists>v. gw_pc s g = FnEnded v)\<close> es(1) by (auto simp: in_fn_def)
    then have "g \<in> set (callers ?h ?k)" "\<not> list_ex (is_given g) ?h" using es(2) by (simp_all add: is_given_iff)
    ultimately obtain g' where g': "g' \<in> set (callers ?h ?k)" "\<not> list_ex (is_given g') ?h"
      "fg_runs sf ?h g' \<or> (\<exists>v. fg_gives sf ?h g' v)" using assms(4) False unfolding serves_def by blast
    obtain es' where es': "history_ok (req g') g' (gw_pc s g') es'"
      "\<And>e. event_of e = g' \<Longrightarrow> e \<in> set es' \<longleftrightarrow> e \<in> set ?h" by (rule history_at [OF assms(1)]) blast
    have c: "Calls g' ?k \<in> set es'" "\<forall>v. Gives g' v \<notin> set es'" using g'(1,2) es'(2) by (simp_all add: is_given_iff)
    show ?thesis
    proof (cases "gw_pc s g' = Waiting \<or> (\<exists>v. gw_pc s g' = FnEnded v)")
      case False
      then have "\<forall>v. gw_pc s g' \<noteq> Answered v" using es'(1) c by (cases "gw_pc s g'") auto
      with False caller_goes_on [OF assms(2)] show ?thesis by blast
    next
      case True
      have "fg_runs sf ?h g' \<Longrightarrow> gw_pc s g' = Waiting"
      proof -
        assume "fg_runs sf ?h g'"
        with assms(3) es'(2) have "Runs g' \<notin> set es'" by (simp add: deduplicates_def)
        with True es'(1) show "gw_pc s g' = Waiting" by (auto simp: in_fn_def)
      qed
      with g'(3) consider (runs) "gw_pc s g' = Waiting" "fg_runs sf ?h g'" | (gives) v where "fg_gives sf ?h g' v" by blast
      then show ?thesis
      proof cases
        case runs
        have "\<exists>s'. gw_step orc repo sf ctxs req s s' \<and> works (length (oc_carriers orc)) g' s s'"
          by (rule goes_onI [OF leads [OF runs], where p = "Starting (WithoutCancel (ctxs g'))"]) (simp_all add: runs(1))
        then show ?thesis by blast
      next
        case (gives v)
        from True obtain u where u: "gw_pc s g' = Waiting \<or> gw_pc s g' = FnEnded u" by blast
        have "works m g' s (log_flight (Gives g' v) (moves g' (Answered v) s))" for m
          using u by (intro worksI) auto
        with gw_step.gives [OF u gives] show ?thesis by blast
      qed
    qed
  qed
qed

lemma works_work: "works m g s s' \<Longrightarrow> g < n \<Longrightarrow> work m n s' < work m n s"
  unfolding works_def using work_upd(2) by metis

lemma idle_callers:
  assumes "gw_steps orc repo sf ctxs req (gw_init n w t) s"
  shows "g \<ge> n \<Longrightarrow> gw_pc s g = Answered (Inr [])"
  using assms
proof induction
  case none
  then show ?case by (simp add: gw_init_def)
next
  case (more s s')
  from more(2) show ?case
  proof cases
    case (starts g' c)
    with more(3,4) fan_starts_cases show ?thesis
      by (cases rule: fan_starts_cases [of orc g' "req g'" c s]) auto
  qed (use more(3,4) in \<open>auto simp: fan_happens_def fan_collects_def Let_def\<close>)
qed

lemma unanswered_goes_on:
  assumes "gw_steps orc repo sf ctxs req (gw_init n w t) s" and "deduplicates sf" and "serves sf"
    and "\<forall>k \<in> set (oc_carriers orc). callable orc w k" and "\<not> o_panicked w"
    and "\<forall>v. gw_pc s g \<noteq> Answered v"
  shows "\<exists>s'. gw_step orc repo sf ctxs req s s' \<and> work (length (oc_carriers orc)) n s' < work (length (oc_carriers orc)) n s"
proof -
  from someone_goes_on [OF gw_steps_logged [OF assms(1)] gw_steps_gateway [OF assms(1,4,5)] assms(2,3,6)]
  obtain h s' where h: "gw_step orc repo sf ctxs req s s'" "works (length (oc_carriers orc)) h s s'" by blast
  have "h < n"
  proof (rule ccontr)
    assume "\<not> h < n"
    then have "gw_pc s h = Answered (Inr [])" by (intro idle_callers [OF assms(1)]) simp
    with h(2) show False by (simp add: works_def)
  qed
  with h works_work show ?thesis by blast
qed

lemma all_answered:
  assumes "gw_steps orc repo sf ctxs req (gw_init n w t) s" and "deduplicates sf" and "serves sf"
    and "\<forall>k \<in> set (oc_carriers orc). callable orc w k" and "\<not> o_panicked w"
  shows "\<exists>s'. gw_steps orc repo sf ctxs req s s' \<and> (\<forall>g. \<exists>v. gw_pc s' g = Answered v)"
  using assms(1)
proof (induction "work (length (oc_carriers orc)) n s" arbitrary: s rule: less_induct)
  case less
  show ?case
  proof (cases "\<forall>g. \<exists>v. gw_pc s g = Answered v")
    case True
    then show ?thesis using gw_steps.none by blast
  next
    case False
    then obtain g where "\<forall>v. gw_pc s g \<noteq> Answered v" by blast
    from unanswered_goes_on [OF less(2) assms(2-5) this] obtain s1 where s1: "gw_step orc repo sf ctxs req s s1"
      "work (length (oc_carriers orc)) n s1 < work (length (oc_carriers orc)) n s" by blast
    from less(1) [OF s1(2) gw_steps.more [OF less(2) s1(1)]] obtain s' where
      "gw_steps orc repo sf ctxs req s1 s'" "\<forall>g. \<exists>v. gw_pc s' g = Answered v" by blast
    moreover have "gw_steps orc repo sf ctxs req a c" if "gw_steps orc repo sf ctxs req b c" "gw_step orc repo sf ctxs req a b" for a b c
      using that by induction (auto intro: gw_steps.intros)
    ultimately show ?thesis using s1(1) by blast
  qed
qed

lemma gw_work_init: "work m n (gw_init n w t) = n * (m + 8)"
  by (simp add: work_def gw_init_def)


section \<open>One caller alone\<close>

lemma enter_own_world: "gw_world s = (fw_world f)\<lparr>o_results := rs\<rparr> \<Longrightarrow> enter_world (gw_world s) f = f"
  by (simp add: enter_world_def in_world_def)

lemma lone_starts:
  assumes "\<forall>cached. lookup_cache repo (ctxs 0) (req 0) s \<noteq> Inr (cached, True)" and "req_RequestID (req 0) \<noteq> []"
    and "gw_pc s 0 = Arrived" and "gw_flights s = []" and "gw_steps orc repo flight_example ctxs req s0 s"
  shows "\<exists>s'. gw_steps orc repo flight_example ctxs req s0 s' \<and> gw_world s' = gw_world s \<and> gw_table s' = gw_table s \<and>
    gw_pc s' = (gw_pc s)(0 := Starting (WithoutCancel (ctxs 0))) \<and> gw_flights s' = [Calls 0 (scopedKey (req 0)), Runs 0]"
proof -
  let ?step = "gw_step orc repo flight_example ctxs req"
  let ?s1 = "moves 0 Missed s"
  let ?s2 = "log_flight (Calls 0 (scopedKey (req 0))) (moves 0 Waiting ?s1)"
  let ?s3 = "log_flight (Runs 0) (moves 0 (Starting (WithoutCancel (ctxs 0))) ?s2)"
  have "?step s ?s1"
    using miss [where g = 0 and orc = orc and sf = flight_example and req = req and ctxs = ctxs, OF assms(3,1)] assms(2) by simp
  moreover have "?step ?s1 ?s2" by (rule calls_do) simp
  moreover have "?step ?s2 ?s3"
    by (rule leads) (simp_all add: assms(4) flight_example_def shared_values_def key_in_flight_iff)
  ultimately have "gw_steps orc repo flight_example ctxs req s0 ?s3" by (meson gw_steps.more assms(5))
  then show ?thesis by (intro exI [of _ ?s3] conjI) (simp_all add: assms(4))
qed

lemma lone_events:
  assumes "gw_steps orc repo sf ctxs req s0 s" and "gw_pc s g = Fanning l" and "gw_world s = (fw_world (fl_fan l))\<lparr>o_results := []\<rparr>"
    and "\<forall>ev \<in> set evs. possible_event (fl_eligible l) ev"
    and "f = fold (run_event orc (fl_ctx l) (fl_eligible l) (fl_hedgeable l) (fl_pending l) (req g)) evs (fl_fan l)"
  shows "\<exists>s'. gw_steps orc repo sf ctxs req s0 s' \<and> gw_pc s' g = Fanning (l\<lparr>fl_fan := f\<rparr>) \<and>
    gw_world s' = (fw_world f)\<lparr>o_results := []\<rparr> \<and> gw_table s' = gw_table s \<and> gw_flights s' = gw_flights s"
  using assms
proof (induction evs arbitrary: s l)
  case Nil
  then show ?case by (intro exI [of _ s]) simp
next
  case (Cons ev evs)
  let ?f = "run_event orc (fl_ctx l) (fl_eligible l) (fl_hedgeable l) (fl_pending l) (req g) ev (fl_fan l)"
  let ?l = "l\<lparr>fl_fan := ?f\<rparr>" and ?s = "fan_happens orc g (req g) l ev s"
  have "gw_step orc repo sf ctxs req s ?s" by (rule happens [OF Cons.prems(2)]) (use Cons.prems(4) in simp)
  from gw_steps.more [OF Cons.prems(1) this] have steps: "gw_steps orc repo sf ctxs req s0 ?s" .
  have s: "gw_pc ?s g = Fanning ?l" "gw_world ?s = (fw_world (fl_fan ?l))\<lparr>o_results := []\<rparr>" "gw_table ?s = gw_table s"
    "gw_flights ?s = gw_flights s"
    by (simp_all add: fan_happens_def Let_def enter_own_world [OF Cons.prems(3)])
  from Cons.IH [OF steps s(1,2)] Cons.prems(4,5) s show ?case by simp
qed

lemma lone_gives:
  assumes "gw_steps orc repo flight_example ctxs req s0 s" and "gw_pc s 0 = FnEnded v"
    and "gw_flights s = [Calls 0 k, Runs 0, Ends 0 v]"
  shows "\<exists>s'. gw_steps orc repo flight_example ctxs req s0 s' \<and> gw_pc s' 0 = Answered v \<and>
    gw_world s' = gw_world s \<and> gw_table s' = gw_table s"
proof -
  have "gw_pc s 0 = Waiting \<or> gw_pc s 0 = FnEnded v" using assms(2) by blast
  from gives [OF this, of flight_example v orc repo ctxs req] assms(3)
  have "gw_step orc repo flight_example ctxs req s (log_flight (Gives 0 v) (moves 0 (Answered v) s))"
    by (simp add: flight_example_def)
  from gw_steps.more [OF assms(1) this] show ?thesis
    by (intro exI [of _ "log_flight (Gives 0 v) (moves 0 (Answered v) s)"]) simp
qed

lemma emit_results: "emit e (w\<lparr>o_results := rs\<rparr>) = (emit e w)\<lparr>o_results := rs\<rparr>"
  by (cases w) (simp add: emit_def)

lemma lone_fan_out:
  assumes "gw_steps orc repo flight_example ctxs req s0 s" and "gw_pc s 0 = Starting c" and "wired orc (gw_world s)"
    and "gw_flights s = [Calls 0 (scopedKey (req 0)), Runs 0]" and "req_RequestID (req 0) \<noteq> []"
    and "complete (filterEligibleCarriers (oc_carriers orc) (o_breakers (gw_world s)) (req_CoverageLines (req 0))) sched"
    and "fanOut orc repo (run_schedule orc sched) c (req 0) (gw_world s, gw_table s) = (v, (w', t'))"
    and "o_results (gw_world s) = []"
  shows "\<exists>s'. gw_steps orc repo flight_example ctxs req s0 s' \<and> gw_pc s' 0 = Answered v \<and>
    gw_world s' = w'\<lparr>o_results := []\<rparr> \<and> gw_table s' = t'"
proof -
  let ?steps = "gw_steps orc repo flight_example ctxs req s0" and ?w = "gw_world s"
  let ?e = "filterEligibleCarriers (oc_carriers orc) (o_breakers ?w) (req_CoverageLines (req 0))"
  let ?s1 = "fan_starts orc 0 (req 0) c s"
  have s1: "?steps ?s1" by (rule gw_steps.more [OF assms(1) starts [OF assms(2)]])
  have none: "x\<lparr>o_results := []\<rparr> = x" if "o_results x = []" for x :: "'a orch" using that by simp
  note id [simp] = none [OF assms(8)]
  show ?thesis
  proof (cases "?e = []")
    case True
    let ?w1 = "emit (RecordFanOutDuration 0) ?w"
    from True assms(7) have r: "v = Inr []" "w' = ?w1" "t' = gw_table s" by (auto simp: fanOut_def Let_def)
    have e: "gw_pc ?s1 0 = FnEnded v" "gw_flights ?s1 = [Calls 0 (scopedKey (req 0)), Runs 0, Ends 0 v]"
      and f: "gw_world ?s1 = ?w1" "gw_table ?s1 = gw_table s"
      using True assms(4,5) r by (simp_all add: fan_starts_def Let_def)
    have "o_results ?w1 = []" using assms(8) by simp
    from none [OF this] lone_gives [OF s1 e] r f show ?thesis by metis
  next
    case False
    from wired_eligible [OF assms(3)] obtain hs p where
      b: "build_hedgeable orc ?w ?e = Some hs" "build_pending ?w ?e Map.empty = Some p" by blast
    define l where "l = \<lparr>fl_start = w_now ?w, fl_ctx = WithTimeout c (w_now ?w) (request_timeout (req 0)), fl_eligible = ?e,
      fl_hedgeable = hs, fl_pending = p, fl_fan = fan_world_init (?w\<lparr>o_results := []\<rparr>)\<rparr>"
    define f where "f = fold (run_event orc (fl_ctx l) (fl_eligible l) (fl_hedgeable l) (fl_pending l) (req 0)) sched (fl_fan l)"
    define out where "out = sort_results (collect (o_results (fw_world f)))"
    have "?s1 = moves 0 (Fanning l) s" using False b by (simp add: fan_starts_def l_def Let_def)
    then have f0: "gw_pc ?s1 0 = Fanning l" "gw_world ?s1 = (fw_world (fl_fan l))\<lparr>o_results := []\<rparr>"
      "gw_table ?s1 = gw_table s" "gw_flights ?s1 = gw_flights s"
      by (simp_all add: l_def fan_world_init_def monitor_init_def)
    have "\<forall>ev \<in> set sched. possible_event (fl_eligible l) ev"
      using assms(6) by (auto simp: complete_def possible_event_def l_def split: fan_event.split)
    from lone_events [OF s1 f0(1,2) this f_def] obtain s2 where s2: "?steps s2" "gw_pc s2 0 = Fanning (l\<lparr>fl_fan := f\<rparr>)"
      "gw_world s2 = (fw_world f)\<lparr>o_results := []\<rparr>" "gw_table s2 = gw_table s" "gw_flights s2 = gw_flights s"
      using f0(3,4) by auto
    have "{..<length ?e} \<subseteq> fw_calls f"
      using assms(6) run_events_calls [of _ _ sched ?e] unfolding f_def l_def complete_def by fastforce
    then have "{..<length (fl_eligible (l\<lparr>fl_fan := f\<rparr>))} \<subseteq> fw_calls (fl_fan (l\<lparr>fl_fan := f\<rparr>))" by (simp add: l_def)
    let ?s3 = "fan_collects 0 (l\<lparr>fl_fan := f\<rparr>) s2"
    let ?t = "save_collected repo (req 0) out (w_now (fw_world f)) (gw_table s)"
    let ?s4 = "moves 0 (Saved (w_now ?w) out) (?s3\<lparr>gw_table := ?t\<rparr>)"
    let ?s5 = "fan_returns 0 (req 0) (w_now ?w) out ?s4"
    have s3: "?steps ?s3" by (rule gw_steps.more [OF s2(1) collects [OF s2(2)]]) fact
    have c3: "gw_pc ?s3 0 = Collected (w_now ?w) out" "gw_world ?s3 = gw_world s2" "gw_table ?s3 = gw_table s"
      "gw_flights ?s3 = gw_flights s"
      using s2 by (simp_all add: fan_collects_def Let_def out_def l_def)
    have s4: "?steps ?s4"
      using gw_steps.more [OF s3 saves [OF c3(1)]] c3 s2(3) by simp
    have s5: "?steps ?s5" by (rule gw_steps.more [OF s4 returns]) simp
    have e5: "gw_pc ?s5 0 = FnEnded (Inr out)" "gw_flights ?s5 = [Calls 0 (scopedKey (req 0)), Runs 0, Ends 0 (Inr out)]"
      using assms(4,5) c3(4) by simp_all
    have w1: "run_schedule orc sched (fl_ctx l) ?e hs p (req 0) (?w\<lparr>o_results := []\<rparr>) = fw_world f"
      by (simp add: run_schedule_def f_def l_def)
    have "v = Inr out" "t' = ?t" "w' = emit (RecordFanOutDuration (time_sub (w_now (fw_world f)) (w_now ?w))) (fw_world f)"
      using assms(7) False b w1 [unfolded l_def fan_locals.simps]
      by (auto simp: fanOut_def Let_def out_def)
    with lone_gives [OF s5 e5] c3(2) s2(3) show ?thesis by (simp add: emit_results)
  qed
qed


lemma lone_caller:
  assumes "wired orc w" and "o_results w = []" and "req_RequestID (req 0) \<noteq> []"
    and "complete (filterEligibleCarriers (oc_carriers orc) (o_breakers w) (req_CoverageLines (req 0))) sched"
    and "GetQuotes orc repo (run_schedule orc sched) solo_flight (ctxs 0) (req 0) (w, t) = (v, (w', t'))"
  shows "\<exists>s. gw_steps orc repo flight_example ctxs req (gw_init 1 w t) s \<and> gw_pc s 0 = Answered v \<and>
    gw_world s = w'\<lparr>o_results := []\<rparr> \<and> gw_table s = t'"
proof (cases "\<exists>cached. lookup_cache repo (ctxs 0) (req 0) (gw_init 1 w t) = Inr (cached, True)")
  case True
  then obtain cached where hit: "lookup_cache repo (ctxs 0) (req 0) (gw_init 1 w t) = Inr (cached, True)" by blast
  then obtain ops where "repo = Some ops" "rp_find ops (ctxs 0) (scopedKey (req 0)) (w_now w) t = Inr (cached, True)"
    using assms(3) by (auto simp: lookup_cache_def gw_init_def split: option.splits)
  with assms(3,5) have "v = Inr cached" "w' = w" "t' = t" by (auto simp: GetQuotes_def)
  moreover have "gw_step orc repo flight_example ctxs req (gw_init 1 w t) (moves 0 (Answered (Inr cached)) (gw_init 1 w t))"
    by (rule gw_step.hit) (simp add: gw_init_def, rule hit)
  ultimately show ?thesis
    using gw_steps.more [OF gw_steps.none] assms(2)
    by (intro exI [of _ "moves 0 (Answered (Inr cached)) (gw_init 1 w t)"]) (simp add: gw_init_def)
next
  case False
  then have miss: "\<forall>cached. lookup_cache repo (ctxs 0) (req 0) (gw_init 1 w t) \<noteq> Inr (cached, True)" by blast
  then have "repo = None \<or> req_RequestID (req 0) = [] \<or> (\<exists>ops. repo = Some ops \<and>
      (\<forall>cached. rp_find ops (ctxs 0) (scopedKey (req 0)) (w_now w) t \<noteq> Inr (cached, True)))"
    using assms(3) by (cases repo) (auto simp: lookup_cache_def gw_init_def)
  from GetQuotes_miss [OF leads_solo_flight this] assms(3,5)
  have f: "fanOut orc repo (run_schedule orc sched) (WithoutCancel (ctxs 0)) (req 0) (w, t) = (v, (w', t'))" by simp
  obtain s where s: "gw_steps orc repo flight_example ctxs req (gw_init 1 w t) s" "gw_pc s 0 = Starting (WithoutCancel (ctxs 0))"
    "gw_world s = w" "gw_table s = t" "gw_flights s = [Calls 0 (scopedKey (req 0)), Runs 0]"
    using lone_starts [where orc = orc and ctxs = ctxs and req = req, OF miss assms(3) _ _ gw_steps.none] by (auto simp: gw_init_def)
  show ?thesis
    by (rule lone_fan_out [OF s(1,2) _ s(5) assms(3)]) (use s(3,4) assms(1,2,4) f in simp_all)
qed

lemma flights_example_ok:
  "\<forall>k \<in> set (oc_carriers orch_example). callable orch_example orch_world_example k"
  "\<not> o_panicked orch_world_example" "o_results orch_world_example = []" "table_ok []" "over_spanner None"
proof -
  have "timely_adapter (RegisterMockCarrier NewAlpha draws_example :: unit orch_ext1 AdapterFunc) ''alpha''"
    using mock.timely_adapter_axioms [of NewAlpha draws_example] by (simp add: NewAlpha_def)
  then show "\<forall>k \<in> set (oc_carriers orch_example). callable orch_example orch_world_example k"
    using breaker_inv_example
    by (simp add: callable_def orch_example_def orch_world_example_def alpha_carrier_def carrier_named_def)
qed (simp_all add: orch_world_example_def table_ok_def over_spanner_def)

lemma example_alpha_quotes:
  "\<exists>q. o_results (callCarrier orch_example True (WithTimeout Background 0 defaultRequestTimeout) alpha_carrier
      quote_request_example orch_world_example) = [q] \<and> res_CarrierID q = ''alpha''"
proof -
  have [simp]: "c_ID alpha_carrier = ''alpha''" "m_id NewAlpha = ''alpha''"
    by (simp_all add: alpha_carrier_def carrier_named_def NewAlpha_def)
  have l: "mock_latency NewAlpha draws_example = 40000000"
    by (simp add: mock_latency_def NewAlpha_def draws_example_def Millisecond_def wrap64_id is_int64_def int64_min_def int64_max_def)
  have s: "select_timer tie (WithTimeout Background 0 defaultRequestTimeout) 40000000 3 = (False, 40000003)" for tie
    by (simp add: select_timer_def WithTimeout_def Background_def defaultRequestTimeout_def Second_def Millisecond_def)
  have f: "mc_FailureRate (m_cfg NewAlpha) = 0" by (simp add: NewAlpha_def)
  show ?thesis
    by (simp add: callCarrier_def orch_example_def orch_world_example_def Registry_Get_def Wait_limiter_def Execute_def
        executeClosed_def new_breaker_example_def New_breaker_def guarded_exec_def RegisterMockCarrier_unfold l s f
        Record_def Let_def)
qed

abbreviation alpha_schedule :: "unit fan_run_fn" where
  "alpha_schedule \<equiv> run_schedule orch_example [CallEnds 0 True]"

lemma example_fan_out:
  "req_RequestID quote_request_example \<noteq> []"
  "complete (filterEligibleCarriers (oc_carriers orch_example) (o_breakers orch_world_example)
     (req_CoverageLines quote_request_example)) [CallEnds 0 True]"
  "\<exists>q. fst (GetQuotes orch_example None alpha_schedule solo_flight Background quote_request_example
     (orch_world_example, t)) = Inr [q] \<and> res_CarrierID q = ''alpha''"
proof -
  have e: "[alpha_carrier] = filterEligibleCarriers (oc_carriers orch_example) (o_breakers orch_world_example)
      (req_CoverageLines quote_request_example)"
    using eligible_carriers_example by (simp add: quote_request_example_def)
  show r: "req_RequestID quote_request_example \<noteq> []" by (simp add: quote_request_example_def)
  show "complete (filterEligibleCarriers (oc_carriers orch_example) (o_breakers orch_world_example)
     (req_CoverageLines quote_request_example)) [CallEnds 0 True]"
    using calls_complete [of "[alpha_carrier]" True] by (simp flip: e)
  obtain hs p w1 where w1: "w1 = alpha_schedule (WithTimeout Background (w_now orch_world_example) (request_timeout quote_request_example))
      [alpha_carrier] hs p quote_request_example (orch_world_example\<lparr>o_results := []\<rparr>)"
    and f: "fst (fanOut orch_example None alpha_schedule Background quote_request_example (orch_world_example, t)) =
      Inr (sort_results (collect (o_results w1)))"
    by (rule fanOut_wired [where run = alpha_schedule and c = Background and repo = None and r = t, OF example_wired e]) auto
  have "w_now orch_world_example = 0" "orch_world_example\<lparr>o_results := []\<rparr> = orch_world_example"
    "request_timeout quote_request_example = defaultRequestTimeout"
    by (simp_all add: orch_world_example_def request_timeout_def quote_request_example_def)
  with w1 have "o_results w1 = o_results (callCarrier orch_example True (WithTimeout Background 0 defaultRequestTimeout) alpha_carrier
      quote_request_example orch_world_example)"
    by (simp add: run_schedule_def fan_world_init_def monitor_init_def in_world_def)
  with example_alpha_quotes obtain q where "o_results w1 = [q]" "res_CarrierID q = ''alpha''" by auto
  with f GetQuotes_miss [OF leads_solo_flight, of None quote_request_example Background orch_world_example t orch_example alpha_schedule]
  show "\<exists>q. fst (GetQuotes orch_example None alpha_schedule solo_flight Background quote_request_example
     (orch_world_example, t)) = Inr [q] \<and> res_CarrierID q = ''alpha''"
    using r by (simp add: WithoutCancel_def collect_def sort_results_def)
qed

lemma lone_example:
  obtains s q where "gw_steps orch_example None flight_example (\<lambda>_. Background) (\<lambda>_. quote_request_example)
      (gw_init 1 orch_world_example []) s" and "gw_pc s 0 = Answered (Inr [q])" and "res_CarrierID q = ''alpha''"
proof -
  let ?G = "GetQuotes orch_example None alpha_schedule solo_flight Background quote_request_example
      (orch_world_example, [] :: quotes_table)"
  obtain v w' t' where G: "?G = (v, (w', t'))" by (metis prod_cases3)
  from lone_caller [where req = "\<lambda>_. quote_request_example" and ctxs = "\<lambda>_. Background",
      OF example_wired flights_example_ok(3) example_fan_out(1,2) G] G example_fan_out(3) [of "[] :: quotes_table"] that
  show ?thesis by auto
qed

text \<open>
  A caller that shares a flight waits as long as the flight takes: neither its own context nor the timeout of
  its own request ends the wait.
\<close>

lemma follower_outwaits_its_timeout:
  assumes "req_RequestID (req 0) \<noteq> []" and "req_RequestID (req 1) \<noteq> []"
  shows "\<exists>s. gw_steps orc None flight_example ctxs req (gw_init 2 w t) s \<and> gw_pc s 1 = Waiting \<and>
    w_now (gw_world s) = w_now w + int d"
proof -
  let ?s0 = "gw_init 2 w t" and ?steps = "gw_steps orc None flight_example ctxs req (gw_init 2 w t)"
  have miss: "\<forall>cached. lookup_cache None c q s \<noteq> Inr (cached, True)" for c q and s :: "'a gw"
    by (simp add: lookup_cache_def)
  have "gw_pc ?s0 0 = Arrived" "gw_flights ?s0 = []" by (simp_all add: gw_init_def)
  from lone_starts [where req = req and ctxs = ctxs and orc = orc, OF miss assms(1) this gw_steps.none]
  obtain s where s: "?steps s" "gw_world s = gw_world ?s0" "gw_pc s = (gw_pc ?s0)(0 := Starting (WithoutCancel (ctxs 0)))"
    by blast
  then have s: "?steps s" "gw_world s = w" "gw_pc s 1 = Arrived" by (simp_all add: gw_init_def)
  let ?s1 = "moves 1 Missed s" and ?k = "scopedKey (req 1)"
  let ?s2 = "log_flight (Calls 1 ?k) (moves 1 Waiting ?s1)"
  let ?s3 = "?s2\<lparr>gw_world := (gw_world ?s2)\<lparr>w_now := w_now (gw_world ?s2) + int d\<rparr>\<rparr>"
  have "gw_step orc None flight_example ctxs req s ?s1"
    using gw_step.miss [where g = 1 and orc = orc and sf = flight_example and req = req and ctxs = ctxs, OF s(3) miss] assms(2) by simp
  then have "?steps ?s1" by (rule gw_steps.more [OF s(1)])
  moreover have "gw_step orc None flight_example ctxs req ?s1 ?s2" by (rule calls_do) simp
  ultimately have "?steps ?s2" by (rule gw_steps.more)
  then have "?steps ?s3" by (rule gw_steps.more) (rule tick)
  then show ?thesis using s(2) by (intro exI [of _ ?s3]) simp
qed

lemma isolated_answers:
  assumes "gw_steps orc repo sf ctxs req (gw_init n w t) s" and "deduplicates sf" and "over_spanner repo" and "table_ok t"
    and "\<forall>k \<in> set (oc_carriers orc). callable orc w k" and "\<not> o_panicked w"
    and "\<forall>g. req_ClientID (req g) \<noteq> [] \<and> CHR '':'' \<notin> set (req_ClientID (req g))"
    and "gw_pc s g = Answered v"
  shows "\<exists>out. v = Inr out \<and> (\<forall>q \<in> set out.
    stored_quote t (scopedKey (req g)) (res_CarrierID q) = Some q \<or>
    (\<exists>g' out'. req_ClientID (req g') = req_ClientID (req g) \<and> req_RequestID (req g') = req_RequestID (req g) \<and>
       gw_collected s g' = Some out' \<and> proper_answer orc (req g') out' \<and>
       (q \<in> set out' \<or> q \<in> as_stored (scopedKey (req g)) ` set out')))"
proof -
  have p: "provenance req t s" by (rule gw_steps_provenance [OF assms(1-4)])
  have ok: "gateway_ok orc req s" by (rule gw_steps_gateway [OF assms(1,5,6)])
  from p assms(8) obtain out where out: "v = Inr out" "\<forall>q \<in> set out. traced req t s (scopedKey (req g)) q"
    unfolding provenance_def by blast
  have keys: "scopedKey (req g') = scopedKey (req g) \<Longrightarrow>
      req_ClientID (req g') = req_ClientID (req g) \<and> req_RequestID (req g') = req_RequestID (req g)" for g'
    using append_colon_inj [of "req_ClientID (req g')" "req_ClientID (req g)"] assms(7) by (simp add: scopedKey_def)
  have "gw_collected s g' = Some out' \<Longrightarrow> proper_answer orc (req g') out'" for g' out'
    using ok by (simp add: gateway_ok_def)
  with out keys show ?thesis unfolding traced_def by (intro exI [of _ out] conjI ballI) (assumption, metis)
qed

section \<open>Properties\<close>



text \<open>C14. Every request is answered: with carriers whose calls can be made and a group that serves its
  callers, from every reachable state all callers can be answered, and as long as one is not, a step is
  possible that leaves less to do; what is left for \<open>n\<close> callers is at most \<open>n\<close> times the number of carriers
  and eight more, and no step adds to it.\<close>

theorem concurrent_requests_answered:
  assumes "gw_steps orc repo sf ctxs req (gw_init n w t) s" and "deduplicates sf" and "serves sf"
    and "\<forall>k \<in> set (oc_carriers orc). callable orc w k" and "\<not> o_panicked w" and "m = length (oc_carriers orc)"
  shows "(\<exists>s'. gw_steps orc repo sf ctxs req s s' \<and> (\<forall>g. \<exists>v. gw_pc s' g = Answered v)) \<and>
    ((\<exists>g. \<forall>v. gw_pc s g \<noteq> Answered v) \<longrightarrow> (\<exists>s'. gw_step orc repo sf ctxs req s s' \<and> work m n s' < work m n s)) \<and>
    work m n s \<le> n * (m + 8) \<and> (\<forall>s'. gw_step orc repo sf ctxs req s s' \<longrightarrow> work m n s' \<le> work m n s)"
proof (intro conjI)
  show "\<exists>s'. gw_steps orc repo sf ctxs req s s' \<and> (\<forall>g. \<exists>v. gw_pc s' g = Answered v)"
    by (rule all_answered [OF assms(1-5)])
  show "(\<exists>g. \<forall>v. gw_pc s g \<noteq> Answered v) \<longrightarrow> (\<exists>s'. gw_step orc repo sf ctxs req s s' \<and> work m n s' < work m n s)"
    using unanswered_goes_on [OF assms(1-5)] assms(6) by blast
  show "\<forall>s'. gw_step orc repo sf ctxs req s s' \<longrightarrow> work m n s' \<le> work m n s"
    using work_step assms(6) by blast
  from assms(1) show "work m n s \<le> n * (m + 8)"
  proof induction
    case (more s s')
    from work_step [OF more(2)] more(3) assms(6) show ?case using le_trans by blast
  qed (simp add: gw_work_init)
qed

theorem concurrent_requests_answered_witness:
  "\<exists>s'. gw_steps orch_example None flight_example (\<lambda>_. Background) (\<lambda>_. quote_request_example)
      (gw_init 2 orch_world_example []) s' \<and> (\<forall>g. \<exists>v. gw_pc s' g = Answered v)"
  by (rule concurrent_requests_answered [OF gw_steps.none deduplicates_example serves_example flights_example_ok(1,2) refl,
        THEN conjunct1])



end
