(* ===== verification/RF_Service_Concurrent.thy ===== *)
theory RF_Service_Concurrent
  imports RF_Service RF_Gateway_Runs
begin

text \<open>
  Concurrent requests at the gateway that \<open>Run\<close> of \<open>internal/cli/run.go\<close> has set up: the steps of
  \<open>RF_Gateway\<close> over the orchestrator of \<open>RF_Wiring\<close>, for requests with the identifiers that
  \<open>RequireAPIKey\<close> of \<open>internal/middleware/auth.go\<close> gives the holders of its keys.
\<close>

section \<open>Requests of key holders\<close>

lemma key_id_clean: "CHR '':'' \<notin> set k \<Longrightarrow> CHR '':'' \<notin> set (key_id k)"
  by (auto simp: key_id_def dest: in_set_takeD)

lemma key_id_nonempty: "k \<noteq> [] \<Longrightarrow> key_id k \<noteq> []"
  by (auto simp: key_id_def)

text \<open>A successful start leaves a gateway on which the calls of all carriers can be made.\<close>

lemma startup_callable:
  assumes "Run_setup rwait allow newLimiter draw now getenv spanner = Inr sv"
    and "\<And>dbCarriers. spanner = Inr (Inr dbCarriers) \<Longrightarrow> list_all plausible dbCarriers"
  shows "(\<forall>k \<in> set (oc_carriers (sr_orch sv)). callable (sr_orch sv) (sr_world sv) k) \<and> \<not> o_panicked (sr_world sv)"
  using startup_facts [OF assms] ready_callable [of "sr_orch sv" "sr_world sv"] by blast

section \<open>Properties\<close>



end
