(* ===== verification/RF_Concurrency.thy ===== *)
theory RF_Concurrency
  imports RF_Middleware
begin

text \<open>
  \<open>LimitConcurrency\<close> of \<open>internal/middleware/concurrency.go\<close> under concurrent requests: a step
  relation whose steps are the two uses of the semaphore channel, with the same \<open>try_send\<close> and
  \<open>recv\<close> as the sequential handler.
\<close>

section \<open>Requests in flight\<close>

datatype flight_phase = Arriving | Serving | Served | Refused

record pool =
  p_sem :: nat
  p_phase :: "nat \<Rightarrow> flight_phase"

definition pool_init :: pool where
  "pool_init = \<lparr>p_sem = 0, p_phase = (\<lambda>i. Arriving)\<rparr>"

inductive pool_step :: "nat \<Rightarrow> pool \<Rightarrow> pool \<Rightarrow> bool" for cap where
  admit: "p_phase p i = Arriving \<Longrightarrow> try_send cap (p_sem p) = Some n \<Longrightarrow>
    pool_step cap p \<lparr>p_sem = n, p_phase = (p_phase p)(i := Serving)\<rparr>"
| refuse: "p_phase p i = Arriving \<Longrightarrow> try_send cap (p_sem p) = None \<Longrightarrow>
    pool_step cap p \<lparr>p_sem = p_sem p, p_phase = (p_phase p)(i := Refused)\<rparr>"
| leave: "p_phase p i = Serving \<Longrightarrow> recv (p_sem p) = Some n \<Longrightarrow>
    pool_step cap p \<lparr>p_sem = n, p_phase = (p_phase p)(i := Served)\<rparr>"

inductive pool_reachable :: "nat \<Rightarrow> pool \<Rightarrow> bool" for cap where
  start: "pool_reachable cap pool_init"
| step: "pool_reachable cap p \<Longrightarrow> pool_step cap p p' \<Longrightarrow> pool_reachable cap p'"

inductive_cases pool_stepE: "pool_step cap p p'"

definition serving :: "pool \<Rightarrow> nat set" where
  "serving p = {i. p_phase p i = Serving}"

section \<open>The semaphore counts the requests being served\<close>

definition pool_inv :: "nat \<Rightarrow> pool \<Rightarrow> bool" where
  "pool_inv cap p \<longleftrightarrow> finite (serving p) \<and> card (serving p) = p_sem p \<and> p_sem p \<le> cap"

lemma serving_upd:
  "serving \<lparr>p_sem = n, p_phase = (p_phase p)(i := ph)\<rparr> =
     (if ph = Serving then insert i (serving p) else serving p - {i})"
  by (auto simp: serving_def)

lemma pool_inv_step: "pool_step cap p p' \<Longrightarrow> pool_inv cap p \<Longrightarrow> pool_inv cap p'"
proof (erule pool_stepE)
  fix i n
  assume inv: "pool_inv cap p" and "p_phase p i = Arriving" "try_send cap (p_sem p) = Some n"
    and p': "p' = \<lparr>p_sem = n, p_phase = (p_phase p)(i := Serving)\<rparr>"
  then have "i \<notin> serving p" "n = p_sem p + 1" "p_sem p < cap"
    by (auto simp: serving_def try_send_def split: if_splits)
  with inv p' show "pool_inv cap p'" by (simp add: pool_inv_def serving_upd)
next
  fix i
  assume inv: "pool_inv cap p" and "p_phase p i = Arriving"
    and p': "p' = \<lparr>p_sem = p_sem p, p_phase = (p_phase p)(i := Refused)\<rparr>"
  then have "i \<notin> serving p" by (simp add: serving_def)
  with inv p' show "pool_inv cap p'" by (simp add: pool_inv_def serving_upd)
next
  fix i n
  assume inv: "pool_inv cap p" and "p_phase p i = Serving" "recv (p_sem p) = Some n"
    and p': "p' = \<lparr>p_sem = n, p_phase = (p_phase p)(i := Served)\<rparr>"
  then have "i \<in> serving p" "n = p_sem p - 1"
    by (auto simp: serving_def recv_def split: if_splits)
  with inv p' show "pool_inv cap p'" by (auto simp: pool_inv_def serving_upd)
qed

lemma pool_inv_init: "pool_inv cap pool_init"
  by (simp add: pool_init_def pool_inv_def serving_def)

lemma pool_inv_reachable: "pool_reachable cap p \<Longrightarrow> pool_inv cap p"
  by (induction rule: pool_reachable.induct) (auto intro: pool_inv_step pool_inv_init)

text \<open>The receive of the deferred function never blocks.\<close>

lemma pool_never_blocks:
  assumes "pool_reachable cap p" and "p_phase p i = Serving" shows "recv (p_sem p) \<noteq> None"
proof -
  have "i \<in> serving p" using assms(2) by (simp add: serving_def)
  with pool_inv_reachable [OF assms(1)] have "0 < p_sem p"
    unfolding pool_inv_def by (metis card_gt_0_iff empty_iff)
  then show ?thesis by (simp add: recv_def)
qed

section \<open>Properties\<close>

text \<open>C24. The cap holds and leaks nothing: at most \<open>cap\<close> requests are served at any moment, each of
  them can leave without blocking, a request is refused only while \<open>cap\<close> others are being served, and
  an arriving one is admitted otherwise.\<close>

theorem concurrency_capped:
  assumes "pool_reachable cap p"
  shows "card (serving p) \<le> cap \<and> p_sem p = card (serving p) \<and>
    (\<forall>i. p_phase p i = Serving \<longrightarrow> (\<exists>p'. pool_step cap p p' \<and> p_phase p' i = Served)) \<and>
    (\<forall>i p'. pool_step cap p p' \<longrightarrow> p_phase p i = Arriving \<longrightarrow> p_phase p' i = Refused \<longrightarrow> card (serving p) = cap) \<and>
    (\<forall>i. p_phase p i = Arriving \<longrightarrow> card (serving p) < cap \<longrightarrow> (\<exists>p'. pool_step cap p p' \<and> p_phase p' i = Serving))"
proof (intro conjI allI impI)
  note inv = pool_inv_reachable [OF assms, unfolded pool_inv_def]
  show "card (serving p) \<le> cap" and "p_sem p = card (serving p)" using inv by simp_all
  show "\<exists>p'. pool_step cap p p' \<and> p_phase p' i = Served" if "p_phase p i = Serving" for i
    using pool_never_blocks [OF assms that] pool_step.leave [OF that] by fastforce
  show "card (serving p) = cap"
    if "pool_step cap p p'" "p_phase p i = Arriving" "p_phase p' i = Refused" for i p'
    using that inv by (auto elim!: pool_stepE simp: try_send_def split: if_splits)
  show "\<exists>p'. pool_step cap p p' \<and> p_phase p' i = Serving"
    if "p_phase p i = Arriving" "card (serving p) < cap" for i
    using pool_step.admit [OF that(1), of cap] that(2) inv by (fastforce simp: try_send_def)
qed

theorem concurrency_capped_witness:
  "\<exists>p. pool_reachable 1 p \<and> card (serving p) = 1 \<and> p_phase p 1 = Refused"
proof -
  let ?p1 = "\<lparr>p_sem = 1, p_phase = (\<lambda>i. Arriving)(0 := Serving)\<rparr>"
  let ?p2 = "\<lparr>p_sem = 1, p_phase = (\<lambda>i. Arriving)(0 := Serving, 1 := Refused)\<rparr>"
  have "pool_step 1 pool_init ?p1"
    using pool_step.admit [of pool_init 0 1 1] by (simp add: pool_init_def try_send_def)
  then have "pool_reachable 1 ?p1" by (rule pool_reachable.step [OF pool_reachable.start])
  moreover have "pool_step 1 ?p1 ?p2"
    using pool_step.refuse [of ?p1 1 1] by (simp add: try_send_def)
  ultimately have r: "pool_reachable 1 ?p2" by (rule pool_reachable.step)
  from concurrency_capped [OF r] have "card (serving ?p2) = 1" by simp
  with r show ?thesis by (intro exI [of _ ?p2]) simp
qed

end
