(* ===== verification/RF_Auth_Concurrent.thy ===== *)
theory RF_Auth_Concurrent
  imports RF_Auth
begin

text \<open>
  The failure budgets of \<open>internal/middleware/auth.go\<close> under concurrent requests: \<open>m\<close> connections that
  authenticate their requests, and the goroutine that \<open>startCleanup\<close> runs. A step is one call of a
  method of the limiter, so that the check and the record of one request are two steps, or the visit of one
  key by the cleanup. Requests that come between the read and the two deletes of such a visit are the subject
  of \<open>RF_Auth_Sweep\<close>.
\<close>

section \<open>The two halves of a request\<close>

text \<open>What \<open>RequireAPIKey\<close> computes between the check and the record; it touches no shared state.\<close>

definition credential :: "string list \<Rightarrow> http_req \<Rightarrow> string option" where
  "credential keys r =
     (let raw = rq_Authorization r; token = TrimPrefix raw ''Bearer '' in
      if token = [] \<or> token = raw then None
      else (let matchIdx = match_loop token keys 0 (-1) in
            if matchIdx < 0 then None else Some (map key_id keys ! nat matchIdx)))"

abbreviation client_ip :: "http_req \<Rightarrow> string" where
  "client_ip r \<equiv> remote_ip (rq_RemoteAddr r)"

lemma authenticate_halves:
  "authenticate ops keys now r l =
     (case isExhausted ops (client_ip r) now l of
        (True, l) \<Rightarrow> (TooManyFailures, l)
      | (False, l) \<Rightarrow>
          (case credential keys r of
             None \<Rightarrow> (Unauthorized, snd (tryRecordFailure ops (client_ip r) now l))
           | Some cid \<Rightarrow> (Admitted cid, l)))"
  by (simp add: authenticate_def credential_def Let_def split: prod.split bool.split option.split)

lemma credential_presents: "credential keys r = Some cid \<Longrightarrow> \<exists>k. presents keys r k \<and> cid = key_id k"
proof -
  assume c: "credential keys r = Some cid"
  let ?raw = "rq_Authorization r" and ?token = "TrimPrefix (rq_Authorization r) ''Bearer ''"
  from c match_loop_spec [of ?token keys 0 "-1"] obtain j where j: "j < length keys" "keys ! j = ?token"
      "match_loop ?token keys 0 (-1) = int j" "?token \<noteq> []" "?token \<noteq> ?raw"
    by (auto simp: credential_def Let_def split: if_splits)
  moreover have "?token \<in> set keys" using j(1,2) nth_mem by metis
  ultimately have "presents keys r (keys ! j)" "cid = key_id (keys ! j)"
    using c TrimPrefix_changed [of ?raw "''Bearer ''"] by (auto simp: credential_def Let_def presents_def)
  then show ?thesis by blast
qed

section \<open>The cleanup of one key\<close>

text \<open>The function that \<open>Range\<close> calls for each key of \<open>lastSeen\<close>.\<close>

definition evict_key :: "duration \<Rightarrow> gotime \<Rightarrow> string \<Rightarrow> 'l authFailureLimiter \<Rightarrow> 'l authFailureLimiter" where
  "evict_key ttl now ip l =
     (case al_lastSeen l ip of
        Some t \<Rightarrow> if time_sub now t > ttl
                  then l\<lparr>al_ips := (al_ips l)(ip := None), al_lastSeen := (al_lastSeen l)(ip := None)\<rparr> else l
      | None \<Rightarrow> l)"

lemma evict_key_other:
  "al_lastSeen (evict_key ttl now ip l) j = (if j = ip then al_lastSeen (evict_key ttl now ip l) ip else al_lastSeen l j)"
  "al_ips (evict_key ttl now ip l) j = (if j = ip then al_ips (evict_key ttl now ip l) ip else al_ips l j)"
  by (auto simp: evict_key_def split: option.split)

text \<open>A sweep that is not interleaved with requests is the \<open>evict\<close> of \<open>RF_Auth\<close>.\<close>

lemma sweep_pointwise:
  "al_lastSeen (fold (evict_key ttl now) ks l) j =
     (if j \<in> set ks then al_lastSeen (evict_key ttl now j l) j else al_lastSeen l j) \<and>
   al_ips (fold (evict_key ttl now) ks l) j =
     (if j \<in> set ks then al_ips (evict_key ttl now j l) j else al_ips l j) \<and>
   al_rate (fold (evict_key ttl now) ks l) = al_rate l \<and> al_burst (fold (evict_key ttl now) ks l) = al_burst l"
  by (induction ks arbitrary: l) (auto simp: evict_key_def split: option.split)

lemma sweep_is_evict:
  assumes "dom (al_lastSeen l) \<subseteq> set ks" shows "fold (evict_key ttl now) ks l = evict ttl now l"
proof -
  have "al_lastSeen l j = Some v \<Longrightarrow> j \<in> set ks" for j v using assms by (metis domI subsetD)
  then show ?thesis
    using sweep_pointwise [of ttl now ks l]
    by (intro authFailureLimiter.equality ext)
      (auto simp: evict_def evict_key_def Let_def split: option.split)
qed

lemma evict_key_budget:
  assumes tb: "failure_bucket ops valid" and ok: "budgets_ok ops valid l t" and le: "u \<le> t"
  shows "budgets_ok ops valid (evict_key cleanup_ttl u ip l) t \<and>
    budget ops (evict_key cleanup_ttl u ip l) j t = budget ops l j t"
proof -
  have "bk_tokens ops t b = 10"
    if "al_ips l ip = Some b" "al_lastSeen l ip = Some v" "time_sub u v > cleanup_ttl" for b v
    using idle_bucket_full [OF tb ok that le] .
  then show ?thesis
    using ok by (auto simp: evict_key_def budgets_ok_def budget_def split: option.split)
qed

section \<open>Connections and cleanup\<close>

text \<open>
  A connection is free, has a request that has not been checked, or one that passed the check. Requests
  for skipped paths never reach the limiter and are left out. The ticker's channel holds at most one
  tick, the time at which it fired.
\<close>

datatype conn_pc = Free | Entered http_req | Checked http_req
datatype sweeper_pc = Waiting | Visiting gotime "string list" | Stopped

record 'l auth_pool =
  ap_now :: gotime
  ap_limiter :: "'l authFailureLimiter"
  ap_conn :: "nat \<Rightarrow> conn_pc"
  ap_sweeper :: sweeper_pc
  ap_tick :: "gotime option"
  ap_cancelled :: bool

definition auth_pool_init :: "'l bucket_ops \<Rightarrow> gotime \<Rightarrow> 'l auth_pool" where
  "auth_pool_init ops t =
     \<lparr>ap_now = t, ap_limiter = newAuthFailureLimiter ops, ap_conn = (\<lambda>i. Free), ap_sweeper = Waiting,
      ap_tick = None, ap_cancelled = False\<rparr>"

definition goto :: "nat \<Rightarrow> conn_pc \<Rightarrow> 'l authFailureLimiter \<Rightarrow> 'l auth_pool \<Rightarrow> 'l auth_pool" where
  "goto i pc l s = s\<lparr>ap_conn := (ap_conn s)(i := pc), ap_limiter := l\<rparr>"

lemma goto_simps [simp]:
  "ap_conn (goto i pc l s) = (ap_conn s)(i := pc)" "ap_limiter (goto i pc l s) = l"
  "ap_now (goto i pc l s) = ap_now s" "ap_sweeper (goto i pc l s) = ap_sweeper s" "ap_tick (goto i pc l s) = ap_tick s"
  by (simp_all add: goto_def)

text \<open>A step with the decisions it announces; \<open>Range\<close> visits at least the keys there at its start.\<close>

inductive auth_step ::
  "'l bucket_ops \<Rightarrow> string list \<Rightarrow> nat \<Rightarrow> 'l auth_pool \<Rightarrow> (string \<times> verdict) list \<Rightarrow> 'l auth_pool \<Rightarrow> bool"
  for ops keys m where
  accept: "i < m \<Longrightarrow> ap_conn s i = Free \<Longrightarrow> auth_step ops keys m s [] (goto i (Entered r) (ap_limiter s) s)"
| refuse: "ap_conn s i = Entered r \<Longrightarrow> isExhausted ops (client_ip r) (ap_now s) (ap_limiter s) = (True, l) \<Longrightarrow>
    auth_step ops keys m s [(client_ip r, TooManyFailures)] (goto i Free l s)"
| check: "ap_conn s i = Entered r \<Longrightarrow> isExhausted ops (client_ip r) (ap_now s) (ap_limiter s) = (False, l) \<Longrightarrow>
    auth_step ops keys m s [] (goto i (Checked r) l s)"
| admit: "ap_conn s i = Checked r \<Longrightarrow> credential keys r = Some cid \<Longrightarrow>
    auth_step ops keys m s [(client_ip r, Admitted cid)] (goto i Free (ap_limiter s) s)"
| fail: "ap_conn s i = Checked r \<Longrightarrow> credential keys r = None \<Longrightarrow>
    tryRecordFailure ops (client_ip r) (ap_now s) (ap_limiter s) = (ok, l) \<Longrightarrow>
    auth_step ops keys m s [(client_ip r, Unauthorized)] (goto i Free l s)"
| time: "ap_now s \<le> t \<Longrightarrow> auth_step ops keys m s [] (s\<lparr>ap_now := t\<rparr>)"
| tick: "ap_sweeper s \<noteq> Stopped \<Longrightarrow> ap_tick s = None \<Longrightarrow> auth_step ops keys m s [] (s\<lparr>ap_tick := Some (ap_now s)\<rparr>)"
| sweep: "ap_sweeper s = Waiting \<Longrightarrow> ap_tick s = Some u \<Longrightarrow> distinct ks \<Longrightarrow>
    dom (al_lastSeen (ap_limiter s)) \<subseteq> set ks \<Longrightarrow>
    auth_step ops keys m s [] (s\<lparr>ap_tick := None, ap_sweeper := Visiting u ks\<rparr>)"
| visit: "ap_sweeper s = Visiting u (k # ks) \<Longrightarrow>
    auth_step ops keys m s [] (s\<lparr>ap_limiter := evict_key cleanup_ttl u k (ap_limiter s), ap_sweeper := Visiting u ks\<rparr>)"
| swept: "ap_sweeper s = Visiting u [] \<Longrightarrow> auth_step ops keys m s [] (s\<lparr>ap_sweeper := Waiting\<rparr>)"
| cancel: "auth_step ops keys m s [] (s\<lparr>ap_cancelled := True\<rparr>)"
| quit: "ap_sweeper s = Waiting \<Longrightarrow> ap_cancelled s \<Longrightarrow> auth_step ops keys m s [] (s\<lparr>ap_sweeper := Stopped\<rparr>)"

inductive_cases auth_stepE: "auth_step ops keys m s vs s'"

inductive auth_steps ::
  "'l bucket_ops \<Rightarrow> string list \<Rightarrow> nat \<Rightarrow> 'l auth_pool \<Rightarrow> (string \<times> verdict) list \<Rightarrow> 'l auth_pool \<Rightarrow> bool"
  for ops keys m s where
  none: "auth_steps ops keys m s [] s"
| more: "auth_steps ops keys m s vs s' \<Longrightarrow> auth_step ops keys m s' ws s'' \<Longrightarrow> auth_steps ops keys m s (vs @ ws) s''"

section \<open>Invariant\<close>

text \<open>The documented refusal: \<open>Allow\<close> takes nothing when there is no token.\<close>

definition refuses_freely :: "'l bucket_ops \<Rightarrow> ('l \<Rightarrow> gotime \<Rightarrow> bool) \<Rightarrow> bool" where
  "refuses_freely ops valid \<longleftrightarrow> (\<forall>b t. valid b t \<longrightarrow> bk_tokens ops t b < 1 \<longrightarrow>
     valid (snd (bk_allow ops t b)) t \<and> bk_tokens ops t (snd (bk_allow ops t b)) = bk_tokens ops t b)"

lemma tryRecordFailure_refused:
  assumes tb: "failure_bucket ops valid" and rf: "refuses_freely ops valid" and ok: "budgets_ok ops valid l t"
    and "budget ops l ip t < 1"
  shows "budgets_ok ops valid (snd (tryRecordFailure ops ip t l)) t \<and>
    budget ops (snd (tryRecordFailure ops ip t l)) j t = budget ops l j t"
proof -
  obtain b l' where g: "getOrCreate ops ip t l = (b, l')" by fastforce
  note s = getOrCreate_budget [OF tb ok g]
  let ?b = "snd (bk_allow ops t b)"
  have l'': "snd (tryRecordFailure ops ip t l) = l'\<lparr>al_ips := (al_ips l')(ip \<mapsto> ?b)\<rparr>"
    using g by (simp add: tryRecordFailure_def case_prod_beta)
  have seen: "al_lastSeen l' ip = Some t"
    using g by (auto simp: getOrCreate_def Let_def split: option.splits)
  have b: "valid b t" "0 \<le> bk_tokens ops t b" using budgets_okD [OF tb _ _ order_refl] s by blast+
  with rf s assms(4) have "valid ?b t" "bk_tokens ops t ?b = bk_tokens ops t b"
    unfolding refuses_freely_def by auto
  with s b seen show ?thesis unfolding l'' by (auto simp: budgets_ok_def budget_def)
qed

definition pool_ok :: "'l bucket_ops \<Rightarrow> ('l \<Rightarrow> gotime \<Rightarrow> bool) \<Rightarrow> nat \<Rightarrow> 'l auth_pool \<Rightarrow> bool" where
  "pool_ok ops valid m s \<longleftrightarrow>
     budgets_ok ops valid (ap_limiter s) (ap_now s) \<and> (\<forall>i \<ge> m. ap_conn s i = Free) \<and>
     (\<forall>u. ap_tick s = Some u \<longrightarrow> u \<le> ap_now s) \<and> (\<forall>u ks. ap_sweeper s = Visiting u ks \<longrightarrow> u \<le> ap_now s)"

text \<open>What a step does to the budget of an address and to the set of its requests that passed the check.\<close>

definition passed :: "string \<Rightarrow> 'l auth_pool \<Rightarrow> nat set" where
  "passed ip s = {i. \<exists>r. ap_conn s i = Checked r \<and> client_ip r = ip}"

abbreviation pool_budget :: "'l bucket_ops \<Rightarrow> 'l auth_pool \<Rightarrow> string \<Rightarrow> real" where
  "pool_budget ops s ip \<equiv> budget ops (ap_limiter s) ip (ap_now s)"

lemma passed_subset: "pool_ok ops valid m s \<Longrightarrow> passed ip s \<subseteq> {..<m}"
  unfolding pool_ok_def passed_def by (force simp: not_less [symmetric])

lemma finite_passed: "pool_ok ops valid m s \<Longrightarrow> finite (passed ip s)"
  by (rule finite_subset [OF passed_subset finite_lessThan])

lemma passed_goto [simp]:
  "passed ip (goto i pc l s) =
     (if \<exists>r. pc = Checked r \<and> client_ip r = ip then insert i (passed ip s) else passed ip s - {i})"
  by (auto simp: passed_def)

lemma passed_upd [simp]:
  "passed ip (s\<lparr>ap_now := t\<rparr>) = passed ip s" "passed ip (s\<lparr>ap_tick := u\<rparr>) = passed ip s"
  "passed ip (s\<lparr>ap_sweeper := w\<rparr>) = passed ip s" "passed ip (s\<lparr>ap_cancelled := b\<rparr>) = passed ip s"
  "passed ip (s\<lparr>ap_limiter := l\<rparr>) = passed ip s"
  by (simp_all add: passed_def)

lemma tryRecordFailure_ok:
  assumes "failure_bucket ops valid" and "refuses_freely ops valid" and "budgets_ok ops valid l t"
    and "tryRecordFailure ops ip t l = (ok, l')"
  shows "budgets_ok ops valid l' t \<and>
    budget ops l' j t = budget ops l j t - (if j = ip \<and> 1 \<le> budget ops l ip t then 1 else 0)"
proof -
  have l': "l' = snd (tryRecordFailure ops ip t l)" by (simp add: assms(4))
  show ?thesis
  proof (cases "1 \<le> budget ops l ip t")
    case True
    with tryRecordFailure_budget [OF assms(1,3) True, of j] show ?thesis unfolding l' by simp
  next
    case False
    then have "budget ops l ip t < 1" by simp
    from tryRecordFailure_refused [OF assms(1-3) this, of j] False show ?thesis unfolding l' by simp
  qed
qed

lemma pool_ok_init: "pool_ok ops valid m (auth_pool_init ops t)"
  using new_budgets [of ops valid t] by (simp add: pool_ok_def auth_pool_init_def)

lemma pool_ok_step:
  assumes tb: "failure_bucket ops valid" and rf: "refuses_freely ops valid"
    and step: "auth_step ops keys m s vs s'" and ok: "pool_ok ops valid m s"
  shows "pool_ok ops valid m s'"
  using step
proof (cases rule: auth_step.cases)
  case (time t)
  with ok budgets_ok_later show ?thesis unfolding pool_ok_def by fastforce
next
  case (fail i r okay l)
  with tryRecordFailure_ok [OF tb rf _ fail(5)] ok show ?thesis by (simp add: pool_ok_def)
next
  case (visit u k ks)
  with evict_key_budget [OF tb] ok show ?thesis by (simp add: pool_ok_def)
next
  case (check i r l)
  with isExhausted_budget [OF tb _ check(4)] ok show ?thesis
    unfolding pool_ok_def by (metis conn_pc.distinct(1) fun_upd_apply goto_simps)
next
  case (refuse i r l)
  with isExhausted_budget [OF tb _ refuse(4)] ok show ?thesis by (simp add: pool_ok_def)
qed (use ok in \<open>auto simp: pool_ok_def\<close>)

section \<open>Charging the failures\<close>

text \<open>
  Each failure that finds a token pays for itself and for every request that has passed the check by then:
  at most \<open>m\<close> in all. Those that pass it later are fresh as long as the budget has a token for one of them.
\<close>

definition charged :: "'l bucket_ops \<Rightarrow> string \<Rightarrow> nat \<Rightarrow> 'l auth_pool \<Rightarrow> (string \<times> verdict) list \<Rightarrow> 'l auth_pool \<Rightarrow> bool" where
  "charged ops ip m s0 vs s \<longleftrightarrow>
     ap_now s0 \<le> ap_now s \<and>
     (\<exists>fresh c. fresh \<subseteq> passed ip s \<and> (fresh \<noteq> {} \<longrightarrow> 1 \<le> pool_budget ops s ip) \<and>
        failures ip vs + card (passed ip s - fresh) \<le> m * c + card (passed ip s0) \<and>
        real c + pool_budget ops s ip \<le> pool_budget ops s0 ip + real_of_int (ap_now s - ap_now s0) / real_of_int (6 * Second))"

lemma failures_append [simp]: "failures ip (vs @ ws) = failures ip vs + failures ip ws"
  by (simp add: failures_def)

lemma charged_init: "charged ops ip m s [] s"
  unfolding charged_def by (auto intro!: exI [of _ "{}"] exI [of _ 0])

text \<open>A step that lets no request of the address through and announces no failure of it.\<close>

lemma charged_quiet:
  assumes "charged ops ip m s0 vs s" and "passed ip s' = passed ip s" and "failures ip ws = 0" and "ap_now s \<le> ap_now s'"
    and "pool_budget ops s ip \<le> pool_budget ops s' ip"
    and "pool_budget ops s' ip \<le> pool_budget ops s ip + real_of_int (ap_now s' - ap_now s) / real_of_int (6 * Second)"
  shows "charged ops ip m s0 (vs @ ws) s'"
proof -
  from assms(1) obtain fresh c where c: "ap_now s0 \<le> ap_now s" "fresh \<subseteq> passed ip s" "fresh \<noteq> {} \<longrightarrow> 1 \<le> pool_budget ops s ip"
      "failures ip vs + card (passed ip s - fresh) \<le> m * c + card (passed ip s0)"
      "real c + pool_budget ops s ip \<le> pool_budget ops s0 ip + real_of_int (ap_now s - ap_now s0) / real_of_int (6 * Second)"
    unfolding charged_def by (elim conjE exE) (rule that; assumption)
  have "real_of_int (ap_now s' - ap_now s0) / real_of_int (6 * Second) =
      real_of_int (ap_now s - ap_now s0) / real_of_int (6 * Second) + real_of_int (ap_now s' - ap_now s) / real_of_int (6 * Second)"
    by (simp add: add_divide_distrib [symmetric])
  then have "real c + pool_budget ops s' ip \<le>
      pool_budget ops s0 ip + real_of_int (ap_now s' - ap_now s0) / real_of_int (6 * Second)"
    using c(5) assms(6) by linarith
  moreover have "fresh \<noteq> {} \<longrightarrow> 1 \<le> pool_budget ops s' ip" using c(3) assms(5) by linarith
  moreover have "failures ip (vs @ ws) + card (passed ip s' - fresh) \<le> m * c + card (passed ip s0)"
    using c(4) by (simp add: assms(2,3))
  moreover have "ap_now s0 \<le> ap_now s'" "fresh \<subseteq> passed ip s'" using c(1,2) assms(2,4) by simp_all
  ultimately show ?thesis unfolding charged_def by blast
qed

lemma charged_still:
  assumes "charged ops ip m s0 vs s" and "passed ip s' = passed ip s" and "failures ip ws = 0" and "ap_now s = ap_now s'"
    and "pool_budget ops s ip = pool_budget ops s' ip"
  shows "charged ops ip m s0 (vs @ ws) s'"
  using charged_quiet [OF assms(1-3)] assms(4,5) by simp

text \<open>The steps of the address itself.\<close>

lemma charged_check:
  assumes "charged ops ip m s0 vs s" and "1 \<le> pool_budget ops s ip"
    and "ap_now s' = ap_now s" and "pool_budget ops s' ip = pool_budget ops s ip" and "passed ip s' = insert i (passed ip s)"
  shows "charged ops ip m s0 vs s'"
proof -
  from assms(1) obtain fresh c where c: "ap_now s0 \<le> ap_now s" "fresh \<subseteq> passed ip s"
      "failures ip vs + card (passed ip s - fresh) \<le> m * c + card (passed ip s0)"
      "real c + pool_budget ops s ip \<le> pool_budget ops s0 ip + real_of_int (ap_now s - ap_now s0) / real_of_int (6 * Second)"
    unfolding charged_def by (elim conjE exE) (rule that; assumption)
  show ?thesis
  proof (cases "i \<in> passed ip s")
    case True
    with assms c show ?thesis unfolding charged_def by (simp add: insert_absorb)
  next
    case False
    then have "passed ip s' - insert i fresh = passed ip s - fresh" using assms(5) c(2) by blast
    then show ?thesis
      unfolding charged_def using c assms(2-5) by (intro conjI exI [of _ "insert i fresh"] exI [of _ c]) auto
  qed
qed

lemma charged_admit:
  assumes "charged ops ip m s0 vs s" and "finite (passed ip s)" and "failures ip ws = 0"
    and "ap_now s' = ap_now s" and "pool_budget ops s' ip = pool_budget ops s ip" and "passed ip s' = passed ip s - {i}"
  shows "charged ops ip m s0 (vs @ ws) s'"
proof -
  from assms(1) obtain fresh c where c: "ap_now s0 \<le> ap_now s" "fresh \<subseteq> passed ip s" "fresh \<noteq> {} \<longrightarrow> 1 \<le> pool_budget ops s ip"
      "failures ip vs + card (passed ip s - fresh) \<le> m * c + card (passed ip s0)"
      "real c + pool_budget ops s ip \<le> pool_budget ops s0 ip + real_of_int (ap_now s - ap_now s0) / real_of_int (6 * Second)"
    unfolding charged_def by (elim conjE exE) (rule that; assumption)
  have "card (passed ip s - {i} - (fresh - {i})) \<le> card (passed ip s - fresh)"
    by (rule card_mono) (use assms(2) in auto)
  then show ?thesis
    unfolding charged_def using c assms(3-6) by (intro conjI exI [of _ "fresh - {i}"] exI [of _ c]) auto
qed

lemma charged_fail:
  assumes "charged ops ip m s0 vs s" and "passed ip s \<subseteq> {..<m}" and "i \<in> passed ip s" and "failures ip ws = 1"
    and "ap_now s' = ap_now s" and "passed ip s' = passed ip s - {i}"
    and "pool_budget ops s' ip = pool_budget ops s ip - (if 1 \<le> pool_budget ops s ip then 1 else 0)"
  shows "charged ops ip m s0 (vs @ ws) s'"
proof -
  from assms(1) obtain fresh c where c: "ap_now s0 \<le> ap_now s" "fresh \<subseteq> passed ip s" "fresh \<noteq> {} \<longrightarrow> 1 \<le> pool_budget ops s ip"
      "failures ip vs + card (passed ip s - fresh) \<le> m * c + card (passed ip s0)"
      "real c + pool_budget ops s ip \<le> pool_budget ops s0 ip + real_of_int (ap_now s - ap_now s0) / real_of_int (6 * Second)"
    unfolding charged_def by (elim conjE exE) (rule that; assumption)
  have fin: "finite (passed ip s)" using assms(2) finite_subset by blast
  have less: "Suc (card (passed ip s - {i})) = card (passed ip s)" using card_Suc_Diff1 [OF fin assms(3)] .
  show ?thesis
  proof (cases "1 \<le> pool_budget ops s ip")
    case True
    have "card (passed ip s) \<le> m" using card_mono [OF _ assms(2)] by simp
    then have "failures ip (vs @ ws) + card (passed ip s' - {}) \<le> m * Suc c + card (passed ip s0)"
      using c(4) less assms(4,6) by simp
    with True c(1,5) assms(5,7) show ?thesis
      unfolding charged_def by (intro conjI exI [of _ "{}"] exI [of _ "Suc c"]) auto
  next
    case False
    with c(3) have "fresh = {}" by blast
    with c(4) less assms(4,6) have "failures ip (vs @ ws) + card (passed ip s' - {}) \<le> m * c + card (passed ip s0)" by simp
    with False c(1,5) assms(5,7) show ?thesis
      unfolding charged_def by (intro conjI exI [of _ "{}"] exI [of _ c]) auto
  qed
qed

lemma charged_step:
  assumes tb: "failure_bucket ops valid" and rf: "refuses_freely ops valid" and ok: "pool_ok ops valid m s"
    and step: "auth_step ops keys m s ws s'" and ch: "charged ops ip m s0 vs s"
  shows "charged ops ip m s0 (vs @ ws) s'"
  using step
proof (cases rule: auth_step.cases)
  case (accept i r)
  then show ?thesis by (intro charged_still [OF ch]) (auto simp: passed_def)
next
  case (refuse i r l)
  have "budgets_ok ops valid (ap_limiter s) (ap_now s)" using ok by (simp add: pool_ok_def)
  with isExhausted_budget [OF tb this refuse(4), of ip] refuse show ?thesis
    by (intro charged_still [OF ch]) (auto simp: passed_def)
next
  case (check i r l)
  have "budgets_ok ops valid (ap_limiter s) (ap_now s)" using ok by (simp add: pool_ok_def)
  note e = isExhausted_budget [OF tb this check(4)]
  have i: "i \<notin> passed ip s" using check(3) by (simp add: passed_def)
  show ?thesis
  proof (cases "client_ip r = ip")
    case True
    with e [of ip] check charged_check [OF ch, of s' i] show ?thesis by (auto simp: not_less)
  next
    case False
    with e [of ip] check i show ?thesis by (intro charged_still [OF ch]) auto
  qed
next
  case (admit i r cid)
  then show ?thesis by (intro charged_admit [OF ch finite_passed [OF ok], where i = i]) auto
next
  case (fail i r okay l)
  have "budgets_ok ops valid (ap_limiter s) (ap_now s)" using ok by (simp add: pool_ok_def)
  note t = tryRecordFailure_ok [OF tb rf this fail(5), of ip]
  show ?thesis
  proof (cases "client_ip r = ip")
    case True
    with fail(3) have "i \<in> passed ip s" by (simp add: passed_def)
    from charged_fail [OF ch passed_subset [OF ok] this, of ws s'] fail True t show ?thesis by simp
  next
    case False
    with fail(3) have "i \<notin> passed ip s" by (simp add: passed_def)
    with False t fail show ?thesis by (intro charged_still [OF ch]) auto
  qed
next
  case (time t)
  have b: "budgets_ok ops valid (ap_limiter s) (ap_now s)" using ok by (simp add: pool_ok_def)
  have "pool_budget ops s ip \<le> pool_budget ops s' ip"
    using budget_refill [OF tb b time(3), of ip] budget_le_burst [OF tb b, of ip] time
    by (simp add: refilled_def Second_def Millisecond_def)
  with budget_gain [OF tb b time(3), of ip] time show ?thesis by (intro charged_quiet [OF ch]) simp_all
next
  case (visit u k ks)
  have "budgets_ok ops valid (ap_limiter s) (ap_now s)" "u \<le> ap_now s" using ok visit by (simp_all add: pool_ok_def)
  from evict_key_budget [OF tb this, of k ip] visit show ?thesis by (intro charged_still [OF ch]) simp_all
qed (intro charged_still [OF ch]; simp)+

lemma charged_steps:
  assumes "failure_bucket ops valid" and "refuses_freely ops valid" and "pool_ok ops valid m s"
    and "auth_steps ops keys m s vs s'"
  shows "pool_ok ops valid m s' \<and> charged ops ip m s vs s'"
  using assms(4)
proof induction
  case none
  with assms(3) charged_init show ?case by blast
next
  case (more vs s' ws s'')
  with pool_ok_step [OF assms(1,2)] charged_step [OF assms(1,2)] show ?case by blast
qed

section \<open>The budget is not a bound for concurrent requests\<close>

lemma all_checked:
  assumes tb: "failure_bucket ops valid" and "k \<le> m"
  shows "\<exists>l. auth_steps ops keys m (auth_pool_init ops t) []
      ((auth_pool_init ops t)\<lparr>ap_conn := (\<lambda>i. if i < k then Checked r else Free), ap_limiter := l\<rparr>) \<and>
    budgets_ok ops valid l t \<and> budget ops l (client_ip r) t = 10"
  using assms(2)
proof (induction k)
  case 0
  have "(auth_pool_init ops t)\<lparr>ap_conn := (\<lambda>i. if i < 0 then Checked r else Free), ap_limiter := newAuthFailureLimiter ops\<rparr> =
    auth_pool_init ops t" by (simp add: auth_pool_init_def)
  with auth_steps.none new_budgets [of ops valid t "client_ip r"] show ?case by metis
next
  case (Suc k)
  then obtain l where l: "auth_steps ops keys m (auth_pool_init ops t) []
      ((auth_pool_init ops t)\<lparr>ap_conn := (\<lambda>i. if i < k then Checked r else Free), ap_limiter := l\<rparr>)" (is "auth_steps _ _ _ _ _ ?s")
    "budgets_ok ops valid l t" "budget ops l (client_ip r) t = 10" by auto
  let ?s1 = "goto k (Entered r) (ap_limiter ?s) ?s"
  have s1: "auth_steps ops keys m (auth_pool_init ops t) ([] @ []) ?s1"
    by (rule auth_steps.more [OF l(1)]) (rule auth_step.accept, use Suc.prems in simp_all)
  obtain e l' where i: "isExhausted ops (client_ip r) t l = (e, l')" by fastforce
  note b = isExhausted_budget [OF tb l(2) i, of "client_ip r"]
  then have "isExhausted ops (client_ip r) (ap_now ?s1) (ap_limiter ?s1) = (False, l')"
    using i l(3) by (simp add: auth_pool_init_def)
  then have "auth_steps ops keys m (auth_pool_init ops t) (([] @ []) @ []) (goto k (Checked r) l' ?s1)"
    by (intro auth_steps.more [OF s1] auth_step.check) simp
  moreover have "goto k (Checked r) l' ?s1 =
      (auth_pool_init ops t)\<lparr>ap_conn := (\<lambda>i. if i < Suc k then Checked r else Free), ap_limiter := l'\<rparr>"
    by (auto simp: goto_def less_Suc_eq fun_eq_iff)
  ultimately show ?case using b l(3) by auto
qed

lemma all_failed:
  assumes "auth_steps ops keys m s0 vs (s\<lparr>ap_conn := (\<lambda>i. if i < k then Checked r else Free)\<rparr>)" and "credential keys r = None"
  shows "\<exists>ws l. auth_steps ops keys m s0 (vs @ ws) (s\<lparr>ap_conn := (\<lambda>i. Free), ap_limiter := l\<rparr>) \<and> failures (client_ip r) ws = k"
  using assms(1)
proof (induction k arbitrary: s vs)
  case 0
  have "s\<lparr>ap_conn := (\<lambda>i. Free), ap_limiter := ap_limiter s\<rparr> = s\<lparr>ap_conn := (\<lambda>i. if i < 0 then Checked r else Free)\<rparr>"
    by simp
  with 0 show ?case by (intro exI [of _ "[]"] exI [of _ "ap_limiter s"]) simp
next
  case (Suc k)
  let ?s = "s\<lparr>ap_conn := (\<lambda>i. if i < Suc k then Checked r else Free)\<rparr>"
  obtain okay l where f: "tryRecordFailure ops (client_ip r) (ap_now ?s) (ap_limiter ?s) = (okay, l)" by fastforce
  have "auth_steps ops keys m s0 (vs @ [(client_ip r, Unauthorized)]) (goto k Free l ?s)"
    by (rule auth_steps.more [OF Suc.prems], rule auth_step.fail [OF _ assms(2) f]) simp
  moreover have "goto k Free l ?s = (s\<lparr>ap_limiter := l\<rparr>)\<lparr>ap_conn := (\<lambda>i. if i < k then Checked r else Free)\<rparr>"
    by (auto simp: goto_def less_Suc_eq fun_eq_iff)
  ultimately obtain ws l' where "auth_steps ops keys m s0 ((vs @ [(client_ip r, Unauthorized)]) @ ws)
      ((s\<lparr>ap_limiter := l\<rparr>)\<lparr>ap_conn := (\<lambda>i. Free), ap_limiter := l'\<rparr>)" "failures (client_ip r) ws = k"
    using Suc.IH by metis
  then show ?case by (intro exI [of _ "(client_ip r, Unauthorized) # ws"] exI [of _ l']) simp
qed

lemma failures_at_once:
  assumes "failure_bucket ops valid" and "credential keys r = None"
  shows "\<exists>vs s. auth_steps ops keys m (auth_pool_init ops t) vs s \<and> ap_now s = t \<and> failures (client_ip r) vs = m"
proof -
  obtain l where "auth_steps ops keys m (auth_pool_init ops t) []
      ((auth_pool_init ops t)\<lparr>ap_conn := (\<lambda>i. if i < m then Checked r else Free), ap_limiter := l\<rparr>)"
    using all_checked [OF assms(1) order_refl] by blast
  then have "auth_steps ops keys m (auth_pool_init ops t) []
      ((auth_pool_init ops t)\<lparr>ap_limiter := l\<rparr>\<lparr>ap_conn := (\<lambda>i. if i < m then Checked r else Free)\<rparr>)"
    by (simp add: auth_pool_init_def)
  from all_failed [OF this assms(2)] show ?thesis by (force simp: auth_pool_init_def)
qed

lemma admitted_presents:
  "auth_steps ops keys m s vs s' \<Longrightarrow> (ip, Admitted cid) \<in> set vs \<Longrightarrow> \<exists>k \<in> set keys. cid = key_id k"
proof (induction rule: auth_steps.induct)
  case (more vs s' ws s'')
  from more.hyps(2) have "(ip, Admitted cid) \<in> set ws \<Longrightarrow> \<exists>r. credential keys r = Some cid" by cases auto
  then have "(ip, Admitted cid) \<in> set ws \<Longrightarrow> \<exists>k \<in> set keys. cid = key_id k"
    using credential_presents unfolding presents_def by blast
  with more show ?case by auto
qed simp

section \<open>Properties\<close>


lemma bucket_example_refuses: "refuses_freely bucket_example bucket_valid"
  by (auto simp: refuses_freely_def bucket_example_def Let_def)


end
