(* ===== verification/RF_Auth_Sweep.thy ===== *)
theory RF_Auth_Sweep
  imports RF_Auth_Concurrent
begin

text \<open>
  The cleanup of \<open>startCleanup\<close> in \<open>internal/middleware/auth.go\<close> with the visit of a key split into its three
  operations: the comparison of the time that \<open>Range\<close> read, \<open>ips.Delete\<close> and \<open>lastSeen.Delete\<close>. Requests come
  between them. The steps of \<open>RF_Auth_Concurrent\<close> are the runs in which none does.
\<close>

section \<open>A visit in three operations\<close>

text \<open>Between two visits; the key was found idle; its bucket is deleted.\<close>

datatype visit_pc = Between | Idle string | Dropped string

inductive sweep_step ::
  "'l bucket_ops \<Rightarrow> string list \<Rightarrow> nat \<Rightarrow> 'l auth_pool \<times> visit_pc \<Rightarrow> (string \<times> verdict) list \<Rightarrow>
     'l auth_pool \<times> visit_pc \<Rightarrow> bool"
  for ops keys m where
  request: "auth_step ops keys m s vs s' \<Longrightarrow> ap_sweeper s' = ap_sweeper s \<Longrightarrow> sweep_step ops keys m (s, p) vs (s', p)"
| loop: "auth_step ops keys m s vs s' \<Longrightarrow> \<forall>u k ks. ap_sweeper s \<noteq> Visiting u (k # ks) \<Longrightarrow>
    sweep_step ops keys m (s, Between) vs (s', Between)"
| keep: "ap_sweeper s = Visiting u (k # ks) \<Longrightarrow>
    \<forall>t. al_lastSeen (ap_limiter s) k = Some t \<longrightarrow> \<not> time_sub u t > cleanup_ttl \<Longrightarrow>
    sweep_step ops keys m (s, Between) [] (s\<lparr>ap_sweeper := Visiting u ks\<rparr>, Between)"
| idle: "ap_sweeper s = Visiting u (k # ks) \<Longrightarrow> al_lastSeen (ap_limiter s) k = Some t \<Longrightarrow> time_sub u t > cleanup_ttl \<Longrightarrow>
    sweep_step ops keys m (s, Between) [] (s, Idle k)"
| drop_bucket: "sweep_step ops keys m (s, Idle k) []
    (s\<lparr>ap_limiter := (ap_limiter s)\<lparr>al_ips := (al_ips (ap_limiter s))(k := None)\<rparr>\<rparr>, Dropped k)"
| drop_seen: "ap_sweeper s = Visiting u (k # ks) \<Longrightarrow> sweep_step ops keys m (s, Dropped k) []
    (s\<lparr>ap_limiter := (ap_limiter s)\<lparr>al_lastSeen := (al_lastSeen (ap_limiter s))(k := None)\<rparr>,
       ap_sweeper := Visiting u ks\<rparr>, Between)"

inductive sweep_steps ::
  "'l bucket_ops \<Rightarrow> string list \<Rightarrow> nat \<Rightarrow> 'l auth_pool \<times> visit_pc \<Rightarrow> (string \<times> verdict) list \<Rightarrow>
     'l auth_pool \<times> visit_pc \<Rightarrow> bool"
  for ops keys m s where
  none: "sweep_steps ops keys m s [] s"
| more: "sweep_steps ops keys m s vs s' \<Longrightarrow> sweep_step ops keys m s' ws s'' \<Longrightarrow> sweep_steps ops keys m s (vs @ ws) s''"

lemma sweep_steps_silent:
  "sweep_steps ops keys m s vs s' \<Longrightarrow> sweep_step ops keys m s' [] s'' \<Longrightarrow> sweep_steps ops keys m s vs s''"
  using sweep_steps.more by fastforce

section \<open>Uninterrupted visits\<close>

text \<open>The three operations of a visit in a row are the \<open>evict_key\<close> of the key.\<close>

lemma uninterrupted_visit:
  assumes "sweep_steps ops keys m s0 vs (s, Between)" and "ap_sweeper s = Visiting u (k # ks)"
  shows "sweep_steps ops keys m s0 vs
    (s\<lparr>ap_limiter := evict_key cleanup_ttl u k (ap_limiter s), ap_sweeper := Visiting u ks\<rparr>, Between)"
proof (cases "\<exists>t. al_lastSeen (ap_limiter s) k = Some t \<and> time_sub u t > cleanup_ttl")
  case True
  then obtain t where t: "al_lastSeen (ap_limiter s) k = Some t" "time_sub u t > cleanup_ttl" by blast
  let ?l = "(ap_limiter s)\<lparr>al_ips := (al_ips (ap_limiter s))(k := None)\<rparr>"
  have "sweep_steps ops keys m s0 vs (s, Idle k)"
    by (rule sweep_steps_silent [OF assms(1)]) (rule idle [OF assms(2) t])
  then have "sweep_steps ops keys m s0 vs (s\<lparr>ap_limiter := ?l\<rparr>, Dropped k)"
    by (rule sweep_steps_silent) (rule drop_bucket)
  then have "sweep_steps ops keys m s0 vs (s\<lparr>ap_limiter := ?l, ap_limiter :=
      ?l\<lparr>al_lastSeen := (al_lastSeen ?l)(k := None)\<rparr>, ap_sweeper := Visiting u ks\<rparr>, Between)"
    using drop_seen [of "s\<lparr>ap_limiter := ?l\<rparr>" u k ks ops keys m] assms(2) by (auto elim!: sweep_steps_silent)
  with t show ?thesis by (simp add: evict_key_def)
next
  case False
  then have "ap_limiter s = evict_key cleanup_ttl u k (ap_limiter s)" by (auto simp: evict_key_def split: option.split)
  then have "s\<lparr>ap_limiter := evict_key cleanup_ttl u k (ap_limiter s), ap_sweeper := Visiting u ks\<rparr> =
      s\<lparr>ap_sweeper := Visiting u ks\<rparr>" by simp
  with False show ?thesis using keep [OF assms(2)] sweep_steps_silent [OF assms(1)] by auto
qed

text \<open>So every run of \<open>RF_Auth_Concurrent\<close> is one of this theory.\<close>

lemma coarse_runs: "auth_steps ops keys m s0 vs s \<Longrightarrow> sweep_steps ops keys m (s0, Between) vs (s, Between)"
proof (induction rule: auth_steps.induct)
  case (more vs s' ws s'')
  show ?case
  proof (cases "\<exists>u k ks. ap_sweeper s' = Visiting u (k # ks)")
    case False
    then show ?thesis using sweep_steps.more [OF more.IH loop] more.hyps(2) by blast
  next
    case True
    then obtain u k ks where v: "ap_sweeper s' = Visiting u (k # ks)" by blast
    from more.hyps(2) v have "ap_sweeper s'' = ap_sweeper s' \<or> ws = [] \<and>
        s'' = s'\<lparr>ap_limiter := evict_key cleanup_ttl u k (ap_limiter s'), ap_sweeper := Visiting u ks\<rparr>"
      by cases auto
    then show ?thesis
      using uninterrupted_visit [OF more.IH v] sweep_steps.more [OF more.IH request [OF more.hyps(2)]] by auto
  qed
qed (rule sweep_steps.none)

section \<open>A visit that forgets failures\<close>

text \<open>Connection \<open>0\<close> guesses once, and then as often as the budget of its address allows.\<close>

lemma guesses_once:
  assumes tb: "failure_bucket ops valid" and rf: "refuses_freely ops valid" and "0 < m" and "credential keys r = None"
    and run: "sweep_steps ops keys m s0 vs (s, p)" and free: "ap_conn s 0 = Free"
    and ok: "budgets_ok ops valid (ap_limiter s) (ap_now s)" and b: "1 \<le> pool_budget ops s (client_ip r)"
  shows "\<exists>l. sweep_steps ops keys m s0 (vs @ [(client_ip r, Unauthorized)]) (s\<lparr>ap_limiter := l\<rparr>, p) \<and>
    budgets_ok ops valid l (ap_now s) \<and> budget ops l (client_ip r) (ap_now s) = pool_budget ops s (client_ip r) - 1 \<and>
    al_lastSeen l = (al_lastSeen (ap_limiter s))(client_ip r \<mapsto> ap_now s)"
proof -
  let ?ip = "client_ip r" and ?now = "ap_now s"
  obtain e l where e: "isExhausted ops ?ip ?now (ap_limiter s) = (e, l)" by fastforce
  note i = isExhausted_budget [OF tb ok e]
  obtain okay l' where f: "tryRecordFailure ops ?ip ?now l = (okay, l')" by fastforce
  note t = tryRecordFailure_ok [OF tb rf _ f, of ?ip]
  let ?s1 = "goto 0 (Entered r) (ap_limiter s) s"
  let ?s2 = "goto 0 (Checked r) l ?s1"
  let ?s3 = "goto 0 Free l' ?s2"
  have "auth_step ops keys m s [] ?s1" by (rule accept) (use assms(3) free in simp_all)
  then have "sweep_steps ops keys m s0 vs (?s1, p)" by (intro sweep_steps_silent [OF run] request) simp_all
  moreover have "auth_step ops keys m ?s1 [] ?s2" by (rule check) (use e i b in \<open>simp_all add: not_less\<close>)
  ultimately have "sweep_steps ops keys m s0 vs (?s2, p)" by (elim sweep_steps_silent) (rule request, simp_all)
  moreover have "auth_step ops keys m ?s2 [(?ip, Unauthorized)] ?s3" by (rule fail) (use f assms(4) in simp_all)
  ultimately have "sweep_steps ops keys m s0 (vs @ [(?ip, Unauthorized)]) (?s3, p)"
    by (elim sweep_steps.more) (rule request, simp_all)
  moreover have "?s3 = s\<lparr>ap_limiter := l'\<rparr>" using free by (simp add: goto_def fun_upd_idem)
  moreover have "al_lastSeen l' = (al_lastSeen (ap_limiter s))(?ip \<mapsto> ?now)"
    using e f by (auto simp: isExhausted_def tryRecordFailure_def getOrCreate_def Let_def split: prod.splits option.splits)
  ultimately show ?thesis using t i [of ?ip] b by (intro exI [of _ l']) auto
qed

lemma guesses:
  assumes "failure_bucket ops valid" and "refuses_freely ops valid" and "0 < m" and "credential keys r = None"
    and "sweep_steps ops keys m s0 vs (s, p)" and "ap_conn s 0 = Free"
    and "budgets_ok ops valid (ap_limiter s) (ap_now s)" and "real n \<le> pool_budget ops s (client_ip r)"
  shows "\<exists>ws l. sweep_steps ops keys m s0 (vs @ ws) (s\<lparr>ap_limiter := l\<rparr>, p) \<and> failures (client_ip r) ws = n \<and>
    budgets_ok ops valid l (ap_now s)"
  using assms(5-)
proof (induction n arbitrary: s vs)
  case 0
  then show ?case by (intro exI [of _ "[]"] exI [of _ "ap_limiter s"]) simp
next
  case (Suc n)
  from Suc.prems(4) have "1 \<le> pool_budget ops s (client_ip r)" by simp
  from guesses_once [OF assms(1-4) Suc.prems(1-3) this] obtain l where l:
    "sweep_steps ops keys m s0 (vs @ [(client_ip r, Unauthorized)]) (s\<lparr>ap_limiter := l\<rparr>, p)"
    "budgets_ok ops valid l (ap_now s)" "budget ops l (client_ip r) (ap_now s) = pool_budget ops s (client_ip r) - 1"
    by blast
  from Suc.IH [OF l(1)] l(2,3) Suc.prems(2,4) obtain ws l' where
    "sweep_steps ops keys m s0 ((vs @ [(client_ip r, Unauthorized)]) @ ws) (s\<lparr>ap_limiter := l'\<rparr>, p)"
    "failures (client_ip r) ws = n" "budgets_ok ops valid l' (ap_now s)" by auto
  then show ?case by (intro exI [of _ "(client_ip r, Unauthorized) # ws"] exI [of _ l']) simp
qed

text \<open>
  An address that was idle long enough comes back just after the cleanup has compared its time: ten failures
  are charged to the bucket that is then deleted, and ten more to a new one. All twenty come over one connection
  at one instant, twice the bound of \<open>concurrent_guessing_bounded\<close>.
\<close>

lemma sweep_forgets_failures:
  assumes tb: "failure_bucket ops valid" and rf: "refuses_freely ops valid" and cr: "credential keys r = None"
    and idle: "time_sub t' t > cleanup_ttl" "t \<le> t'"
  shows "\<exists>us s s' vs. sweep_steps ops keys 1 (auth_pool_init ops t, Between) us (s, Idle (client_ip r)) \<and>
    sweep_steps ops keys 1 (s, Idle (client_ip r)) vs (s', Dropped (client_ip r)) \<and>
    ap_now s = t' \<and> ap_now s' = t' \<and> passed (client_ip r) s = {} \<and> failures (client_ip r) vs = 20"
proof -
  let ?ip = "client_ip r" and ?s0 = "auth_pool_init ops t"
  have new: "budgets_ok ops valid (ap_limiter ?s0) (ap_now ?s0)" "1 \<le> pool_budget ops ?s0 ?ip" "ap_conn ?s0 0 = Free"
    using new_budgets [of ops valid t ?ip] by (simp_all add: auth_pool_init_def)
  from guesses_once [OF tb rf zero_less_one cr sweep_steps.none new(3,1,2), of Between] obtain l where l:
    "sweep_steps ops keys 1 (?s0, Between) [(?ip, Unauthorized)] (?s0\<lparr>ap_limiter := l\<rparr>, Between)"
    "budgets_ok ops valid l t" "al_lastSeen l = [?ip \<mapsto> t]"
    by (auto simp: auth_pool_init_def newAuthFailureLimiter_def)
  let ?s1 = "?s0\<lparr>ap_limiter := l, ap_now := t'\<rparr>"
  have "sweep_steps ops keys 1 (?s0, Between) [(?ip, Unauthorized)] (?s1, Between)"
    by (rule sweep_steps_silent [OF l(1)], rule request, rule time) (simp_all add: auth_pool_init_def idle(2))
  then have "sweep_steps ops keys 1 (?s0, Between) [(?ip, Unauthorized)] (?s1\<lparr>ap_tick := Some (ap_now ?s1)\<rparr>, Between)"
    by (rule sweep_steps_silent) (rule request, rule tick, simp_all add: auth_pool_init_def)
  then have "sweep_steps ops keys 1 (?s0, Between) [(?ip, Unauthorized)]
      (?s1\<lparr>ap_tick := Some (ap_now ?s1), ap_tick := None, ap_sweeper := Visiting t' [?ip]\<rparr>, Between)"
    by (rule sweep_steps_silent) (rule loop, rule sweep, simp_all add: auth_pool_init_def l(3))
  moreover define s where "s = ?s1\<lparr>ap_tick := None, ap_sweeper := Visiting t' [?ip]\<rparr>"
  ultimately have "sweep_steps ops keys 1 (?s0, Between) [(?ip, Unauthorized)] (s, Between)" by simp
  then have found: "sweep_steps ops keys 1 (?s0, Between) [(?ip, Unauthorized)] (s, Idle ?ip)"
    by (rule sweep_steps_silent) (rule sweep_step.idle [where u = t' and ks = "[]" and t = t], simp_all add: s_def l(3) idle(1))
  have ok: "budgets_ok ops valid (ap_limiter s) (ap_now s)" and now: "ap_now s = t'" and free: "\<forall>i. ap_conn s i = Free"
    using budgets_ok_later [OF l(2) idle(2)] by (simp_all add: s_def auth_pool_init_def)
  have "pool_budget ops s ?ip = 10"
    using idle_bucket_full [OF tb budgets_ok_later [OF l(2) idle(2)] _ _ idle(1) order_refl, of ?ip] l(3)
    by (auto simp: budget_def s_def split: option.split)
  then obtain ws l' where first: "sweep_steps ops keys 1 (s, Idle ?ip) ws (s\<lparr>ap_limiter := l'\<rparr>, Idle ?ip)"
    "failures ?ip ws = 10" "budgets_ok ops valid l' (ap_now s)"
    using guesses [OF tb rf zero_less_one cr sweep_steps.none _ ok, of 10 "Idle ?ip"] free by auto
  let ?l = "l'\<lparr>al_ips := (al_ips l')(?ip := None)\<rparr>"
  have dropped: "sweep_steps ops keys 1 (s, Idle ?ip) ws (s\<lparr>ap_limiter := ?l\<rparr>, Dropped ?ip)"
    using sweep_steps_silent [OF first(1) drop_bucket] by simp
  have fresh: "budgets_ok ops valid ?l (ap_now s)" "pool_budget ops (s\<lparr>ap_limiter := ?l\<rparr>) ?ip = 10"
    using first(3) by (auto simp: budgets_ok_def budget_def)
  obtain ws' l'' where "sweep_steps ops keys 1 (s, Idle ?ip) (ws @ ws') (s\<lparr>ap_limiter := l''\<rparr>, Dropped ?ip)"
    "failures ?ip ws' = 10"
    using guesses [OF tb rf zero_less_one cr dropped, of 10] free fresh by auto
  with found now free first(2) show ?thesis
    by (intro exI [of _ "[(?ip, Unauthorized)]"] exI [of _ s] exI [of _ "s\<lparr>ap_limiter := l''\<rparr>"] exI [of _ "ws @ ws'"])
      (simp add: passed_def)
qed

end
