(* ===== verification/RF_Cleanup.thy ===== *)
theory RF_Cleanup
  imports RF_Quote_Repo
begin

text \<open>
  The background cleanup of \<open>internal/cleanup/cleanup.go\<close>: the goroutine in \<open>Start\<close>, any number of
  callers of \<open>Stop\<close>, the timer and the context, as a step relation over the two channels \<open>stop\<close> and
  \<open>done\<close>. A channel that is only ever closed is read as whether it is closed; the timer's channel holds
  at most one tick. \<open>Start\<close> is called once, as its comment asks.
\<close>

datatype loop_pc = NotStarted | Selecting | Sweeping | Returned
datatype stop_pc = NotCalled | AwaitDone | StopReturned

record ticker =
  tk_stop :: bool
  tk_done :: bool
  tk_tick :: bool
  tk_cancelled :: bool
  tk_loop :: loop_pc
  tk_stopper :: "nat \<Rightarrow> stop_pc"
  tk_now :: gotime
  tk_repo :: quotes_table

definition New_ticker :: "quotes_table \<Rightarrow> gotime \<Rightarrow> ticker" where
  "New_ticker repo now = \<lparr>tk_stop = False, tk_done = False, tk_tick = False, tk_cancelled = False,
     tk_loop = NotStarted, tk_stopper = (\<lambda>i. NotCalled), tk_now = now, tk_repo = repo\<rparr>"

text \<open>One pass; both outcomes are only logged.\<close>

definition sweep :: "delete_outcome \<Rightarrow> ticker \<Rightarrow> ticker" where
  "sweep outcome s = s\<lparr>tk_repo := snd (DeleteExpired outcome (tk_now s) (tk_repo s)), tk_loop := Selecting\<rparr>"

text \<open>The loop returns and the deferred functions run: \<open>done\<close> is closed.\<close>

definition leave_loop :: "ticker \<Rightarrow> ticker" where
  "leave_loop s = s\<lparr>tk_loop := Returned, tk_done := True\<rparr>"

definition call_stop :: "nat \<Rightarrow> ticker \<Rightarrow> ticker" where
  "call_stop i s = s\<lparr>tk_stop := True, tk_stopper := (tk_stopper s)(i := AwaitDone)\<rparr>"

inductive ticker_step :: "ticker \<Rightarrow> ticker \<Rightarrow> bool" where
  start: "tk_loop s = NotStarted \<Longrightarrow> ticker_step s (s\<lparr>tk_loop := Selecting\<rparr>)"
| time: "tk_now s \<le> t \<Longrightarrow> ticker_step s (s\<lparr>tk_now := t\<rparr>)"
| fire: "tk_loop s = Selecting \<or> tk_loop s = Sweeping \<Longrightarrow> ticker_step s (s\<lparr>tk_tick := True\<rparr>)"
| cancel: "ticker_step s (s\<lparr>tk_cancelled := True\<rparr>)"
| take_tick: "tk_loop s = Selecting \<Longrightarrow> tk_tick s \<Longrightarrow> ticker_step s (s\<lparr>tk_tick := False, tk_loop := Sweeping\<rparr>)"
| swept: "tk_loop s = Sweeping \<Longrightarrow> ticker_step s (sweep outcome s)"
| see_stop: "tk_loop s = Selecting \<Longrightarrow> tk_stop s \<Longrightarrow> ticker_step s (leave_loop s)"
| see_cancel: "tk_loop s = Selecting \<Longrightarrow> tk_cancelled s \<Longrightarrow> ticker_step s (leave_loop s)"
| stop: "tk_stopper s i = NotCalled \<Longrightarrow> ticker_step s (call_stop i s)"
| stopped: "tk_stopper s i = AwaitDone \<Longrightarrow> tk_done s \<Longrightarrow>
    ticker_step s (s\<lparr>tk_stopper := (tk_stopper s)(i := StopReturned)\<rparr>)"

inductive_cases ticker_stepE: "ticker_step s s'"

inductive ticker_reachable :: "quotes_table \<Rightarrow> gotime \<Rightarrow> ticker \<Rightarrow> bool" for repo now where
  init: "ticker_reachable repo now (New_ticker repo now)"
| step: "ticker_reachable repo now s \<Longrightarrow> ticker_step s s' \<Longrightarrow> ticker_reachable repo now s'"

section \<open>Invariant\<close>

text \<open>\<open>done\<close> is closed exactly when the loop has returned, every caller of \<open>Stop\<close> that is back saw it
  closed, and the table agrees with the first one on every quote that has not expired.\<close>

definition same_unexpired :: "gotime \<Rightarrow> quotes_table \<Rightarrow> quotes_table \<Rightarrow> bool" where
  "same_unexpired now r r' \<longleftrightarrow>
     (\<forall>k c q. now < res_ExpiresAt q \<longrightarrow> (stored_quote r' k c = Some q \<longleftrightarrow> stored_quote r k c = Some q))"

definition ticker_inv :: "quotes_table \<Rightarrow> ticker \<Rightarrow> bool" where
  "ticker_inv repo s \<longleftrightarrow>
     (tk_done s \<longleftrightarrow> tk_loop s = Returned) \<and>
     (\<forall>i. tk_stopper s i = StopReturned \<longrightarrow> tk_done s) \<and>
     (\<forall>i. tk_stopper s i \<noteq> NotCalled \<longrightarrow> tk_stop s) \<and>
     (tk_loop s = Returned \<longrightarrow> tk_stop s \<or> tk_cancelled s) \<and>
     table_ok (tk_repo s) \<and> same_unexpired (tk_now s) repo (tk_repo s)"

lemma same_unexpired_later: "same_unexpired now r r' \<Longrightarrow> now \<le> t \<Longrightarrow> same_unexpired t r r'"
  unfolding same_unexpired_def by (meson order_le_less_trans)

lemma same_unexpired_sweep:
  assumes "table_ok r'" and "same_unexpired now r r'"
  shows "same_unexpired now r (snd (DeleteExpired d now r'))"
  using assms spanner.purge_only [OF assms(1)] spanner.purge_spares [OF assms(1)]
  unfolding same_unexpired_def by metis

lemma ticker_inv_step:
  assumes "ticker_step s s'" and "ticker_inv repo s" shows "ticker_inv repo s'"
  using assms(1)
proof (cases rule: ticker_step.cases)
  case (time t)
  with assms(2) same_unexpired_later show ?thesis by (auto simp: ticker_inv_def)
next
  case (swept outcome)
  with assms(2) same_unexpired_sweep spanner.purge_keeps show ?thesis by (auto simp: ticker_inv_def sweep_def)
qed (use assms(2) in \<open>auto simp: ticker_inv_def leave_loop_def call_stop_def split: if_splits\<close>)

lemma ticker_inv_reachable:
  assumes "ticker_reachable repo now s" and "table_ok repo" shows "ticker_inv repo s"
  using assms(1)
proof induction
  case init
  with assms(2) show ?case by (simp add: ticker_inv_def New_ticker_def same_unexpired_def)
qed (rule ticker_inv_step)

text \<open>Only a sweep writes, so nothing is written once the loop has returned.\<close>

lemma ticker_step_writes:
  "ticker_step s s' \<Longrightarrow> tk_loop s = Returned \<Longrightarrow> tk_loop s' = Returned \<and> tk_repo s' = tk_repo s"
  by (auto elim!: ticker_stepE simp: leave_loop_def call_stop_def)

text \<open>\<open>Stop\<close> on a ticker that is never started does not return: \<open>done\<close> is closed by \<open>Start\<close> only.\<close>

lemma stop_without_start_blocks:
  assumes "ticker_reachable repo now s" and "table_ok repo" and "tk_loop s = NotStarted"
  shows "tk_stopper s i \<noteq> StopReturned \<and> (ticker_step s s' \<longrightarrow> tk_stopper s' i \<noteq> StopReturned)"
  using ticker_inv_reachable [OF assms(1,2)] assms(3)
  by (auto simp: ticker_inv_def elim!: ticker_stepE simp: sweep_def leave_loop_def call_stop_def split: if_splits)

section \<open>Properties\<close>

text \<open>C28. The cleanup goroutine: once a call of \<open>Stop\<close> is back the loop has returned, and then no
  step writes to the repository again; at every moment the sweeps have changed nothing about the quotes
  that are not expired; and a started loop that has been asked to stop can return at once, or after the
  sweep it is in, without waiting for a tick.\<close>

theorem cleanup_stops_cleanly:
  assumes "ticker_reachable repo now s" and "table_ok repo"
  shows "(tk_stopper s i = StopReturned \<longrightarrow> tk_loop s = Returned) \<and>
    (tk_loop s = Returned \<longrightarrow> ticker_step s s' \<longrightarrow> tk_loop s' = Returned \<and> tk_repo s' = tk_repo s) \<and>
    same_unexpired (tk_now s) repo (tk_repo s) \<and>
    (tk_stop s \<longrightarrow> tk_loop s = Selecting \<longrightarrow> ticker_step s (leave_loop s)) \<and>
    (tk_stop s \<longrightarrow> tk_loop s = Sweeping \<longrightarrow> (\<forall>outcome. ticker_step s (sweep outcome s) \<and>
       ticker_step (sweep outcome s) (leave_loop (sweep outcome s))))"
  using ticker_inv_reachable [OF assms] ticker_step_writes [of s s']
  by (auto simp: ticker_inv_def sweep_def intro: ticker_step.see_stop ticker_step.swept [unfolded sweep_def])

theorem cleanup_stops_cleanly_witness:
  "\<exists>s. ticker_reachable [] 0 s \<and> tk_stopper s 0 = StopReturned \<and> tk_loop s = Returned"
proof -
  let ?s0 = "New_ticker [] 0"
  let ?s1 = "?s0\<lparr>tk_loop := Selecting\<rparr>"
  let ?s2 = "call_stop 0 ?s1"
  let ?s3 = "leave_loop ?s2"
  let ?s4 = "?s3\<lparr>tk_stopper := (tk_stopper ?s3)(0 := StopReturned)\<rparr>"
  have "ticker_reachable [] 0 ?s1"
    by (rule ticker_reachable.step [OF ticker_reachable.init]) (rule ticker_step.start, simp add: New_ticker_def)
  then have "ticker_reachable [] 0 ?s2"
    by (rule ticker_reachable.step) (rule ticker_step.stop, simp add: New_ticker_def)
  then have "ticker_reachable [] 0 ?s3"
    by (rule ticker_reachable.step) (rule ticker_step.see_stop, simp_all add: call_stop_def)
  then have r: "ticker_reachable [] 0 ?s4"
    by (rule ticker_reachable.step) (rule ticker_step.stopped, simp_all add: call_stop_def leave_loop_def)
  have "table_ok []" by (simp add: table_ok_def)
  from cleanup_stops_cleanly [OF r this, of 0] r show ?thesis by (intro exI [of _ ?s4]) simp
qed

end
