(* ===== verification/RF_Lifecycle.thy ===== *)
theory RF_Lifecycle
  imports RF_Wiring RF_Cleanup
begin

text \<open>
  The life of \<open>Run\<close> of \<open>internal/cli/run.go\<close> after the set-up: the main goroutine with its \<open>select\<close>,
  the graceful shutdown and the deferred functions, the goroutine that serves, the buffered error channel
  between them, and the cleanup goroutine started with the context that the signals cancel.
\<close>

section \<open>State\<close>

text \<open>The deferred calls, run last in first out.\<close>

datatype deferred = CancelShutdown | StopAuth | CloseClient | StopSignals

datatype main_pc = Awaiting | ShuttingDown | Draining | Unwinding "deferred list" "go_error option" | Exited "go_error option"
datatype server_pc = Listening | SendingErr go_error | ClosingErr | ServerDone

record lifecycle =
  lc_main :: main_pc
  lc_server :: server_pc
  lc_errCh :: "go_error list"
  lc_errClosed :: bool
  lc_ctxDone :: bool
  lc_signalled :: bool
  lc_shutdown :: bool
  lc_authStopped :: bool
  lc_clientOpen :: bool
  lc_ticker :: "ticker option"

definition deferred_calls :: "bool \<Rightarrow> deferred list" where
  "deferred_calls hasRepo = StopAuth # (if hasRepo then [CloseClient] else []) @ [StopSignals]"

text \<open>The state at the \<open>select\<close>: the serving and the cleanup goroutine have been started.\<close>

definition Run_serving :: "bool \<Rightarrow> quotes_table \<Rightarrow> gotime \<Rightarrow> lifecycle" where
  "Run_serving hasRepo repo now =
     \<lparr>lc_main = Awaiting, lc_server = Listening, lc_errCh = [], lc_errClosed = False, lc_ctxDone = False,
      lc_signalled = False, lc_shutdown = False, lc_authStopped = False, lc_clientOpen = hasRepo,
      lc_ticker = (if hasRepo then Some (New_ticker repo now) else None)\<rparr>"

text \<open>The cleanup goroutine sees the same context.\<close>

definition cancel_ctx :: "lifecycle \<Rightarrow> lifecycle" where
  "cancel_ctx s = s\<lparr>lc_ctxDone := True, lc_ticker := map_option (tk_cancelled_update (\<lambda>_. True)) (lc_ticker s)\<rparr>"

fun run_deferred :: "deferred \<Rightarrow> lifecycle \<Rightarrow> lifecycle" where
  "run_deferred CancelShutdown s = s"
| "run_deferred StopAuth s = s\<lparr>lc_authStopped := True\<rparr>"
| "run_deferred CloseClient s = s\<lparr>lc_clientOpen := False\<rparr>"
| "run_deferred StopSignals s = cancel_ctx s"

text \<open>A return starts the deferred calls.\<close>

definition leave :: "deferred list \<Rightarrow> go_error option \<Rightarrow> lifecycle \<Rightarrow> lifecycle" where
  "leave ds result s = s\<lparr>lc_main := Unwinding ds result\<rparr>"

section \<open>Steps\<close>

text \<open>
  \<open>ListenAndServe\<close> returns \<open>ErrServerClosed\<close> only after \<open>Shutdown\<close>, as documented, and any other error
  on its own. \<open>select\<close> takes any case that is ready; a receive takes the buffered error, or the zero
  value once the channel is closed and empty.
\<close>

inductive run_step :: "bool \<Rightarrow> lifecycle \<Rightarrow> lifecycle \<Rightarrow> bool" for hasRepo where
  signal: "\<not> lc_signalled s \<Longrightarrow> run_step hasRepo s ((cancel_ctx s)\<lparr>lc_signalled := True\<rparr>)"
| listen_fails: "lc_server s = Listening \<Longrightarrow> run_step hasRepo s (s\<lparr>lc_server := SendingErr err\<rparr>)"
| listen_closed: "lc_server s = Listening \<Longrightarrow> lc_shutdown s \<Longrightarrow> run_step hasRepo s (s\<lparr>lc_server := ClosingErr\<rparr>)"
| send_err: "lc_server s = SendingErr err \<Longrightarrow> length (lc_errCh s) < 1 \<Longrightarrow>
    run_step hasRepo s (s\<lparr>lc_server := ClosingErr, lc_errCh := lc_errCh s @ [err]\<rparr>)"
| close_err: "lc_server s = ClosingErr \<Longrightarrow> run_step hasRepo s (s\<lparr>lc_server := ServerDone, lc_errClosed := True\<rparr>)"
| see_signal: "lc_main s = Awaiting \<Longrightarrow> lc_ctxDone s \<Longrightarrow> run_step hasRepo s (s\<lparr>lc_main := ShuttingDown\<rparr>)"
| see_err: "lc_main s = Awaiting \<Longrightarrow> lc_errCh s = err # errs \<Longrightarrow>
    run_step hasRepo s (leave (deferred_calls hasRepo) (Run_exit (ServerFailed err) None) (s\<lparr>lc_errCh := errs\<rparr>))"
| see_closed: "lc_main s = Awaiting \<Longrightarrow> lc_errCh s = [] \<Longrightarrow> lc_errClosed s \<Longrightarrow>
    run_step hasRepo s (s\<lparr>lc_main := ShuttingDown\<rparr>)"
| shutdown: "lc_main s = ShuttingDown \<Longrightarrow> run_step hasRepo s (s\<lparr>lc_main := Draining, lc_shutdown := True\<rparr>)"
| drained: "lc_main s = Draining \<Longrightarrow>
    run_step hasRepo s (leave (CancelShutdown # deferred_calls hasRepo) (Run_exit Signalled outcome) s)"
| unwind: "lc_main s = Unwinding (d # ds) result \<Longrightarrow>
    run_step hasRepo s ((run_deferred d s)\<lparr>lc_main := Unwinding ds result\<rparr>)"
| exit: "lc_main s = Unwinding [] result \<Longrightarrow> run_step hasRepo s (s\<lparr>lc_main := Exited result\<rparr>)"
| cleanup: "lc_ticker s = Some tk \<Longrightarrow> ticker_step tk tk' \<Longrightarrow> tk_cancelled tk' = tk_cancelled tk \<Longrightarrow>
    tk_stopper tk' = tk_stopper tk \<Longrightarrow> run_step hasRepo s (s\<lparr>lc_ticker := Some tk'\<rparr>)"

inductive_cases run_stepE: "run_step hasRepo s s'"

inductive run_reachable :: "bool \<Rightarrow> quotes_table \<Rightarrow> gotime \<Rightarrow> lifecycle \<Rightarrow> bool" for hasRepo repo now where
  init: "run_reachable hasRepo repo now (Run_serving hasRepo repo now)"
| step: "run_reachable hasRepo repo now s \<Longrightarrow> run_step hasRepo s s' \<Longrightarrow> run_reachable hasRepo repo now s'"

text \<open>The exit code of \<open>main\<close> of \<open>cmd/api/main.go\<close>.\<close>

definition main_exit :: "go_error option \<Rightarrow> int" where
  "main_exit result = (case result of Some err \<Rightarrow> 1 | None \<Rightarrow> 0)"

section \<open>Invariant\<close>

definition unwound :: "deferred list \<Rightarrow> bool \<Rightarrow> lifecycle \<Rightarrow> bool" where
  "unwound ds hasRepo s \<longleftrightarrow>
     (StopAuth \<notin> set ds \<longrightarrow> lc_authStopped s) \<and> (CloseClient \<notin> set ds \<longrightarrow> \<not> lc_clientOpen s) \<and>
     (StopSignals \<notin> set ds \<longrightarrow> lc_ctxDone s)"

definition result_ok :: "go_error option \<Rightarrow> lifecycle \<Rightarrow> bool" where
  "result_ok result s \<longleftrightarrow>
     (case result of
        None \<Rightarrow> lc_signalled s \<and> lc_shutdown s
      | Some e \<Rightarrow> (\<exists>err. e = Wrapped ''server error'' err \<and> (lc_server s = ClosingErr \<or> lc_server s = ServerDone)) \<or>
                  (\<exists>err. e = Wrapped ''shutdown'' err \<and> lc_signalled s \<and> lc_shutdown s))"

text \<open>There is a cleanup goroutine if there is a repository; its context is that of \<open>Run\<close>; no one calls \<open>Stop\<close>.\<close>

fun ticker_follows :: "bool \<Rightarrow> bool \<Rightarrow> ticker option \<Rightarrow> bool" where
  "ticker_follows hasRepo ctxDone None \<longleftrightarrow> \<not> hasRepo"
| "ticker_follows hasRepo ctxDone (Some tk) \<longleftrightarrow> tk_cancelled tk = ctxDone \<and> \<not> tk_stop tk"

lemma ticker_follows_cancel [simp]:
  "ticker_follows hasRepo ctxDone tk \<Longrightarrow> ticker_follows hasRepo True (map_option (tk_cancelled_update (\<lambda>_. True)) tk)"
  by (cases tk) simp_all

definition run_inv :: "bool \<Rightarrow> lifecycle \<Rightarrow> bool" where
  "run_inv hasRepo s \<longleftrightarrow>
     (lc_server s = Listening \<or> (\<exists>err. lc_server s = SendingErr err) \<longrightarrow> lc_errCh s = []) \<and>
     (lc_errClosed s \<longleftrightarrow> lc_server s = ServerDone) \<and> length (lc_errCh s) \<le> 1 \<and>
     (lc_main s = Awaiting \<longrightarrow> \<not> lc_shutdown s \<and> (lc_ctxDone s \<longrightarrow> lc_signalled s) \<and>
        (lc_server s = ClosingErr \<or> lc_server s = ServerDone \<longrightarrow> lc_errCh s \<noteq> [])) \<and>
     (lc_main s = ShuttingDown \<longrightarrow> lc_signalled s) \<and>
     (lc_main s = Draining \<longrightarrow> lc_signalled s \<and> lc_shutdown s) \<and>
     (\<forall>ds r. lc_main s = Unwinding ds r \<longrightarrow> unwound ds hasRepo s \<and> result_ok r s) \<and>
     (\<forall>r. lc_main s = Exited r \<longrightarrow> unwound [] hasRepo s \<and> result_ok r s) \<and>
     (\<not> hasRepo \<longrightarrow> \<not> lc_clientOpen s) \<and>
     ticker_follows hasRepo (lc_ctxDone s) (lc_ticker s)"

lemma run_inv_init: "run_inv hasRepo (Run_serving hasRepo repo now)"
  by (simp add: run_inv_def Run_serving_def New_ticker_def)

lemma ticker_step_stop: "ticker_step tk tk' \<Longrightarrow> tk_stopper tk' = tk_stopper tk \<Longrightarrow> tk_stop tk' = tk_stop tk"
proof (induction rule: ticker_step.cases)
  case (stop s i)
  then have "tk_stopper s i = AwaitDone" by (metis call_stop_def fun_upd_same ticker.select_convs(6) ticker.surjective ticker.update_convs(6))
  with stop show ?case by simp
qed (auto simp: sweep_def leave_loop_def)

lemma run_deferred_simps [simp]:
  "lc_main (run_deferred d s) = lc_main s" "lc_server (run_deferred d s) = lc_server s"
  "lc_errCh (run_deferred d s) = lc_errCh s" "lc_errClosed (run_deferred d s) = lc_errClosed s"
  "lc_signalled (run_deferred d s) = lc_signalled s" "lc_shutdown (run_deferred d s) = lc_shutdown s"
  "lc_authStopped (run_deferred d s) \<longleftrightarrow> lc_authStopped s \<or> d = StopAuth"
  "lc_clientOpen (run_deferred d s) \<longleftrightarrow> lc_clientOpen s \<and> d \<noteq> CloseClient"
  "lc_ctxDone (run_deferred d s) \<longleftrightarrow> lc_ctxDone s \<or> d = StopSignals"
  by (cases d; simp add: cancel_ctx_def)+

lemma run_deferred_ticker:
  "lc_ticker (run_deferred d s) =
     (if d = StopSignals then map_option (tk_cancelled_update (\<lambda>_. True)) (lc_ticker s) else lc_ticker s)"
  by (cases d) (simp_all add: cancel_ctx_def)

lemma result_ok_simps [simp]:
  "result_ok r (run_deferred d s) = result_ok r s" "result_ok r (s\<lparr>lc_main := pc\<rparr>) = result_ok r s"
  "result_ok r (s\<lparr>lc_ticker := k\<rparr>) = result_ok r s"
  by (simp_all add: result_ok_def split: option.split)

lemma run_inv_step:
  assumes "run_step hasRepo s s'" and inv: "run_inv hasRepo s" shows "run_inv hasRepo s'"
  using assms(1)
proof (cases rule: run_step.cases)
  case signal
  then show ?thesis using inv
    by (auto simp: run_inv_def cancel_ctx_def unwound_def result_ok_def split: option.splits)
next
  case (see_err err errs)
  then have "lc_server s = ClosingErr \<or> lc_server s = ServerDone" using inv
    by (cases "lc_server s") (auto simp: run_inv_def)
  with see_err show ?thesis using inv
    by (auto simp: run_inv_def leave_def deferred_calls_def unwound_def result_ok_def Run_exit_def split: option.splits)
next
  case (drained outcome)
  then show ?thesis using inv
    by (auto simp: run_inv_def leave_def deferred_calls_def unwound_def result_ok_def Run_exit_def split: option.splits)
next
  case (unwind d ds result)
  have u: "unwound (d # ds) hasRepo s" "result_ok result s" using inv unwind(2) by (simp_all add: run_inv_def)
  then have "unwound ds hasRepo s'" by (auto simp: unwind(1) unwound_def)
  moreover have "ticker_follows hasRepo (lc_ctxDone s') (lc_ticker s')"
    using inv by (auto simp: unwind(1) run_inv_def run_deferred_ticker cancel_ctx_def)
  ultimately show ?thesis using inv u(2) unfolding unwind(1) by (simp add: run_inv_def unwind(2))
next
  case (cleanup tk tk')
  note k = ticker_step_stop [OF cleanup(3,5)]
  show ?thesis using inv unfolding cleanup(1) run_inv_def unwound_def by (simp add: cleanup(2,4) k)
next
  case see_signal
  then show ?thesis using inv by (simp add: run_inv_def)
next
  case (exit result)
  then show ?thesis using inv by (auto simp: run_inv_def unwound_def)
qed (use inv in \<open>auto simp: run_inv_def unwound_def result_ok_def split: option.splits\<close>)

lemma run_inv_reachable: "run_reachable hasRepo repo now s \<Longrightarrow> run_inv hasRepo s"
  by (induction rule: run_reachable.induct) (auto intro: run_inv_init run_inv_step)

section \<open>Progress\<close>

fun main_work :: "main_pc \<Rightarrow> nat" where
  "main_work Awaiting = 8"
| "main_work ShuttingDown = 7"
| "main_work Draining = 6"
| "main_work (Unwinding ds r) = length ds + 1"
| "main_work (Exited r) = 0"

fun server_work :: "server_pc \<Rightarrow> nat" where
  "server_work Listening = 3"
| "server_work (SendingErr err) = 2"
| "server_work ClosingErr = 1"
| "server_work ServerDone = 0"

definition run_work :: "lifecycle \<Rightarrow> nat" where
  "run_work s = main_work (lc_main s) + server_work (lc_server s)"

lemma run_step_work: "run_step hasRepo s s' \<Longrightarrow> run_work s' \<le> run_work s"
  by (cases rule: run_step.cases) (auto simp: run_work_def leave_def deferred_calls_def cancel_ctx_def)

text \<open>Once a signal has come or the server has stopped listening, \<open>Run\<close> or the server can always move on.\<close>

lemma run_progress:
  assumes inv: "run_inv hasRepo s" and "lc_signalled s \<longrightarrow> lc_ctxDone s" and "lc_signalled s \<or> lc_server s \<noteq> Listening"
    and "\<forall>r. lc_main s \<noteq> Exited r"
  shows "\<exists>s'. run_step hasRepo s s' \<and> run_work s' < run_work s"
proof (cases "lc_main s")
  case Awaiting
  show ?thesis
  proof (cases "lc_signalled s")
    case True
    with assms(2) have "lc_ctxDone s" by simp
    from run_step.see_signal [OF Awaiting this] Awaiting show ?thesis by (fastforce simp: run_work_def)
  next
    case False
    with assms(3) have l: "lc_server s \<noteq> Listening" by simp
    show ?thesis
    proof (cases "lc_server s")
      case (SendingErr err)
      with inv have "length (lc_errCh s) < 1" by (auto simp: run_inv_def)
      from run_step.send_err [OF SendingErr this] SendingErr show ?thesis by (fastforce simp: run_work_def)
    next
      case ClosingErr
      from run_step.close_err [OF this] ClosingErr show ?thesis by (fastforce simp: run_work_def)
    next
      case ServerDone
      with inv Awaiting have "lc_errCh s \<noteq> []" by (simp add: run_inv_def)
      then obtain err errs where "lc_errCh s = err # errs" by (meson list.exhaust)
      from run_step.see_err [OF Awaiting this] Awaiting show ?thesis
        by (fastforce simp: run_work_def leave_def deferred_calls_def)
    qed (use l in simp)
  qed
next
  case ShuttingDown
  from run_step.shutdown [OF this] ShuttingDown show ?thesis by (fastforce simp: run_work_def)
next
  case Draining
  from run_step.drained [OF this, of hasRepo None] Draining show ?thesis
    by (fastforce simp: run_work_def leave_def deferred_calls_def)
next
  case (Unwinding ds r)
  show ?thesis
  proof (cases ds)
    case Nil
    with run_step.exit [of s r] Unwinding show ?thesis by (fastforce simp: run_work_def)
  next
    case (Cons d ds')
    with run_step.unwind [of s d ds' r] Unwinding show ?thesis by (fastforce simp: run_work_def)
  qed
qed (use assms(4) in simp)

lemma signal_cancels: "run_reachable hasRepo repo now s \<Longrightarrow> lc_signalled s \<longrightarrow> lc_ctxDone s"
proof (induction rule: run_reachable.induct)
  case (step s s')
  from step(2,3) show ?case by (cases rule: run_step.cases) (auto simp: cancel_ctx_def leave_def)
qed (simp add: Run_serving_def)

section \<open>What the exit does not wait for\<close>

text \<open>The end of a run that was signalled, from the \<open>select\<close> on.\<close>

lemma signalled_exit:
  assumes r: "run_reachable hasRepo repo now s" and "lc_main s = Awaiting" and "lc_ctxDone s"
  shows "\<exists>s'. run_reachable hasRepo repo now s' \<and> lc_main s' = Exited None \<and> lc_server s' = lc_server s \<and>
    lc_errCh s' = lc_errCh s \<and> (\<forall>tk. lc_ticker s = Some tk \<longrightarrow> lc_ticker s' = Some (tk\<lparr>tk_cancelled := True\<rparr>))"
proof -
  let ?R = "run_reachable hasRepo repo now"
  have unwinds: "\<exists>s'. ?R s' \<and> lc_main s' = Exited None \<and> lc_server s' = lc_server t \<and> lc_errCh s' = lc_errCh t \<and>
      (\<forall>tk. lc_ticker t = Some tk \<longrightarrow> StopSignals \<in> set ds \<longrightarrow> lc_ticker s' = Some (tk\<lparr>tk_cancelled := True\<rparr>)) \<and>
      (\<forall>tk. lc_ticker t = Some tk \<longrightarrow> StopSignals \<notin> set ds \<longrightarrow> lc_ticker s' = Some tk)"
    if "?R t" "lc_main t = Unwinding ds None" for t ds
    using that
  proof (induction ds arbitrary: t)
    case Nil
    from run_reachable.step [OF Nil(1) run_step.exit [OF Nil(2)]] show ?case by fastforce
  next
    case (Cons d ds)
    let ?t = "(run_deferred d t)\<lparr>lc_main := Unwinding ds None\<rparr>"
    have "?R ?t" by (rule run_reachable.step [OF Cons(2) run_step.unwind [OF Cons(3)]])
    from Cons.IH [OF this] obtain s' where s': "?R s'" "lc_main s' = Exited None" "lc_server s' = lc_server t" "lc_errCh s' = lc_errCh t"
        "\<And>tk. lc_ticker ?t = Some tk \<Longrightarrow> StopSignals \<in> set ds \<Longrightarrow> lc_ticker s' = Some (tk\<lparr>tk_cancelled := True\<rparr>)"
        "\<And>tk. lc_ticker ?t = Some tk \<Longrightarrow> StopSignals \<notin> set ds \<Longrightarrow> lc_ticker s' = Some tk" by auto
    show ?case
      by (rule exI [of _ s'], cases "StopSignals \<in> set ds"; cases "d = StopSignals")
        (use s' in \<open>auto simp: run_deferred_ticker cancel_ctx_def\<close>)
  qed
  let ?s1 = "s\<lparr>lc_main := ShuttingDown\<rparr>"
  let ?s2 = "?s1\<lparr>lc_main := Draining, lc_shutdown := True\<rparr>"
  have "?R ?s1" by (rule run_reachable.step [OF r run_step.see_signal [OF assms(2,3)]])
  then have "?R ?s2" by (rule run_reachable.step) (rule run_step.shutdown, simp)
  then have "?R (leave (CancelShutdown # deferred_calls hasRepo) (Run_exit Signalled None) ?s2)"
    by (rule run_reachable.step) (rule run_step.drained, simp)
  then have "?R (leave (CancelShutdown # deferred_calls hasRepo) None ?s2)" by (simp add: Run_exit_def)
  from unwinds [OF this, of "CancelShutdown # deferred_calls hasRepo"] show ?thesis
    by (auto simp: leave_def deferred_calls_def)
qed

text \<open>
  \<open>Run\<close> never calls \<open>Stop\<close> on the cleanup, so it can return, with the Spanner client closed, while a
  sweep is under way.
\<close>

lemma cleanup_outlives_run:
  "\<exists>s tk. run_reachable True [] 0 s \<and> lc_main s = Exited None \<and> \<not> lc_clientOpen s \<and>
    lc_ticker s = Some tk \<and> tk_loop tk = Sweeping"
proof -
  let ?R = "run_reachable True [] 0"
  let ?k0 = "New_ticker [] 0"
  let ?k1 = "?k0\<lparr>tk_loop := RF_Cleanup.Selecting\<rparr>" let ?k2 = "?k1\<lparr>tk_tick := True\<rparr>"
  let ?k3 = "?k2\<lparr>tk_tick := False, tk_loop := Sweeping\<rparr>"
  let ?s = "\<lambda>k. (Run_serving True [] 0)\<lparr>lc_ticker := Some k\<rparr>"
  have lift: "?R (?s k) \<Longrightarrow> ticker_step k k' \<Longrightarrow> tk_cancelled k' = tk_cancelled k \<Longrightarrow> tk_stopper k' = tk_stopper k \<Longrightarrow> ?R (?s k')"
    for k k' using run_reachable.step [OF _ run_step.cleanup, of True "[]" 0 "?s k" k k'] by simp
  have "?R (?s ?k0)" using run_reachable.init [of True "[]" 0] by (simp add: Run_serving_def)
  then have "?R (?s ?k1)" by (rule lift) (rule ticker_step.start, simp_all add: New_ticker_def)
  then have "?R (?s ?k2)" by (rule lift) (rule ticker_step.fire, simp_all)
  then have "?R (?s ?k3)" by (rule lift) (rule ticker_step.take_tick, simp_all)
  then have "?R ((cancel_ctx (?s ?k3))\<lparr>lc_signalled := True\<rparr>)"
    by (rule run_reachable.step) (rule run_step.signal, simp add: Run_serving_def)
  from signalled_exit [OF this] obtain s where s: "?R s" "lc_main s = Exited None"
    "lc_ticker s = Some (?k3\<lparr>tk_cancelled := True\<rparr>)" by (auto simp: cancel_ctx_def Run_serving_def)
  from run_inv_reachable [OF s(1)] s(2) have "\<not> lc_clientOpen s" by (simp add: run_inv_def unwound_def)
  with s show ?thesis by fastforce
qed

text \<open>If the server fails as the signal comes, \<open>select\<close> may take the signal, and the failure is lost.\<close>

lemma server_failure_masked:
  "\<exists>s. run_reachable False repo now s \<and> lc_main s = Exited None \<and> lc_errCh s = [err]"
proof -
  let ?R = "run_reachable False repo now" and ?s0 = "Run_serving False repo now"
  let ?s1 = "?s0\<lparr>lc_server := SendingErr err\<rparr>"
  let ?s2 = "?s1\<lparr>lc_server := ClosingErr, lc_errCh := lc_errCh ?s1 @ [err]\<rparr>"
  have "?R ?s1" by (rule run_reachable.step [OF run_reachable.init]) (rule run_step.listen_fails, simp add: Run_serving_def)
  then have "?R ?s2" by (rule run_reachable.step) (rule run_step.send_err, simp_all add: Run_serving_def)
  then have "?R ((cancel_ctx ?s2)\<lparr>lc_signalled := True\<rparr>)"
    by (rule run_reachable.step) (rule run_step.signal, simp add: Run_serving_def)
  from signalled_exit [OF this] show ?thesis by (auto simp: cancel_ctx_def Run_serving_def)
qed

section \<open>Properties\<close>



end
