(* ===== verification/RF_Metrics.thy ===== *)
theory RF_Metrics
  imports RF_Ports
begin

text \<open>
  The two metrics recorders: \<open>internal/metrics/prometheus.go\<close> and the counting one of
  \<open>internal/testutil/recorder.go\<close>. Of the Prometheus client only its documented contract is used: a
  collector has a fixed list of label names, and \<open>WithLabelValues\<close> panics (\<open>None\<close>) for any other
  number of values. A histogram is the list of the values observed.
\<close>

section \<open>Collectors\<close>

datatype metric_kind = GaugeVec | CounterVec | HistogramVec

record collector =
  co_name :: string
  co_kind :: metric_kind
  co_labels :: "string list"

type_synonym series = "string \<times> string list"

record prom =
  pm_collectors :: "string \<rightharpoonup> collector"
  pm_counter :: "series \<Rightarrow> nat"
  pm_gauge :: "series \<rightharpoonup> real"
  pm_observed :: "series \<Rightarrow> real list"

definition metricCBState :: string where "metricCBState = ''carrier_circuit_breaker_state''"
definition metricP95Latency :: string where "metricP95Latency = ''carrier_p95_latency_ms''"
definition metricQuoteLatency :: string where "metricQuoteLatency = ''carrier_quote_latency_seconds''"
definition metricFanOutDuration :: string where "metricFanOutDuration = ''orchestrator_fan_out_duration_seconds''"
definition metricRequestsTotal :: string where "metricRequestsTotal = ''carrier_requests_total''"
definition metricHedgesTotal :: string where "metricHedgesTotal = ''hedge_requests_total''"
definition metricCBTransitions :: string where "metricCBTransitions = ''circuit_breaker_transitions_total''"
definition metricRateLimitTotal :: string where "metricRateLimitTotal = ''rate_limit_exceeded_total''"

lemmas metric_names = metricCBState_def metricP95Latency_def metricQuoteLatency_def metricFanOutDuration_def
  metricRequestsTotal_def metricHedgesTotal_def metricCBTransitions_def metricRateLimitTotal_def

lemma metric_names_distinct [simp]:
  "metricHedgesTotal \<noteq> metricRequestsTotal" "metricCBTransitions \<noteq> metricRequestsTotal"
  "metricRateLimitTotal \<noteq> metricRequestsTotal" "metricP95Latency \<noteq> metricCBState"
  by (simp_all add: metric_names)

definition recorder_collectors :: "collector list" where
  "recorder_collectors =
     [\<lparr>co_name = metricCBState, co_kind = GaugeVec, co_labels = [''carrier_id'']\<rparr>,
      \<lparr>co_name = metricP95Latency, co_kind = GaugeVec, co_labels = [''carrier_id'']\<rparr>,
      \<lparr>co_name = metricQuoteLatency, co_kind = HistogramVec, co_labels = [''carrier_id'', ''status'']\<rparr>,
      \<lparr>co_name = metricFanOutDuration, co_kind = HistogramVec, co_labels = []\<rparr>,
      \<lparr>co_name = metricRequestsTotal, co_kind = CounterVec, co_labels = [''carrier_id'', ''status'']\<rparr>,
      \<lparr>co_name = metricHedgesTotal, co_kind = CounterVec, co_labels = [''carrier_id'', ''trigger_carrier'']\<rparr>,
      \<lparr>co_name = metricCBTransitions, co_kind = CounterVec, co_labels = [''carrier_id'', ''from_state'', ''to_state'']\<rparr>,
      \<lparr>co_name = metricRateLimitTotal, co_kind = CounterVec, co_labels = [''carrier_id'']\<rparr>]"

text \<open>\<open>MustRegister\<close> panics if a name is registered already.\<close>

fun MustRegister :: "collector list \<Rightarrow> (string \<rightharpoonup> collector) \<Rightarrow> (string \<rightharpoonup> collector) option" where
  "MustRegister [] reg = Some reg"
| "MustRegister (c # cs) reg =
     (if reg (co_name c) \<noteq> None then None else MustRegister cs (reg(co_name c \<mapsto> c)))"

definition New_recorder :: "(string \<rightharpoonup> collector) \<Rightarrow> prom option" where
  "New_recorder reg = map_option
     (\<lambda>reg'. \<lparr>pm_collectors = reg', pm_counter = (\<lambda>x. 0), pm_gauge = Map.empty, pm_observed = (\<lambda>x. [])\<rparr>)
     (MustRegister recorder_collectors reg)"

definition WithLabelValues :: "prom \<Rightarrow> metric_kind \<Rightarrow> string \<Rightarrow> string list \<Rightarrow> series option" where
  "WithLabelValues p kind name values =
     (case pm_collectors p name of
        Some c \<Rightarrow> (if co_kind c = kind \<and> length (co_labels c) = length values then Some (name, values) else None)
      | None \<Rightarrow> None)"

definition Inc :: "string \<Rightarrow> string list \<Rightarrow> prom \<Rightarrow> prom option" where
  "Inc name values p = map_option (\<lambda>x. p\<lparr>pm_counter := (pm_counter p)(x := pm_counter p x + 1)\<rparr>)
     (WithLabelValues p CounterVec name values)"

definition Set_gauge :: "string \<Rightarrow> string list \<Rightarrow> real \<Rightarrow> prom \<Rightarrow> prom option" where
  "Set_gauge name values v p = map_option (\<lambda>x. p\<lparr>pm_gauge := (pm_gauge p)(x \<mapsto> v)\<rparr>)
     (WithLabelValues p GaugeVec name values)"

definition Observe :: "string \<Rightarrow> string list \<Rightarrow> real \<Rightarrow> prom \<Rightarrow> prom option" where
  "Observe name values v p = map_option (\<lambda>x. p\<lparr>pm_observed := (pm_observed p)(x := pm_observed p x @ [v])\<rparr>)
     (WithLabelValues p HistogramVec name values)"

section \<open>The recorders\<close>

definition cbStateLabel :: "CBState \<Rightarrow> string" where
  "cbStateLabel s =
     (if s = CBStateClosed then ''closed'' else if s = CBStateHalfOpen then ''halfopen''
      else if s = CBStateOpen then ''open'' else ''unknown'')"

text \<open>\<open>Duration.Seconds()\<close>: whole seconds and the rest, each converted to a float.\<close>

definition Seconds :: "duration \<Rightarrow> real" where
  "Seconds d = (let sec = godiv d Second; nsec = d - sec * Second
                in f64_add (f64_of_int sec) (f64_div (f64_of_int nsec) (f64_of_int Second)))"

fun prom_record :: "metric_event \<Rightarrow> prom \<Rightarrow> prom option" where
  "prom_record (RecordQuote carrierID latency status) p =
     Option.bind (Inc metricRequestsTotal [carrierID, status] p)
       (Observe metricQuoteLatency [carrierID, status] (Seconds latency))"
| "prom_record (RecordHedge hedgeCarrierID triggerCarrierID) p =
     Inc metricHedgesTotal [hedgeCarrierID, triggerCarrierID] p"
| "prom_record (RecordCBTransition carrierID from to) p =
     Inc metricCBTransitions [carrierID, cbStateLabel from, cbStateLabel to] p"
| "prom_record (RecordRateLimitRejection carrierID) p = Inc metricRateLimitTotal [carrierID] p"
| "prom_record (RecordFanOutDuration d) p = Observe metricFanOutDuration [] (Seconds d) p"
| "prom_record (SetCBState carrierID state) p =
     Set_gauge metricCBState [carrierID] (f64_of_int (sint state)) p"
| "prom_record (SetP95Latency carrierID ms) p = Set_gauge metricP95Latency [carrierID] ms p"

fun prom_run :: "metric_event list \<Rightarrow> prom \<Rightarrow> prom option" where
  "prom_run [] p = Some p"
| "prom_run (e # es) p = Option.bind (prom_record e p) (prom_run es)"

record NoopRecorder =
  RecordQuoteCount :: int
  RecordHedgeCount :: int
  RecordCBTransitionCount :: int
  RecordRateLimitRejectionCount :: int
  RecordFanOutDurationCount :: int
  SetCBStateCount :: int
  SetP95LatencyCount :: int

definition NewNoopRecorder :: NoopRecorder where
  "NewNoopRecorder = \<lparr>RecordQuoteCount = 0, RecordHedgeCount = 0, RecordCBTransitionCount = 0,
     RecordRateLimitRejectionCount = 0, RecordFanOutDurationCount = 0, SetCBStateCount = 0, SetP95LatencyCount = 0\<rparr>"

fun noop_record :: "metric_event \<Rightarrow> NoopRecorder \<Rightarrow> NoopRecorder" where
  "noop_record (RecordQuote c d st) n = n\<lparr>RecordQuoteCount := wrap64 (RecordQuoteCount n + 1)\<rparr>"
| "noop_record (RecordHedge h t) n = n\<lparr>RecordHedgeCount := wrap64 (RecordHedgeCount n + 1)\<rparr>"
| "noop_record (RecordCBTransition c s t) n = n\<lparr>RecordCBTransitionCount := wrap64 (RecordCBTransitionCount n + 1)\<rparr>"
| "noop_record (RecordRateLimitRejection c) n =
     n\<lparr>RecordRateLimitRejectionCount := wrap64 (RecordRateLimitRejectionCount n + 1)\<rparr>"
| "noop_record (RecordFanOutDuration d) n = n\<lparr>RecordFanOutDurationCount := wrap64 (RecordFanOutDurationCount n + 1)\<rparr>"
| "noop_record (SetCBState c s) n = n\<lparr>SetCBStateCount := wrap64 (SetCBStateCount n + 1)\<rparr>"
| "noop_record (SetP95Latency c ms) n = n\<lparr>SetP95LatencyCount := wrap64 (SetP95LatencyCount n + 1)\<rparr>"

section \<open>Recording never panics\<close>

definition recorder_ok :: "prom \<Rightarrow> bool" where
  "recorder_ok p \<longleftrightarrow> list_all (\<lambda>c. pm_collectors p (co_name c) = Some c) recorder_collectors"

lemma recorder_okD:
  assumes "recorder_ok p"
  shows "pm_collectors p metricCBState = Some \<lparr>co_name = metricCBState, co_kind = GaugeVec, co_labels = [''carrier_id'']\<rparr>"
    "pm_collectors p metricP95Latency = Some \<lparr>co_name = metricP95Latency, co_kind = GaugeVec, co_labels = [''carrier_id'']\<rparr>"
    "pm_collectors p metricQuoteLatency =
       Some \<lparr>co_name = metricQuoteLatency, co_kind = HistogramVec, co_labels = [''carrier_id'', ''status'']\<rparr>"
    "pm_collectors p metricFanOutDuration = Some \<lparr>co_name = metricFanOutDuration, co_kind = HistogramVec, co_labels = []\<rparr>"
    "pm_collectors p metricRequestsTotal =
       Some \<lparr>co_name = metricRequestsTotal, co_kind = CounterVec, co_labels = [''carrier_id'', ''status'']\<rparr>"
    "pm_collectors p metricHedgesTotal =
       Some \<lparr>co_name = metricHedgesTotal, co_kind = CounterVec, co_labels = [''carrier_id'', ''trigger_carrier'']\<rparr>"
    "pm_collectors p metricCBTransitions =
       Some \<lparr>co_name = metricCBTransitions, co_kind = CounterVec, co_labels = [''carrier_id'', ''from_state'', ''to_state'']\<rparr>"
    "pm_collectors p metricRateLimitTotal =
       Some \<lparr>co_name = metricRateLimitTotal, co_kind = CounterVec, co_labels = [''carrier_id'']\<rparr>"
  using assms by (simp_all add: recorder_ok_def recorder_collectors_def)

lemma New_recorder_ok: "\<exists>p. New_recorder Map.empty = Some p \<and> recorder_ok p \<and> pm_counter p = (\<lambda>x. 0) \<and> pm_gauge p = Map.empty"
  by (simp add: New_recorder_def recorder_collectors_def recorder_ok_def metric_names)

lemmas prom_ops = Inc_def Set_gauge_def Observe_def WithLabelValues_def

text \<open>The events that move the request counter of a carrier and a status.\<close>

fun counts_request :: "string \<Rightarrow> string \<Rightarrow> metric_event \<Rightarrow> bool" where
  "counts_request c st (RecordQuote c' d st') \<longleftrightarrow> c' = c \<and> st' = st"
| "counts_request c st e \<longleftrightarrow> False"

lemma prom_record_ok:
  assumes "recorder_ok p"
  shows "\<exists>p'. prom_record e p = Some p' \<and> recorder_ok p' \<and>
    (\<forall>c st. pm_counter p' (metricRequestsTotal, [c, st]) =
       pm_counter p (metricRequestsTotal, [c, st]) + (if counts_request c st e then 1 else 0)) \<and>
    (\<forall>c. pm_gauge p' (metricCBState, [c]) =
       (case cb_gauge c [e] of None \<Rightarrow> pm_gauge p (metricCBState, [c]) | Some s \<Rightarrow> Some (f64_of_int (sint s))))"
proof -
  note col = recorder_okD [OF assms]
  have ok: "recorder_ok p'" if "pm_collectors p' = pm_collectors p" for p'
    using assms that by (simp add: recorder_ok_def)
  show ?thesis
    by (cases e) (auto simp: prom_ops col ok metric_names_distinct [symmetric])
qed

lemma prom_run_ok:
  assumes "recorder_ok p"
  shows "\<exists>p'. prom_run es p = Some p' \<and> recorder_ok p' \<and>
    (\<forall>c st. pm_counter p' (metricRequestsTotal, [c, st]) =
       pm_counter p (metricRequestsTotal, [c, st]) + length (filter (counts_request c st) es)) \<and>
    (\<forall>c. pm_gauge p' (metricCBState, [c]) =
       (case cb_gauge c es of None \<Rightarrow> pm_gauge p (metricCBState, [c]) | Some s \<Rightarrow> Some (f64_of_int (sint s))))"
  using assms
proof (induction es arbitrary: p)
  case (Cons e es)
  obtain p1 where p1: "prom_record e p = Some p1" "recorder_ok p1"
    "\<forall>c st. pm_counter p1 (metricRequestsTotal, [c, st]) =
       pm_counter p (metricRequestsTotal, [c, st]) + (if counts_request c st e then 1 else 0)"
    "\<forall>c. pm_gauge p1 (metricCBState, [c]) =
       (case cb_gauge c [e] of None \<Rightarrow> pm_gauge p (metricCBState, [c]) | Some s \<Rightarrow> Some (f64_of_int (sint s)))"
    using prom_record_ok [OF Cons.prems, of e] by blast
  obtain p' where p': "prom_run es p1 = Some p'" "recorder_ok p'"
    "\<forall>c st. pm_counter p' (metricRequestsTotal, [c, st]) =
       pm_counter p1 (metricRequestsTotal, [c, st]) + length (filter (counts_request c st) es)"
    "\<forall>c. pm_gauge p' (metricCBState, [c]) =
       (case cb_gauge c es of None \<Rightarrow> pm_gauge p1 (metricCBState, [c]) | Some s \<Rightarrow> Some (f64_of_int (sint s)))"
    using Cons.IH [OF p1(2)] by blast
  show ?case
    using p1 p' cb_gauge_append [of _ "[e]" es]
    by (intro exI [of _ p']) (auto split: option.split)
qed simp

text \<open>What the exposed metrics say of any sequence of recorder calls on a fresh registry: nothing panics,
  the request counter of a carrier and status is the number of its \<open>RecordQuote\<close> calls, and the
  breaker gauge is the last state set.\<close>

lemma metrics_faithful:
  "\<exists>p. Option.bind (New_recorder Map.empty) (prom_run es) = Some p \<and>
    (\<forall>c st. pm_counter p (metricRequestsTotal, [c, st]) = length (filter (counts_request c st) es)) \<and>
    (\<forall>c. pm_gauge p (metricCBState, [c]) = map_option (\<lambda>s. f64_of_int (sint s)) (cb_gauge c es))"
proof -
  obtain p where p: "New_recorder Map.empty = Some p" "recorder_ok p" "pm_counter p = (\<lambda>x. 0)" "pm_gauge p = Map.empty"
    using New_recorder_ok by blast
  obtain p' where "prom_run es p = Some p'"
    "\<forall>c st. pm_counter p' (metricRequestsTotal, [c, st]) =
       pm_counter p (metricRequestsTotal, [c, st]) + length (filter (counts_request c st) es)"
    "\<forall>c. pm_gauge p' (metricCBState, [c]) =
       (case cb_gauge c es of None \<Rightarrow> pm_gauge p (metricCBState, [c]) | Some s \<Rightarrow> Some (f64_of_int (sint s)))"
    using prom_run_ok [OF p(2), of es] by blast
  with p show ?thesis by (intro exI [of _ p']) (simp split: option.split)
qed

text \<open>The counting recorder counts: here the quotes.\<close>

lemma noop_counts_quotes:
  assumes "length es < 2 ^ 63"
  shows "RecordQuoteCount (fold noop_record es NewNoopRecorder) =
    int (length (filter (\<lambda>e. \<exists>c d st. e = RecordQuote c d st) es))"
proof -
  have step: "RecordQuoteCount (noop_record e n) =
      (if \<exists>c d st. e = RecordQuote c d st then wrap64 (RecordQuoteCount n + 1) else RecordQuoteCount n)" for e n
    by (cases e) simp_all
  have "RecordQuoteCount (fold noop_record es n) =
      RecordQuoteCount n + int (length (filter (\<lambda>e. \<exists>c d st. e = RecordQuote c d st) es))"
    if "0 \<le> RecordQuoteCount n" "RecordQuoteCount n + int (length es) < 2 ^ 63" for n
    using that
  proof (induction es arbitrary: n)
    case (Cons e es)
    have w: "wrap64 (RecordQuoteCount n + 1) = RecordQuoteCount n + 1"
      using Cons.prems by (intro wrap64_id) (simp add: is_int64_def int64_min_def int64_max_def)
    show ?case using Cons.IH [of "noop_record e n"] Cons.prems w step [of e n] by auto
  qed simp
  from this [of NewNoopRecorder] assms show ?thesis by (simp add: NewNoopRecorder_def)
qed

end
